(* ===== verification/Jcl_Prelude.thy ===== *)
theory Jcl_Prelude
  imports Main "HOL-Library.Word"
begin

unbundle bit_operations_syntax

text \<open>
  Shared vocabulary of the development.
  \<^item> \<open>size_t\<close>, \<open>addr\<close>, \<open>byte\<close>: the LP64 machine types of the C sources; arithmetic on them
    wraps exactly as \<open>size_t\<close> and \<open>uintptr_t\<close> arithmetic does.
  \<^item> \<open>'a run\<close>: how a C call can end.  \<open>Ret\<close> is a normal return, \<open>Abort\<close> a failed
    \<open>assert\<close>, \<open>Fault\<close> undefined behaviour (a read through a pointer or an index that is out
    of range), \<open>Loop\<close> a loop that has used up its fuel.
  \<^item> \<open>align_up\<close>: the mathematical meaning of the masking expression
    \<open>(n + a - 1) & ~(a - 1)\<close> that the layout generator and the slab allocator share.
  \<^item> byte memories with the block reads and writes behind \<open>memcpy\<close> and \<open>memmove\<close>.
\<close>

type_synonym size_t = "64 word"
type_synonym addr = "64 word"
type_synonym byte = "8 word"

abbreviation NULL :: addr where
  "NULL \<equiv> 0"

named_theorems run_simps "normal forms of the run combinators"
named_theorems word_facts "moving size_t arithmetic to natural numbers"

section \<open>Outcomes of a C call\<close>

datatype 'a run = Ret 'a | Abort | Fault | Loop

primrec run_bind :: "'a run \<Rightarrow> ('a \<Rightarrow> 'b run) \<Rightarrow> 'b run" where
  "run_bind (Ret x) k = k x"
| "run_bind Abort k = Abort"
| "run_bind Fault k = Fault"
| "run_bind Loop k = Loop"

definition assert_c :: "bool \<Rightarrow> 'a run \<Rightarrow> 'a run" where
  "assert_c c m = (if c then m else Abort)"

lemma assert_c_True [simp, run_simps]: "assert_c True m = m"
  by (simp add: assert_c_def)

lemma assert_c_False [simp, run_simps]: "assert_c False m = Abort"
  by (simp add: assert_c_def)

lemma assert_c_Ret_iff [simp]: "assert_c c m = Ret x \<longleftrightarrow> c \<and> m = Ret x"
  by (simp add: assert_c_def)

lemma run_bind_Ret_iff: "run_bind m k = Ret y \<longleftrightarrow> (\<exists>x. m = Ret x \<and> k x = Ret y)"
  by (cases m) auto

lemma run_bind_Ret_right [simp, run_simps]: "run_bind m Ret = m"
  by (cases m) auto

lemma run_bind_assoc [run_simps]:
  "run_bind (run_bind m k) l = run_bind m (\<lambda>x. run_bind (k x) l)"
  by (cases m) auto

lemma run_bind_assert_c [run_simps]: "run_bind (assert_c c m) k = assert_c c (run_bind m k)"
  by (simp add: assert_c_def)

lemma run_bind_cong [fundef_cong]:
  "m = m' \<Longrightarrow> (\<And>x. m' = Ret x \<Longrightarrow> k x = k' x) \<Longrightarrow> run_bind m k = run_bind m' k'"
  by (cases m') auto

section \<open>Powers of two and alignment\<close>

definition align_up :: "nat \<Rightarrow> nat \<Rightarrow> nat" where
  "align_up a n = ((n + a - 1) div a) * a"

lemma align_up_dvd [simp, intro]: "a dvd align_up a n"
  by (simp add: align_up_def)

lemma align_up_bounds:
  assumes "0 < a"
  shows "n \<le> align_up a n" and "align_up a n < n + a"
proof -
  let ?x = "n + a - 1"
  have "?x div a * a + ?x mod a = ?x" by (rule div_mult_mod_eq)
  moreover have "?x mod a < a" using assms by simp
  ultimately show "n \<le> align_up a n" and "align_up a n < n + a"
    unfolding align_up_def using assms by linarith+
qed

lemmas align_up_ge = align_up_bounds(1)
lemmas align_up_less = align_up_bounds(2)

lemma align_up_least:
  assumes "0 < a" "a dvd m" "n \<le> m"
  shows "align_up a n \<le> m"
proof -
  from assms(2) obtain q where m: "m = a * q" by (auto simp: dvd_def)
  from align_up_less[OF assms(1), of n] assms(3) m
  have "((n + a - 1) div a) * a < (q + 1) * a" by (simp add: align_up_def algebra_simps)
  hence "(n + a - 1) div a < q + 1" by (rule mult_less_cancel2[THEN iffD1, THEN conjunct2])
  thus ?thesis using m by (simp add: align_up_def algebra_simps)
qed

lemma align_up_id: "0 < a \<Longrightarrow> a dvd n \<Longrightarrow> align_up a n = n"
  using align_up_ge align_up_least le_antisym by blast

lemma align_up_pos: "0 < a \<Longrightarrow> 0 < n \<Longrightarrow> 0 < align_up a n"
  using align_up_ge[of a n] by linarith

section \<open>Words that are powers of two\<close>

lemma unat_lt64: "unat (x :: 64 word) < 2 ^ 64"
  using unsigned_less[of x, where ?'a = nat] by simp

lemma unat_pow2_64: "k < 64 \<Longrightarrow> unat (2 ^ k :: 64 word) = 2 ^ k"
  using unat_of_nat[where ?'a = 64, of "2 ^ k"] power_strict_increasing[of k 64 "2::nat"]
  by (simp del: unsigned_of_nat)

lemma and_not_mask_eq: "x AND NOT (mask k) = push_bit k (drop_bit k (x :: 'a::len word))"
  by (rule bit_word_eqI) (auto simp: bit_simps)

lemma unat_and_not_mask: "unat (x AND NOT (mask k) :: 64 word) = (unat x div 2 ^ k) * 2 ^ k"
proof -
  have "unat x div 2 ^ k * 2 ^ k \<le> unat x" by simp
  also have "unat x < 2 ^ 64" by (rule unat_lt64)
  finally have "(unat x div 2 ^ k * 2 ^ k) mod 2 ^ 64 = unat x div 2 ^ k * 2 ^ k" by simp
  thus ?thesis
    unfolding and_not_mask_eq unsigned_push_bit_eq unat_drop_bit_eq
    by (simp add: push_bit_eq_mult drop_bit_eq_div take_bit_eq_mod)
qed

lemma bit_top:
  assumes "2 ^ n \<le> m" "m < 2 ^ Suc n"
  shows "bit (m :: nat) n"
proof -
  have "m div 2 ^ n = 1" using assms by (intro div_nat_eqI) auto
  thus ?thesis by (simp add: bit_iff_odd)
qed

lemma ex_top_bit: "0 < (m::nat) \<Longrightarrow> \<exists>n. 2 ^ n \<le> m \<and> m < 2 ^ Suc n"
proof (induction m rule: less_induct)
  case (less m)
  show ?case
  proof (cases "m = 1")
    case True
    then show ?thesis by (intro exI[of _ 0]) simp
  next
    case False
    with less.prems have "0 < m div 2" "m div 2 < m" by auto
    with less.IH obtain n where "2 ^ n \<le> m div 2" "m div 2 < 2 ^ Suc n" by blast
    hence "2 ^ Suc n \<le> m \<and> m < 2 ^ Suc (Suc n)" by auto
    thus ?thesis by blast
  qed
qed

lemma pow2_nat_iff: "0 < (m::nat) \<Longrightarrow> m AND (m - 1) = 0 \<longleftrightarrow> (\<exists>k. m = 2 ^ k)"
proof
  assume pos: "0 < m" and z: "m AND (m - 1) = 0"
  obtain n where n: "2 ^ n \<le> m" "m < 2 ^ Suc n" using ex_top_bit[OF pos] by blast
  show "\<exists>k. m = 2 ^ k"
  proof (rule ccontr)
    assume "\<nexists>k. m = 2 ^ k"
    with n have "2 ^ n \<le> m - 1" by (metis Suc_leI Suc_pred' le_less not_less_eq_eq pos)
    moreover from n have "m - 1 < 2 ^ Suc n" by simp
    ultimately have "bit (m - 1) n" by (rule bit_top)
    moreover have "bit m n" using n by (rule bit_top)
    ultimately have "bit (m AND (m - 1)) n" by (simp add: bit_and_iff)
    with z show False by simp
  qed
next
  assume "\<exists>k. m = 2 ^ k"
  then obtain k where m: "m = 2 ^ k" by blast
  have "m - 1 = mask k" by (simp add: m mask_eq_exp_minus_1)
  hence "m AND (m - 1) = take_bit k m" by (simp add: take_bit_eq_mask)
  thus "m AND (m - 1) = 0" by (simp add: m)
qed

lemma valid_align_word:
  fixes a :: "64 word"
  assumes "a \<noteq> 0"
  shows "(a - 1) AND a = 0 \<longleftrightarrow> (\<exists>k < 64. a = 2 ^ k)"
proof -
  have pos: "0 < unat a" using assms by (simp add: unat_gt_0)
  have "unat (a AND (a - 1)) = unat a AND (unat a - 1)"
    using assms by (simp add: unsigned_and_eq unat_minus_one)
  hence "(a - 1) AND a = 0 \<longleftrightarrow> unat a AND (unat a - 1) = 0"
    by (metis and.commute unat_eq_zero)
  also have "\<dots> \<longleftrightarrow> (\<exists>k. unat a = 2 ^ k)" by (rule pow2_nat_iff[OF pos])
  also have "\<dots> \<longleftrightarrow> (\<exists>k < 64. a = 2 ^ k)"
  proof
    assume "\<exists>k. unat a = 2 ^ k"
    then obtain k where k: "unat a = 2 ^ k" by blast
    have "(2::nat) ^ k < 2 ^ 64" using unat_lt64[of a] k by simp
    hence "k < 64" by (simp only: power_strict_increasing_iff[of "2::nat"])
    moreover have "a = of_nat (2 ^ k)" using k by (metis of_nat_unat ucast_id)
    ultimately show "\<exists>k < 64. a = 2 ^ k" by auto
  next
    assume "\<exists>k < 64. a = 2 ^ k"
    then obtain k where "k < 64" "a = 2 ^ k" by blast
    thus "\<exists>k. unat a = 2 ^ k" by (auto simp: unat_pow2_64)
  qed
  finally show ?thesis .
qed


lemma unat_plus_minus_one:
  fixes s a :: "64 word"
  assumes "a \<noteq> 0"
  shows "unat (s + a - 1) = (unat s + unat a - 1) mod 2 ^ 64"
proof -
  have "unat (s + a - 1) = (unat s + unat (a - 1)) mod 2 ^ 64"
    using unat_word_ariths(1)[of s "a - 1"] by (simp add: add_diff_eq)
  also have "unat (a - 1) = unat a - 1" using assms by (rule unat_minus_one)
  also have "unat s + (unat a - 1) = unat s + unat a - 1"
    using assms by (simp add: unat_gt_0 Suc_le_eq)
  finally show ?thesis .
qed

lemma mask_align_eq: "(2 ^ k - 1 :: 64 word) = mask k"
  by (simp add: mask_eq_exp_minus_1)

lemma unat_mask_align:
  fixes s :: "64 word"
  assumes k: "k < 64"
  shows "unat ((s + 2 ^ k - 1) AND NOT (2 ^ k - 1)) =
    (if unat s + 2 ^ k - 1 < 2 ^ 64 then align_up (2 ^ k) (unat s) else 0)"
proof -
  have nz: "(2 ^ k :: 64 word) \<noteq> 0" using unat_pow2_64[OF k] by (metis power_not_zero unat_0 zero_neq_numeral)
  have u: "unat (s + 2 ^ k - 1) = (unat s + 2 ^ k - 1) mod 2 ^ 64"
    using unat_plus_minus_one[OF nz, of s] unat_pow2_64[OF k] by simp
  have v: "unat ((s + 2 ^ k - 1) AND NOT (2 ^ k - 1)) = unat (s + 2 ^ k - 1) div 2 ^ k * 2 ^ k"
    unfolding mask_align_eq by (rule unat_and_not_mask)
  show ?thesis
  proof (cases "unat s + 2 ^ k - 1 < 2 ^ 64")
    case True
    thus ?thesis unfolding v u align_up_def by simp
  next
    case False
    have "(2::nat) ^ k \<le> 2 ^ 64" using k by (intro power_increasing) auto
    with False unat_lt64[of s] have "(unat s + 2 ^ k - 1) mod 2 ^ 64 = unat s + 2 ^ k - 1 - 2 ^ 64"
      by (subst mod_if) simp
    also have "\<dots> < 2 ^ k" using unat_lt64[of s] False by linarith
    finally show ?thesis unfolding v u using False by simp
  qed
qed

section \<open>Byte memory\<close>

type_synonym mem = "addr \<Rightarrow> byte"

definition read_bytes :: "mem \<Rightarrow> addr \<Rightarrow> nat \<Rightarrow> byte list" where
  "read_bytes m p n = map (\<lambda>i. m (p + of_nat i)) [0..<n]"

definition write_bytes :: "mem \<Rightarrow> addr \<Rightarrow> byte list \<Rightarrow> mem" where
  "write_bytes m p bs = (\<lambda>a. if unat (a - p) < length bs then bs ! unat (a - p) else m a)"

lemma length_read_bytes [simp]: "length (read_bytes m p n) = n"
  by (simp add: read_bytes_def)

lemma nth_read_bytes [simp]: "i < n \<Longrightarrow> read_bytes m p n ! i = m (p + of_nat i)"
  by (simp add: read_bytes_def)

lemma unat_of_nat_64: "n < 2 ^ 64 \<Longrightarrow> unat (of_nat n :: 64 word) = n"
  using unat_of_nat[where ?'a = 64, of n] by (simp del: unsigned_of_nat)

lemma write_bytes_in:
  "i < length bs \<Longrightarrow> length bs \<le> 2 ^ 64 \<Longrightarrow> write_bytes m p bs (p + of_nat i) = bs ! i"
  by (simp add: write_bytes_def unat_of_nat_64)

lemma of_nat_diff_64:
  assumes "x < 2 ^ 64" "y < 2 ^ 64"
  shows "unat (of_nat x - of_nat y :: addr) = (if y \<le> x then x - y else x + 2 ^ 64 - y)"
  using assms by (simp add: unat_sub_if_size unat_of_nat_64 word_size word_le_nat_alt)

lemma write_bytes_out:
  assumes "x < 2 ^ 64" "y + length bs \<le> 2 ^ 64" "x < y \<or> y + length bs \<le> x"
  shows "write_bytes m (p + of_nat y) bs (p + of_nat x) = m (p + of_nat x)"
proof (cases "bs = []")
  case True
  thus ?thesis by (simp add: write_bytes_def)
next
  case False
  hence "y < 2 ^ 64" using assms(2) by (cases bs) auto
  hence "\<not> unat (of_nat x - of_nat y :: addr) < length bs"
    using assms by (simp only: of_nat_diff_64) auto
  thus ?thesis by (simp add: write_bytes_def)
qed

lemma read_write_same [simp]:
  "length bs \<le> 2 ^ 64 \<Longrightarrow> read_bytes (write_bytes m p bs) p (length bs) = bs"
  by (rule nth_equalityI) (auto simp: write_bytes_in)

lemma read_write_disjoint:
  assumes "x + n \<le> 2 ^ 64" "y + length bs \<le> 2 ^ 64" "x + n \<le> y \<or> y + length bs \<le> x"
  shows "read_bytes (write_bytes m (p + of_nat y) bs) (p + of_nat x) n = read_bytes m (p + of_nat x) n"
proof (rule nth_equalityI)
  fix i assume "i < length (read_bytes (write_bytes m (p + of_nat y) bs) (p + of_nat x) n)"
  hence i: "i < n" by simp
  have eq: "p + of_nat x + of_nat i = p + of_nat (x + i)" by (simp add: add.assoc)
  have "write_bytes m (p + of_nat y) bs (p + of_nat (x + i)) = m (p + of_nat (x + i))"
    using assms i by (intro write_bytes_out) auto
  thus "read_bytes (write_bytes m (p + of_nat y) bs) (p + of_nat x) n ! i
        = read_bytes m (p + of_nat x) n ! i"
    using i by (simp only: nth_read_bytes eq)
qed simp

lemma read_bytes_slice:
  assumes "j + k \<le> n"
  shows "take k (drop j (read_bytes m p n)) = read_bytes m (p + of_nat j) k"
  using assms by (intro nth_equalityI) (auto simp: add.assoc)

lemma read_write_slice:
  assumes "j + k \<le> length bs" "length bs \<le> 2 ^ 64"
  shows "read_bytes (write_bytes m p bs) (p + of_nat j) k = take k (drop j bs)"
  using read_bytes_slice[OF assms(1), of "write_bytes m p bs" p] assms(2) by simp

section \<open>Pointers in byte memory\<close>

text \<open>A 64-bit word is stored as eight bytes, the lowest first.\<close>

definition word_bytes :: "addr \<Rightarrow> byte list" where
  "word_bytes v = map (\<lambda>i. ucast (drop_bit (8 * i) v)) [0..<8]"

definition bytes_word :: "byte list \<Rightarrow> addr" where
  "bytes_word bs = foldr (\<lambda>b w. ucast b OR push_bit 8 w) bs 0"

definition load_ptr :: "mem \<Rightarrow> addr \<Rightarrow> addr" where
  "load_ptr m p = bytes_word (read_bytes m p 8)"

definition store_ptr :: "mem \<Rightarrow> addr \<Rightarrow> addr \<Rightarrow> mem" where
  "store_ptr m p v = write_bytes m p (word_bytes v)"

lemma length_word_bytes [simp]: "length (word_bytes v) = 8"
  by (simp add: word_bytes_def)

lemma bit_bytes_word: "bit (bytes_word bs) n \<longleftrightarrow> n < 64 \<and> n div 8 < length bs \<and> bit (bs ! (n div 8)) (n mod 8)"
proof (induction bs arbitrary: n)
  case (Cons b bs)
  have IH: "bit (bytes_word bs) k \<longleftrightarrow> k < 64 \<and> k div 8 < length bs \<and> bit (bs ! (k div 8)) (k mod 8)" for k
    by (rule Cons.IH)
  have eq: "bytes_word (b # bs) = ucast b OR push_bit 8 (bytes_word bs)" by (simp add: bytes_word_def)
  show ?case
  proof (cases "n < 8")
    case True
    thus ?thesis by (simp add: eq bit_simps)
  next
    case False
    hence n: "n div 8 = Suc ((n - 8) div 8)" "n mod 8 = (n - 8) mod 8" by (simp_all add: le_div_geq le_mod_geq)
    have "\<not> bit b n" using False by (simp add: bit_word.rep_eq bit_take_bit_iff not_less impossible_bit)
    thus ?thesis using False IH[of "n - 8"] unfolding n by (auto simp: eq bit_simps)
  qed
qed (simp add: bytes_word_def)

lemma bytes_word_bytes [simp]: "bytes_word (word_bytes v) = v"
proof (rule bit_word_eqI)
  fix n assume "n < LENGTH(64)"
  hence n: "n < 64" by simp
  hence "n div 8 < 8" by simp
  thus "bit (bytes_word (word_bytes v)) n = bit v n" using n by (simp add: bit_bytes_word word_bytes_def bit_simps)
qed

text \<open>Two words do not share a byte.\<close>

definition words_apart :: "addr \<Rightarrow> addr \<Rightarrow> bool" where
  "words_apart a b \<longleftrightarrow> 8 \<le> unat (a - b) \<and> 8 \<le> unat (b - a)"

lemma words_apartI:
  assumes "unat a + 8 \<le> unat b" "unat b + 8 \<le> 2 ^ 64"
  shows "words_apart a b" "words_apart b a"
proof -
  have "unat (b - a) = unat b - unat a" using assms by (intro unat_sub) (simp add: word_le_nat_alt)
  moreover have "unat (a - b) = unat a + 2 ^ 64 - unat b"
    using assms unat_lt64[of a] unat_lt64[of b] by (simp add: unat_sub_if_size word_size word_le_nat_alt)
  ultimately show "words_apart a b" "words_apart b a" using assms by (auto simp: words_apart_def)
qed

lemma load_ptr_cong: "(\<And>x. unat (x - a) < 8 \<Longrightarrow> m' x = m x) \<Longrightarrow> load_ptr m' a = load_ptr m a"
  unfolding load_ptr_def by (intro arg_cong[of _ _ bytes_word] nth_equalityI) (simp_all add: unat_of_nat_64)

lemma load_store_ptr [simp]: "load_ptr (store_ptr m a v) a = v"
  using read_write_same[of "word_bytes v" m a] by (simp add: load_ptr_def store_ptr_def)

lemma store_ptr_out: "8 \<le> unat (x - a) \<Longrightarrow> store_ptr m a v x = m x"
  by (simp add: store_ptr_def write_bytes_def)

lemma load_store_apart:
  assumes "words_apart a b"
  shows "load_ptr (store_ptr m a v) b = load_ptr m b"
proof (rule load_ptr_cong)
  fix x assume x: "unat (x - b) < 8"
  have d: "8 \<le> unat (b - a)" "8 \<le> unat (a - b)" using assms by (simp_all add: words_apart_def)
  have "unat (a - b) = unat (0 - (b - a))" by simp
  also have "\<dots> = 2 ^ 64 - unat (b - a)" using d(1) by (simp only: unat_sub_if_size word_size) simp
  finally have "unat (b - a) + unat (x - b) < 2 ^ 64" using x d by simp
  hence "unat ((b - a) + (x - b)) = unat (b - a) + unat (x - b)" using unat_add_lem[of "b - a" "x - b"] by simp
  hence "8 \<le> unat (x - a)" using d(1) by simp
  thus "store_ptr m a v x = m x" by (rule store_ptr_out)
qed

end
