(* ===== verification/Jcl_Error.thy ===== *)
theory Jcl_Error
  imports Jcl_Prelude
begin

text \<open>
  \<open>include/jcl/error.h\<close> and \<open>src/error.c\<close>: the error codes and the wrappers around libc and
  system calls.  Every wrapper gets an out-parameter \<open>jcl_err_t *err\<close>; here the value of
  \<open>*err\<close> before the call is the last argument and the value after it is the last result.
  A system call is represented by what it returned together with the value of \<open>errno\<close> after
  it.  The sources are in the middle of a rename: \<open>jfs_malloc\<close>, \<open>jfs_err_t\<close>, \<open>JFS_OK\<close> and so
  on are the \<open>jcl_\<close> names of \<open>error.h\<close>.
  The locale \<open>syscall_wrapper\<close> is the contract all wrappers share (write \<open>*err\<close> exactly when
  the call failed, and never with \<open>JCL_OK\<close>); it is interpreted for each of them.
\<close>

section \<open>Error codes\<close>

text \<open>
  The first eighteen constructors are the enumerators of \<open>jcl_err_t\<close> in order.  The remaining
  ones are names that the other sources use but that \<open>error.h\<close> does not declare.
\<close>

datatype jcl_err =
    JCL_OK | JCL_ERR_SYS | JCL_ERR_INTER | JCL_ERR_AGAIN | JCL_ERR_ACCESS | JCL_ERR_INVAL_PATH
  | JCL_ERR_ARG | JCL_ERR_EMPTY | JCL_ERR_FULL | JCL_ERR_BAD_CONF | JCL_ERR_GETADDRINFO
  | JCL_ERR_LAN_HOST_UNREACH | JCL_ERR_CONNECTION_ABORT | JCL_ERR_CONNECTION_RESET | JCL_ERR_PIPE
  | JCL_ERR_MUTEX_BUSY | JCL_ERR_COND_BUSY | JCL_ERR_COND_TIMED_OUT
  | JCL_ERR_BST_BAD_KEY
  | JCL_ERR_FIO_FILE_END | JCL_ERR_FIO_PATH_LEN | JCL_ERR_FIO_NAME_LEN | JCL_ERR_FIO_PATH_OVERFLOW
  | JCL_ERR_FW_SKIP | JCL_ERR_FW_FAIL | JCL_ERR_FW_STATE | JCL_ERR_FW_UNKNOWN | JCL_ERR_FW_UNSUPPORTED
  | JCL_ERR_NS_BAD_ADDR | JCL_ERR_NS_BAD_ACCEPT | JCL_ERR_NS_CONNECTION_CLOSE

datatype errno =
    EACCES | ENOENT | ENOTDIR | ECONNABORTED | EPROTO | ENOPROTOOPT | EHOSTDOWN | ENONET
  | EHOSTUNREACH | EOPNOTSUPP | ENETUNREACH | EAGAIN | EINTR | ECONNREFUSED | ETIMEDOUT
  | ECONNRESET | EPIPE | EBUSY | EOTHER int

datatype gai_status = GAI_OK | EAI_AGAIN | EAI_FAIL | EAI_NONAME | EAI_SYSTEM | EAI_OTHER int

definition REMAP_ERR :: "jcl_err \<Rightarrow> jcl_err \<Rightarrow> jcl_err \<Rightarrow> jcl_err" where
  "REMAP_ERR from_var to_var err = (if err = from_var then to_var else err)"

section \<open>Wrappers\<close>

definition jcl_malloc :: "addr \<Rightarrow> jcl_err \<Rightarrow> addr \<times> jcl_err" where
  "jcl_malloc allocated_memory err =
     (if allocated_memory = NULL then (NULL, JCL_ERR_SYS) else (allocated_memory, err))"

definition jcl_realloc :: "addr \<Rightarrow> jcl_err \<Rightarrow> addr \<times> jcl_err" where
  "jcl_realloc allocated_memory err =
     (if allocated_memory = NULL then (NULL, JCL_ERR_SYS) else (allocated_memory, err))"

definition jcl_lstat :: "int \<Rightarrow> errno \<Rightarrow> jcl_err \<Rightarrow> jcl_err" where
  "jcl_lstat ret errno err =
     (if ret \<noteq> 0 then
        (case errno of
           EACCES \<Rightarrow> JCL_ERR_ACCESS
         | ENOENT \<Rightarrow> JCL_ERR_INVAL_PATH
         | ENOTDIR \<Rightarrow> JCL_ERR_INVAL_PATH
         | _ \<Rightarrow> JCL_ERR_SYS)
      else err)"

definition jcl_opendir :: "addr \<Rightarrow> errno \<Rightarrow> jcl_err \<Rightarrow> addr \<times> jcl_err" where
  "jcl_opendir dir errno err =
     (if dir = NULL then
        (NULL, (case errno of
           ENOENT \<Rightarrow> JCL_ERR_INVAL_PATH
         | ENOTDIR \<Rightarrow> JCL_ERR_INVAL_PATH
         | EACCES \<Rightarrow> JCL_ERR_ACCESS
         | _ \<Rightarrow> JCL_ERR_SYS))
      else (dir, err))"

definition jcl_shutdown :: "int \<Rightarrow> errno \<Rightarrow> jcl_err \<Rightarrow> jcl_err" where
  "jcl_shutdown ret errno err = (if ret \<noteq> 0 then JCL_ERR_SYS else err)"

definition jcl_getaddrinfo :: "gai_status \<Rightarrow> 'ai \<Rightarrow> jcl_err \<Rightarrow> 'ai option \<times> jcl_err" where
  "jcl_getaddrinfo status result err =
     (if status \<noteq> GAI_OK then
        (None, (case status of
           EAI_AGAIN \<Rightarrow> JCL_ERR_AGAIN
         | EAI_FAIL \<Rightarrow> JCL_ERR_LAN_HOST_UNREACH
         | EAI_NONAME \<Rightarrow> JCL_ERR_LAN_HOST_UNREACH
         | EAI_SYSTEM \<Rightarrow> JCL_ERR_SYS
         | _ \<Rightarrow> JCL_ERR_GETADDRINFO))
      else (Some result, err))"

definition jcl_bind :: "int \<Rightarrow> errno \<Rightarrow> jcl_err \<Rightarrow> jcl_err" where
  "jcl_bind ret errno err = (if ret \<noteq> 0 then JCL_ERR_SYS else err)"

definition jcl_listen :: "int \<Rightarrow> errno \<Rightarrow> jcl_err \<Rightarrow> jcl_err" where
  "jcl_listen ret errno err = (if ret \<noteq> 0 then JCL_ERR_SYS else err)"

definition jcl_accept :: "int \<Rightarrow> errno \<Rightarrow> jcl_err \<Rightarrow> int \<times> jcl_err" where
  "jcl_accept accepted_fd errno err =
     (if accepted_fd = -1 then
        (-1, (case errno of
           ECONNABORTED \<Rightarrow> JCL_ERR_CONNECTION_ABORT
         | EPROTO \<Rightarrow> JCL_ERR_AGAIN
         | ENOPROTOOPT \<Rightarrow> JCL_ERR_AGAIN
         | EHOSTDOWN \<Rightarrow> JCL_ERR_AGAIN
         | ENONET \<Rightarrow> JCL_ERR_AGAIN
         | EHOSTUNREACH \<Rightarrow> JCL_ERR_AGAIN
         | EOPNOTSUPP \<Rightarrow> JCL_ERR_AGAIN
         | ENETUNREACH \<Rightarrow> JCL_ERR_AGAIN
         | EAGAIN \<Rightarrow> JCL_ERR_AGAIN
         | EINTR \<Rightarrow> JCL_ERR_INTER
         | _ \<Rightarrow> JCL_ERR_SYS))
      else (accepted_fd, err))"

definition jcl_connect :: "int \<Rightarrow> errno \<Rightarrow> jcl_err \<Rightarrow> jcl_err" where
  "jcl_connect ret errno err =
     (if ret \<noteq> 0 then
        (case errno of
           EAGAIN \<Rightarrow> JCL_ERR_AGAIN
         | ECONNREFUSED \<Rightarrow> JCL_ERR_LAN_HOST_UNREACH
         | ETIMEDOUT \<Rightarrow> JCL_ERR_LAN_HOST_UNREACH
         | ENETUNREACH \<Rightarrow> JCL_ERR_LAN_HOST_UNREACH
         | EINTR \<Rightarrow> JCL_ERR_INTER
         | _ \<Rightarrow> JCL_ERR_SYS)
      else err)"

definition jcl_recv :: "int \<Rightarrow> errno \<Rightarrow> jcl_err \<Rightarrow> size_t \<times> jcl_err" where
  "jcl_recv status errno err =
     (if status = -1 then
        (0, (case errno of
           EAGAIN \<Rightarrow> JCL_ERR_AGAIN
         | EINTR \<Rightarrow> JCL_ERR_INTER
         | _ \<Rightarrow> JCL_ERR_SYS))
      else (word_of_int status, err))"

definition jcl_send :: "int \<Rightarrow> errno \<Rightarrow> jcl_err \<Rightarrow> size_t \<times> jcl_err" where
  "jcl_send status errno err =
     (if status = -1 then
        (0, (case errno of
           EAGAIN \<Rightarrow> JCL_ERR_AGAIN
         | ECONNRESET \<Rightarrow> JCL_ERR_CONNECTION_RESET
         | EINTR \<Rightarrow> JCL_ERR_INTER
         | EPIPE \<Rightarrow> JCL_ERR_PIPE
         | _ \<Rightarrow> JCL_ERR_SYS))
      else (word_of_int status, err))"

definition jcl_socket :: "int \<Rightarrow> errno \<Rightarrow> jcl_err \<Rightarrow> int \<times> jcl_err" where
  "jcl_socket new_fd errno err = (if new_fd = -1 then (-1, JCL_ERR_SYS) else (new_fd, err))"

definition jcl_close :: "int \<Rightarrow> errno \<Rightarrow> jcl_err \<Rightarrow> jcl_err" where
  "jcl_close ret errno err = (if ret = -1 then JCL_ERR_SYS else err)"

definition jcl_mutex_init :: "int \<Rightarrow> errno \<Rightarrow> jcl_err \<Rightarrow> jcl_err" where
  "jcl_mutex_init ret errno err = (if ret \<noteq> 0 then JCL_ERR_SYS else err)"

definition jcl_mutex_destroy :: "int \<Rightarrow> errno \<Rightarrow> jcl_err \<Rightarrow> jcl_err" where
  "jcl_mutex_destroy ret errno err =
     (if ret \<noteq> 0 then (case errno of EBUSY \<Rightarrow> JCL_ERR_MUTEX_BUSY | _ \<Rightarrow> JCL_ERR_SYS) else err)"

definition jcl_mutex_trylock :: "int \<Rightarrow> errno \<Rightarrow> jcl_err \<Rightarrow> jcl_err" where
  "jcl_mutex_trylock ret errno err =
     (if ret \<noteq> 0 then (case errno of EBUSY \<Rightarrow> JCL_ERR_MUTEX_BUSY | _ \<Rightarrow> JCL_ERR_SYS) else err)"

definition jcl_cond_destroy :: "int \<Rightarrow> errno \<Rightarrow> jcl_err \<Rightarrow> jcl_err" where
  "jcl_cond_destroy ret errno err =
     (if ret \<noteq> 0 then (case errno of EBUSY \<Rightarrow> JCL_ERR_COND_BUSY | _ \<Rightarrow> JCL_ERR_SYS) else err)"

definition jcl_cond_timedwait :: "int \<Rightarrow> errno \<Rightarrow> jcl_err \<Rightarrow> jcl_err" where
  "jcl_cond_timedwait ret errno err =
     (if ret \<noteq> 0 then (case errno of ETIMEDOUT \<Rightarrow> JCL_ERR_COND_TIMED_OUT | _ \<Rightarrow> JCL_ERR_SYS) else err)"

definition jcl_eventfd :: "int \<Rightarrow> errno \<Rightarrow> jcl_err \<Rightarrow> int \<times> jcl_err" where
  "jcl_eventfd event_fd errno err = (if event_fd = -1 then (-1, JCL_ERR_SYS) else (event_fd, err))"

definition jcl_read :: "int \<Rightarrow> errno \<Rightarrow> jcl_err \<Rightarrow> size_t \<times> jcl_err" where
  "jcl_read status errno err =
     (if status = -1 then
        (0, (case errno of
           EAGAIN \<Rightarrow> JCL_ERR_AGAIN
         | EINTR \<Rightarrow> JCL_ERR_INTER
         | _ \<Rightarrow> JCL_ERR_SYS))
      else (word_of_int status, err))"

definition jcl_write :: "int \<Rightarrow> errno \<Rightarrow> jcl_err \<Rightarrow> size_t \<times> jcl_err" where
  "jcl_write status errno err =
     (if status = -1 then
        (0, (case errno of
           EAGAIN \<Rightarrow> JCL_ERR_AGAIN
         | EINTR \<Rightarrow> JCL_ERR_INTER
         | EPIPE \<Rightarrow> JCL_ERR_PIPE
         | _ \<Rightarrow> JCL_ERR_SYS))
      else (word_of_int status, err))"

definition MAP_FAILED :: addr where
  "MAP_FAILED = -1"

definition jcl_mmap :: "addr \<Rightarrow> errno \<Rightarrow> jcl_err \<Rightarrow> addr \<times> jcl_err" where
  "jcl_mmap mem errno err = (if mem = MAP_FAILED then (NULL, JCL_ERR_SYS) else (mem, err))"

definition jcl_aligned_alloc :: "int \<Rightarrow> addr \<Rightarrow> jcl_err \<Rightarrow> addr \<times> jcl_err" where
  "jcl_aligned_alloc status mem err = (if status \<noteq> 0 then (NULL, JCL_ERR_SYS) else (mem, err))"

section \<open>The contract of a wrapper\<close>

text \<open>
  A wrapper leaves \<open>*err\<close> alone when the call succeeded (it never resets an older error) and
  overwrites it, with something other than \<open>JCL_OK\<close>, when the call failed.
\<close>

definition err_discipline ::
  "('r \<Rightarrow> errno \<Rightarrow> jcl_err \<Rightarrow> 'v \<times> jcl_err) \<Rightarrow> ('r \<Rightarrow> bool) \<Rightarrow> bool" where
  "err_discipline wrap failed \<longleftrightarrow>
     (\<forall>r e err. if failed r
        then snd (wrap r e err) \<noteq> JCL_OK \<and> wrap r e err = wrap r e JCL_OK
        else snd (wrap r e err) = err)"

locale syscall_wrapper =
  fixes wrap :: "'r \<Rightarrow> errno \<Rightarrow> jcl_err \<Rightarrow> 'v \<times> jcl_err"
    and failed :: "'r \<Rightarrow> bool"
    and conv :: "'r \<Rightarrow> 'v"
    and bad :: 'v
  assumes success: "\<not> failed r \<Longrightarrow> wrap r e err = (conv r, err)"
    and failure_value: "failed r \<Longrightarrow> fst (wrap r e err) = bad"
    and failure_code: "failed r \<Longrightarrow> snd (wrap r e err) \<noteq> JCL_OK"
    and failure_overwrites: "failed r \<Longrightarrow> snd (wrap r e err) = snd (wrap r e JCL_OK)"
begin

lemma discipline: "err_discipline wrap failed"
  unfolding err_discipline_def
  by (metis failure_code failure_overwrites failure_value prod_eqI snd_conv success)

lemma ok_iff: "snd (wrap r e err) = JCL_OK \<longleftrightarrow> \<not> failed r \<and> err = JCL_OK"
  by (metis failure_code snd_conv success)

lemma sticky: "\<not> failed r \<Longrightarrow> snd (wrap r e err) = err"
  by (simp add: success)

end

locale retryable_wrapper = syscall_wrapper +
  assumes interrupted: "failed r \<Longrightarrow> snd (wrap r e err) = JCL_ERR_INTER \<longleftrightarrow> e = EINTR"
begin

lemma inter_iff:
  "snd (wrap r e err) = JCL_ERR_INTER \<longleftrightarrow> (if failed r then e = EINTR else err = JCL_ERR_INTER)"
  by (simp add: interrupted sticky)

end

interpretation wr_malloc: syscall_wrapper "\<lambda>r e. jcl_malloc r" "\<lambda>r. r = NULL" "\<lambda>r. r" NULL
  by unfold_locales (auto simp: jcl_malloc_def)

interpretation wr_realloc: syscall_wrapper "\<lambda>r e. jcl_realloc r" "\<lambda>r. r = NULL" "\<lambda>r. r" NULL
  by unfold_locales (auto simp: jcl_realloc_def)

interpretation wr_lstat: syscall_wrapper "\<lambda>r e err. ((), jcl_lstat r e err)" "\<lambda>r. r \<noteq> 0" "\<lambda>r. ()" "()"
  by unfold_locales (auto simp: jcl_lstat_def split: errno.splits)

interpretation wr_opendir: syscall_wrapper jcl_opendir "\<lambda>r. r = NULL" "\<lambda>r. r" NULL
  by unfold_locales (auto simp: jcl_opendir_def split: errno.splits)

interpretation wr_shutdown: syscall_wrapper "\<lambda>r e err. ((), jcl_shutdown r e err)" "\<lambda>r. r \<noteq> 0" "\<lambda>r. ()" "()"
  by unfold_locales (auto simp: jcl_shutdown_def)

interpretation wr_getaddrinfo: syscall_wrapper "\<lambda>r e. jcl_getaddrinfo (fst r) (snd r)"
    "\<lambda>r. fst r \<noteq> GAI_OK" "\<lambda>r. Some (snd r)" None
  by unfold_locales (auto simp: jcl_getaddrinfo_def split: gai_status.splits)

interpretation wr_bind: syscall_wrapper "\<lambda>r e err. ((), jcl_bind r e err)" "\<lambda>r. r \<noteq> 0" "\<lambda>r. ()" "()"
  by unfold_locales (auto simp: jcl_bind_def)

interpretation wr_listen: syscall_wrapper "\<lambda>r e err. ((), jcl_listen r e err)" "\<lambda>r. r \<noteq> 0" "\<lambda>r. ()" "()"
  by unfold_locales (auto simp: jcl_listen_def)

interpretation wr_accept: retryable_wrapper jcl_accept "\<lambda>r. r = -1" "\<lambda>r. r" "-1"
  by unfold_locales (auto simp: jcl_accept_def split: errno.splits)

interpretation wr_connect: retryable_wrapper "\<lambda>r e err. ((), jcl_connect r e err)" "\<lambda>r. r \<noteq> 0" "\<lambda>r. ()" "()"
  by unfold_locales (auto simp: jcl_connect_def split: errno.splits)

interpretation wr_recv: retryable_wrapper jcl_recv "\<lambda>r. r = -1" word_of_int 0
  by unfold_locales (auto simp: jcl_recv_def split: errno.splits)

interpretation wr_send: retryable_wrapper jcl_send "\<lambda>r. r = -1" word_of_int 0
  by unfold_locales (auto simp: jcl_send_def split: errno.splits)

interpretation wr_socket: syscall_wrapper jcl_socket "\<lambda>r. r = -1" "\<lambda>r. r" "-1"
  by unfold_locales (auto simp: jcl_socket_def)

interpretation wr_close: syscall_wrapper "\<lambda>r e err. ((), jcl_close r e err)" "\<lambda>r. r = -1" "\<lambda>r. ()" "()"
  by unfold_locales (auto simp: jcl_close_def)

interpretation wr_mutex_init: syscall_wrapper "\<lambda>r e err. ((), jcl_mutex_init r e err)" "\<lambda>r. r \<noteq> 0" "\<lambda>r. ()" "()"
  by unfold_locales (auto simp: jcl_mutex_init_def)

interpretation wr_mutex_destroy: syscall_wrapper "\<lambda>r e err. ((), jcl_mutex_destroy r e err)" "\<lambda>r. r \<noteq> 0" "\<lambda>r. ()" "()"
  by unfold_locales (auto simp: jcl_mutex_destroy_def split: errno.splits)

interpretation wr_mutex_trylock: syscall_wrapper "\<lambda>r e err. ((), jcl_mutex_trylock r e err)" "\<lambda>r. r \<noteq> 0" "\<lambda>r. ()" "()"
  by unfold_locales (auto simp: jcl_mutex_trylock_def split: errno.splits)

interpretation wr_cond_destroy: syscall_wrapper "\<lambda>r e err. ((), jcl_cond_destroy r e err)" "\<lambda>r. r \<noteq> 0" "\<lambda>r. ()" "()"
  by unfold_locales (auto simp: jcl_cond_destroy_def split: errno.splits)

interpretation wr_cond_timedwait: syscall_wrapper "\<lambda>r e err. ((), jcl_cond_timedwait r e err)" "\<lambda>r. r \<noteq> 0" "\<lambda>r. ()" "()"
  by unfold_locales (auto simp: jcl_cond_timedwait_def split: errno.splits)

interpretation wr_eventfd: syscall_wrapper jcl_eventfd "\<lambda>r. r = -1" "\<lambda>r. r" "-1"
  by unfold_locales (auto simp: jcl_eventfd_def)

interpretation wr_read: retryable_wrapper jcl_read "\<lambda>r. r = -1" word_of_int 0
  by unfold_locales (auto simp: jcl_read_def split: errno.splits)

interpretation wr_write: retryable_wrapper jcl_write "\<lambda>r. r = -1" word_of_int 0
  by unfold_locales (auto simp: jcl_write_def split: errno.splits)

interpretation wr_mmap: syscall_wrapper jcl_mmap "\<lambda>r. r = MAP_FAILED" "\<lambda>r. r" NULL
  by unfold_locales (auto simp: jcl_mmap_def)

interpretation wr_aligned_alloc: syscall_wrapper "\<lambda>r e. jcl_aligned_alloc (fst r) (snd r)"
    "\<lambda>r. fst r \<noteq> 0" snd NULL
  by unfold_locales (auto simp: jcl_aligned_alloc_def)

section \<open>Properties\<close>

lemmas wrapper_disciplines =
  wr_malloc.discipline wr_realloc.discipline wr_lstat.discipline wr_opendir.discipline wr_shutdown.discipline
  wr_getaddrinfo.discipline wr_bind.discipline wr_listen.discipline wr_accept.discipline wr_connect.discipline
  wr_recv.discipline wr_send.discipline wr_socket.discipline wr_close.discipline wr_mutex_init.discipline
  wr_mutex_destroy.discipline wr_mutex_trylock.discipline wr_cond_destroy.discipline wr_cond_timedwait.discipline
  wr_eventfd.discipline wr_read.discipline wr_write.discipline wr_mmap.discipline wr_aligned_alloc.discipline

text \<open>
  C32. Every wrapper around a system call follows the same discipline: when the call failed it stores an
  error other than \<open>JCL_OK\<close> that does not depend on the old value of \<open>*err\<close>, and when the call succeeded
  it leaves \<open>*err\<close> alone; in particular no wrapper clears an old error.
\<close>

theorem wrappers_err_discipline:
  "err_discipline (\<lambda>r e. jcl_malloc r) (\<lambda>r. r = NULL)
   \<and> err_discipline (\<lambda>r e. jcl_realloc r) (\<lambda>r. r = NULL)
   \<and> err_discipline (\<lambda>r e err. ((), jcl_lstat r e err)) (\<lambda>r. r \<noteq> 0)
   \<and> err_discipline jcl_opendir (\<lambda>r. r = NULL)
   \<and> err_discipline (\<lambda>r e err. ((), jcl_shutdown r e err)) (\<lambda>r. r \<noteq> 0)
   \<and> err_discipline (\<lambda>r e. jcl_getaddrinfo (fst r) (snd r)) (\<lambda>r. fst r \<noteq> GAI_OK)
   \<and> err_discipline (\<lambda>r e err. ((), jcl_bind r e err)) (\<lambda>r. r \<noteq> 0)
   \<and> err_discipline (\<lambda>r e err. ((), jcl_listen r e err)) (\<lambda>r. r \<noteq> 0)
   \<and> err_discipline jcl_accept (\<lambda>r. r = -1)
   \<and> err_discipline (\<lambda>r e err. ((), jcl_connect r e err)) (\<lambda>r. r \<noteq> 0)
   \<and> err_discipline jcl_recv (\<lambda>r. r = -1)
   \<and> err_discipline jcl_send (\<lambda>r. r = -1)
   \<and> err_discipline jcl_socket (\<lambda>r. r = -1)
   \<and> err_discipline (\<lambda>r e err. ((), jcl_close r e err)) (\<lambda>r. r = -1)
   \<and> err_discipline (\<lambda>r e err. ((), jcl_mutex_init r e err)) (\<lambda>r. r \<noteq> 0)
   \<and> err_discipline (\<lambda>r e err. ((), jcl_mutex_destroy r e err)) (\<lambda>r. r \<noteq> 0)
   \<and> err_discipline (\<lambda>r e err. ((), jcl_mutex_trylock r e err)) (\<lambda>r. r \<noteq> 0)
   \<and> err_discipline (\<lambda>r e err. ((), jcl_cond_destroy r e err)) (\<lambda>r. r \<noteq> 0)
   \<and> err_discipline (\<lambda>r e err. ((), jcl_cond_timedwait r e err)) (\<lambda>r. r \<noteq> 0)
   \<and> err_discipline jcl_eventfd (\<lambda>r. r = -1)
   \<and> err_discipline jcl_read (\<lambda>r. r = -1)
   \<and> err_discipline jcl_write (\<lambda>r. r = -1)
   \<and> err_discipline jcl_mmap (\<lambda>r. r = MAP_FAILED)
   \<and> err_discipline (\<lambda>r e. jcl_aligned_alloc (fst r) (snd r)) (\<lambda>r. fst r \<noteq> 0)"
  by (intro conjI wrapper_disciplines)

text \<open>
  The pthread functions return the error number and do not set \<open>errno\<close>; the wrappers look at \<open>errno\<close>.
  A mutex that is busy (status \<open>EBUSY\<close>) is therefore reported as \<open>JCL_ERR_SYS\<close> whenever \<open>errno\<close> holds
  anything else.
\<close>

lemma mutex_trylock_busy_misreported:
  "ret \<noteq> 0 \<Longrightarrow> e \<noteq> EBUSY \<Longrightarrow> jcl_mutex_trylock ret e err = JCL_ERR_SYS"
  by (cases e) (simp_all add: jcl_mutex_trylock_def)

end
