(* ===== verification/Mem_Layout.thy ===== *)
theory Mem_Layout
  imports Jcl_Error
begin

unbundle bit_operations_syntax

text \<open>
  \<open>src/memory_layout_generator.c\<close>: descriptions of arrays of objects, the alignment of sizes,
  the appending of one description to another, and \<open>jfs_mlg_memory_init\<close>, which lays out a
  header and any number of components in one aligned allocation.
  \<open>malloc\<close> and \<open>posix_memalign\<close> are parameters; the set \<open>live\<close> holds the allocations that
  have not been freed.  \<open>layout_end\<close> and \<open>layout_extents\<close> say over the natural numbers what the
  layout should be, and the lemmas show that the wrapping arithmetic of the code computes it as
  long as the block is not larger than \<open>2 ^ 63\<close> bytes.
\<close>

section \<open>Data\<close>

record jfs_mlg_desc =
  dsize :: size_t
  align :: size_t
  dcount :: size_t

record jfs_mlg_layout =
  descriptions :: "jfs_mlg_desc list"
  descriptions_count :: size_t
  header_desc :: jfs_mlg_desc

record jfs_mlg_component =
  ptr :: addr
  desc :: jfs_mlg_desc

record jfs_mlg_memory =
  component_list :: addr
  component_count :: size_t
  header :: addr

section \<open>Operations\<close>

definition jfs_mlg_valid_align :: "size_t \<Rightarrow> bool" where
  "jfs_mlg_valid_align a \<longleftrightarrow> a \<noteq> 0 \<and> ((a - 1) AND a) = 0"

definition jfs_mlg_valid_desc :: "jfs_mlg_desc \<Rightarrow> bool" where
  "jfs_mlg_valid_desc d \<longleftrightarrow> jfs_mlg_valid_align (align d) \<and> dsize d > 0 \<and> dcount d > 0"

definition jfs_mlg_valid_component :: "jfs_mlg_component \<Rightarrow> bool" where
  "jfs_mlg_valid_component c \<longleftrightarrow> jfs_mlg_valid_desc (desc c) \<and> ptr c \<noteq> NULL"

definition jfs_mlg_apply_offset :: "addr \<Rightarrow> addr \<Rightarrow> addr run" where
  "jfs_mlg_apply_offset p offset = assert_c (offset > 0) (Ret (p + offset))"

definition jfs_mlg_align_size :: "size_t \<Rightarrow> size_t \<Rightarrow> size_t run" where
  "jfs_mlg_align_size s a =
     assert_c (jfs_mlg_valid_align a)
     (assert_c (s > 0)
     (Ret ((s + a - 1) AND NOT (a - 1))))"

definition jfs_mlg_append :: "jfs_mlg_desc \<Rightarrow> jfs_mlg_desc \<Rightarrow> (jfs_mlg_desc \<times> addr) run" where
  "jfs_mlg_append base to_append =
     assert_c (jfs_mlg_valid_desc base)
     (assert_c (jfs_mlg_valid_desc to_append)
     (run_bind (jfs_mlg_align_size (dsize base) (align to_append)) (\<lambda>aligned_base_size.
        let base = base\<lparr>dsize := aligned_base_size + (dsize to_append * dcount to_append)\<rparr>;
            base = (if align to_append > align base then base\<lparr>align := align to_append\<rparr> else base)
        in Ret (base, aligned_base_size))))"

definition SIZEOF_MEMORY :: size_t where "SIZEOF_MEMORY = 24"
definition ALIGNOF_MEMORY :: size_t where "ALIGNOF_MEMORY = 8"
definition SIZEOF_COMPONENT :: size_t where "SIZEOF_COMPONENT = 32"
definition ALIGNOF_COMPONENT :: size_t where "ALIGNOF_COMPONENT = 8"
definition SIZEOF_UINTPTR :: size_t where "SIZEOF_UINTPTR = 8"

text \<open>
  The first loop of \<open>jfs_mlg_memory_init\<close>, over the descriptions that are left and the number of
  iterations that are left: \<open>None\<close> is the jump to \<open>cleanup\<close> on an invalid description.  Reading
  past the end of the descriptions array is undefined.
\<close>

fun mlg_append_all ::
  "jfs_mlg_desc list \<Rightarrow> nat \<Rightarrow> jfs_mlg_desc \<Rightarrow> addr list \<Rightarrow> (jfs_mlg_desc \<times> addr list) option run" where
  "mlg_append_all ds 0 memory_desc offsets = Ret (Some (memory_desc, offsets))"
| "mlg_append_all [] (Suc n) memory_desc offsets = Fault"
| "mlg_append_all (d # ds) (Suc n) memory_desc offsets =
     (if \<not> jfs_mlg_valid_desc d then Ret None
      else run_bind (jfs_mlg_append memory_desc d) (\<lambda>(memory_desc, off).
        mlg_append_all ds n memory_desc (offsets @ [off])))"

text \<open>The second loop: fill in the component list.\<close>

fun mlg_fill_components ::
  "addr \<Rightarrow> jfs_mlg_desc list \<Rightarrow> addr list \<Rightarrow> nat \<Rightarrow> jfs_mlg_component list run" where
  "mlg_fill_components memory ds offsets 0 = Ret []"
| "mlg_fill_components memory (d # ds) (off # offsets) (Suc n) =
     run_bind (jfs_mlg_apply_offset memory off) (\<lambda>p.
     run_bind (mlg_fill_components memory ds offsets n) (\<lambda>cs.
     Ret (\<lparr>ptr = p, desc = d\<rparr> # cs)))"
| "mlg_fill_components memory _ _ (Suc n) = Fault"

text \<open>
  The result of \<open>jfs_mlg_memory_init\<close>: the returned pointer with, when it is not \<open>NULL\<close>, what was
  stored behind it (the \<open>jfs_mlg_memory_t\<close> and the array of components), the allocations that are
  live on return, and \<open>*err\<close>.
\<close>

type_synonym mlg_result =
  "(addr \<times> (jfs_mlg_memory \<times> jfs_mlg_component list) option) \<times> addr set \<times> jcl_err"

definition jfs_mlg_memory_init ::
  "(size_t \<Rightarrow> addr) \<Rightarrow> (size_t \<Rightarrow> size_t \<Rightarrow> int \<times> addr) \<Rightarrow> jfs_mlg_layout \<Rightarrow> addr set \<Rightarrow> jcl_err \<Rightarrow>
   mlg_result run" where
  "jfs_mlg_memory_init malloc posix_memalign layout live err =
     (if \<not> jfs_mlg_valid_desc (header_desc layout) then Ret ((NULL, None), live, JCL_ERR_BAD_CONF)
      else
        let memory_desc = \<lparr>dsize = SIZEOF_MEMORY, align = ALIGNOF_MEMORY, dcount = 1\<rparr>;
            component_list_desc = \<lparr>dsize = SIZEOF_COMPONENT, align = ALIGNOF_COMPONENT,
                                   dcount = descriptions_count layout\<rparr>
        in
        run_bind (jfs_mlg_append memory_desc component_list_desc) (\<lambda>(memory_desc, component_list_offset).
        run_bind (jfs_mlg_append memory_desc (header_desc layout)) (\<lambda>(memory_desc, header_offset).
        case jcl_malloc (malloc (SIZEOF_UINTPTR * descriptions_count layout)) err of
          (component_offsets, err) \<Rightarrow>
          let live = (if component_offsets = NULL then live else insert component_offsets live) in
          if err \<noteq> JCL_OK then Ret ((NULL, None), live, err)
          else
            run_bind (mlg_append_all (descriptions layout) (unat (descriptions_count layout)) memory_desc [])
              (\<lambda>r. case r of
                None \<Rightarrow> Ret ((NULL, None), live - {component_offsets}, JCL_ERR_BAD_CONF)
              | Some (memory_desc, offsets) \<Rightarrow>
                  (case posix_memalign (align memory_desc) (dsize memory_desc) of (status, mem) \<Rightarrow>
                   case jcl_aligned_alloc status mem err of (memory, err) \<Rightarrow>
                   if err \<noteq> JCL_OK then Ret ((NULL, None), live - {component_offsets}, err)
                   else
                     run_bind (jfs_mlg_apply_offset memory component_list_offset) (\<lambda>cl.
                     run_bind (jfs_mlg_apply_offset memory header_offset) (\<lambda>hd.
                     run_bind (mlg_fill_components memory (descriptions layout) offsets
                                 (unat (descriptions_count layout))) (\<lambda>cs.
                     Ret ((memory, Some (\<lparr>component_list = cl,
                             component_count = descriptions_count layout, header = hd\<rparr>, cs)),
                          insert memory live - {component_offsets}, err)))))))))"

definition jfs_mlg_memory_free :: "addr \<Rightarrow> addr set \<Rightarrow> addr set" where
  "jfs_mlg_memory_free memory_move live = live - {memory_move}"

section \<open>Alignment\<close>

lemma valid_align_iff: "jfs_mlg_valid_align a \<longleftrightarrow> (\<exists>k < 64. a = 2 ^ k)"
proof (cases "a = 0")
  case True
  have "(2 ^ k :: size_t) \<noteq> 0" if "k < 64" for k
    using unat_pow2_64[OF that] by (metis power_not_zero unat_0 zero_neq_numeral)
  with True show ?thesis by (auto simp: jfs_mlg_valid_align_def)
next
  case False
  thus ?thesis by (simp add: jfs_mlg_valid_align_def valid_align_word)
qed

lemma valid_align_pos: "jfs_mlg_valid_align a \<Longrightarrow> 0 < unat a"
  by (auto simp: jfs_mlg_valid_align_def unat_gt_0)

lemma mask_align_valid:
  assumes "jfs_mlg_valid_align a"
  shows "unat ((s + a - 1) AND NOT (a - 1)) =
    (if unat s + unat a - 1 < 2 ^ 64 then align_up (unat a) (unat s) else 0)"
proof -
  from assms obtain k where "k < 64" "a = 2 ^ k" by (auto simp: valid_align_iff)
  thus ?thesis using unat_mask_align[of k s] unat_pow2_64[of k] by simp
qed

lemma align_size_Ret:
  assumes "jfs_mlg_valid_align a" "s > 0" "unat s + unat a - 1 < 2 ^ 64"
  shows "\<exists>r. jfs_mlg_align_size s a = Ret r \<and> unat r = align_up (unat a) (unat s)"
  using assms mask_align_valid[OF assms(1), of s] by (simp add: jfs_mlg_align_size_def)

text \<open>Two valid alignments divide one another, the smaller the larger.\<close>

lemma valid_align_dvd:
  assumes "jfs_mlg_valid_align a" "jfs_mlg_valid_align b" "a \<le> b"
  shows "unat a dvd unat b"
proof -
  from assms obtain j k where jk: "j < 64" "a = 2 ^ j" "k < 64" "b = 2 ^ k" by (auto simp: valid_align_iff)
  hence "(2::nat) ^ j \<le> 2 ^ k" using assms(3) by (simp add: word_le_nat_alt unat_pow2_64)
  hence "j \<le> k" by simp
  thus ?thesis using jk by (simp add: unat_pow2_64 le_imp_power_dvd)
qed

section \<open>The layout over the natural numbers\<close>

definition extent :: "jfs_mlg_desc \<Rightarrow> nat" where
  "extent d = unat (dsize d) * unat (dcount d)"

definition append_off :: "nat \<Rightarrow> jfs_mlg_desc \<Rightarrow> nat" where
  "append_off e d = align_up (unat (align d)) e"

definition append_end :: "nat \<Rightarrow> jfs_mlg_desc \<Rightarrow> nat" where
  "append_end e d = append_off e d + extent d"

fun layout_offs :: "nat \<Rightarrow> jfs_mlg_desc list \<Rightarrow> nat list" where
  "layout_offs e [] = []"
| "layout_offs e (d # ds) = append_off e d # layout_offs (append_end e d) ds"

fun layout_end :: "nat \<Rightarrow> jfs_mlg_desc list \<Rightarrow> nat" where
  "layout_end e [] = e"
| "layout_end e (d # ds) = layout_end (append_end e d) ds"

lemma length_layout_offs [simp]: "length (layout_offs e ds) = length ds"
  by (induction ds arbitrary: e) auto

lemma valid_desc_align: "jfs_mlg_valid_desc d \<Longrightarrow> jfs_mlg_valid_align (align d)"
  by (simp add: jfs_mlg_valid_desc_def)

lemma valid_desc_size: "jfs_mlg_valid_desc d \<Longrightarrow> 0 < unat (dsize d)"
  by (auto simp: jfs_mlg_valid_desc_def word_less_nat_alt)

lemma append_off_ge: "jfs_mlg_valid_desc d \<Longrightarrow> e \<le> append_off e d"
  unfolding append_off_def by (intro align_up_ge valid_align_pos valid_desc_align)

lemma append_off_le_end: "append_off e d \<le> append_end e d"
  by (simp add: append_end_def)

lemma layout_end_ge: "\<forall>d\<in>set ds. jfs_mlg_valid_desc d \<Longrightarrow> e \<le> layout_end e ds"
proof (induction ds arbitrary: e)
  case (Cons d ds)
  hence "e \<le> append_end e d" using append_off_ge[of d e] append_off_le_end[of e d] by simp
  also have "\<dots> \<le> layout_end (append_end e d) ds" using Cons by simp
  finally show ?case by simp
qed simp

text \<open>Consecutive extents: each ends before the next one starts, and all lie between \<open>e\<close> and the end.\<close>

definition consecutive :: "(nat \<times> nat) list \<Rightarrow> bool" where
  "consecutive xs \<longleftrightarrow> sorted_wrt (\<lambda>(a, l) (b, m). a + l \<le> b) xs"

lemma layout_offs_bounds:
  assumes "\<forall>d\<in>set ds. jfs_mlg_valid_desc d" "(a, l) \<in> set (zip (layout_offs e ds) (map extent ds))"
  shows "e \<le> a" and "a + l \<le> layout_end e ds"
proof -
  have "e \<le> a \<and> a + l \<le> layout_end e ds" using assms
  proof (induction ds arbitrary: e)
    case (Cons d ds)
    have d: "e \<le> append_off e d" using Cons.prems by (intro append_off_ge) simp
    from Cons.prems consider "a = append_off e d" "l = extent d"
      | "(a, l) \<in> set (zip (layout_offs (append_end e d) ds) (map extent ds))" by auto
    thus ?case
    proof cases
      case 1
      thus ?thesis using d Cons.prems layout_end_ge[of ds "append_end e d"] by (simp add: append_end_def)
    next
      case 2
      have "append_end e d \<le> a \<and> a + l \<le> layout_end (append_end e d) ds"
        using Cons.IH[OF _ 2] Cons.prems(1) by simp
      thus ?thesis using d append_off_le_end[of e d] by simp
    qed
  qed simp
  thus "e \<le> a" and "a + l \<le> layout_end e ds" by auto
qed

lemma layout_offs_ge:
  "\<forall>d\<in>set ds. jfs_mlg_valid_desc d \<Longrightarrow> x \<in> set (layout_offs e ds) \<Longrightarrow> e \<le> x"
proof (induction ds arbitrary: e)
  case (Cons d ds)
  thus ?case using append_off_ge[of d e] append_off_le_end[of e d] Cons.IH[of "append_end e d"] by fastforce
qed simp

lemma layout_consecutive:
  assumes "\<forall>d\<in>set ds. jfs_mlg_valid_desc d"
  shows "consecutive (zip (layout_offs e ds) (map extent ds))"
  using assms
proof (induction ds arbitrary: e)
  case (Cons d ds)
  have "append_off e d + extent d \<le> a"
    if "(a, l) \<in> set (zip (layout_offs (append_end e d) ds) (map extent ds))" for a l
    using layout_offs_bounds(1)[OF _ that] Cons.prems by (simp add: append_end_def)
  with Cons show ?case by (auto simp: consecutive_def)
qed (simp add: consecutive_def)

section \<open>The code computes the layout\<close>

lemma append_Ret:
  assumes b: "jfs_mlg_valid_desc base" and d: "jfs_mlg_valid_desc d"
    and fits: "append_end (unat (dsize base)) d \<le> 2 ^ 63"
  shows "\<exists>base' off. jfs_mlg_append base d = Ret (base', off) \<and> unat off = append_off (unat (dsize base)) d
    \<and> unat (dsize base') = append_end (unat (dsize base)) d \<and> align base' = max (align base) (align d)
    \<and> dcount base' = dcount base \<and> jfs_mlg_valid_desc base'"
proof -
  let ?e = "unat (dsize base)" and ?a = "unat (align d)"
  have va: "jfs_mlg_valid_align (align d)" using d by (rule valid_desc_align)
  have e0: "0 < ?e" using b by (rule valid_desc_size)
  have off_le: "append_off ?e d \<le> 2 ^ 63" using fits append_off_le_end le_trans by blast
  have "?a \<le> append_off ?e d" unfolding append_off_def
    using align_up_pos[OF valid_align_pos[OF va] e0] by (intro dvd_imp_le) auto
  moreover have "?e \<le> append_off ?e d" using d by (rule append_off_ge)
  ultimately have "?e + ?a - 1 < 2 ^ 64" using off_le valid_align_pos[OF va] by simp
  then obtain r where r: "jfs_mlg_align_size (dsize base) (align d) = Ret r" "unat r = append_off ?e d"
    using align_size_Ret[OF va] e0 by (auto simp: append_off_def word_less_nat_alt)
  have ext: "unat (dsize d * dcount d) = extent d" unfolding extent_def
    using fits unat_mult_lem[of "dsize d" "dcount d"] by (simp add: append_end_def extent_def)
  have sz: "unat (r + dsize d * dcount d) = append_end ?e d"
    using fits r(2) ext unat_add_lem[of r "dsize d * dcount d"] by (simp add: append_end_def)
  have "0 < append_end ?e d" using e0 append_off_ge[OF d, of ?e] append_off_le_end[of ?e d] by linarith
  hence "0 < r + dsize d * dcount d" using sz by (simp add: word_less_nat_alt)
  thus ?thesis using b d r sz
    by (auto simp: jfs_mlg_append_def jfs_mlg_valid_desc_def max_def Let_def)
qed

lemma foldl_max_ge: "a \<le> foldl max a xs" "x \<in> set xs \<Longrightarrow> x \<le> foldl max (a :: 'a :: linorder) xs"
proof -
  have ge: "a \<le> foldl max a xs" for a :: 'a and xs by (induction xs arbitrary: a) (simp_all, meson max.bounded_iff)
  thus "a \<le> foldl max a xs" .
  show "x \<in> set xs \<Longrightarrow> x \<le> foldl max a xs"
  proof (induction xs arbitrary: a)
    case (Cons y xs)
    thus ?case using ge[of "max a y" xs] by auto
  qed simp
qed

lemma append_all_Ret:
  assumes "jfs_mlg_valid_desc base" "\<forall>d\<in>set ds. jfs_mlg_valid_desc d"
    and "layout_end (unat (dsize base)) ds \<le> 2 ^ 63"
  shows "\<exists>base' offs'. mlg_append_all ds (length ds) base offs = Ret (Some (base', offs @ offs'))
    \<and> map unat offs' = layout_offs (unat (dsize base)) ds
    \<and> unat (dsize base') = layout_end (unat (dsize base)) ds \<and> jfs_mlg_valid_desc base'
    \<and> align base' = foldl max (align base) (map align ds)"
  using assms
proof (induction ds arbitrary: base offs)
  case (Cons d ds)
  let ?e = "unat (dsize base)"
  have "append_end ?e d \<le> layout_end (append_end ?e d) ds" using Cons.prems by (intro layout_end_ge) simp
  hence "append_end ?e d \<le> 2 ^ 63" using Cons.prems(3) by simp
  then obtain base1 off where 1: "jfs_mlg_append base d = Ret (base1, off)" "unat off = append_off ?e d"
    "unat (dsize base1) = append_end ?e d" "align base1 = max (align base) (align d)" "jfs_mlg_valid_desc base1"
    using append_Ret[OF Cons.prems(1), of d] Cons.prems(2) by auto
  obtain base' offs' where 2: "mlg_append_all ds (length ds) base1 (offs @ [off]) = Ret (Some (base', (offs @ [off]) @ offs'))"
    "map unat offs' = layout_offs (append_end ?e d) ds" "unat (dsize base') = layout_end (append_end ?e d) ds"
    "jfs_mlg_valid_desc base'" "align base' = foldl max (align base1) (map align ds)"
    using Cons.IH[OF 1(5), of "offs @ [off]"] Cons.prems(2,3) 1(3) by auto
  show ?case using 1 2 Cons.prems(2) by (intro exI[of _ base'] exI[of _ "off # offs'"]) auto
qed auto

lemma fill_components_Ret:
  "length offs = length ds \<Longrightarrow> \<forall>off\<in>set offs. off > 0 \<Longrightarrow>
   mlg_fill_components p ds offs (length ds) = Ret (map2 (\<lambda>d off. \<lparr>ptr = p + off, desc = d\<rparr>) ds offs)"
  by (induction offs ds rule: list_induct2) (auto simp: jfs_mlg_apply_offset_def)

section \<open>Initialising a block\<close>

definition layout_descs :: "jfs_mlg_layout \<Rightarrow> jfs_mlg_desc list" where
  "layout_descs lay =
     \<lparr>dsize = SIZEOF_COMPONENT, align = ALIGNOF_COMPONENT, dcount = descriptions_count lay\<rparr>
     # header_desc lay # descriptions lay"

definition layout_ok :: "jfs_mlg_layout \<Rightarrow> bool" where
  "layout_ok lay \<longleftrightarrow> descriptions lay \<noteq> [] \<and> unat (descriptions_count lay) = length (descriptions lay)
     \<and> jfs_mlg_valid_desc (header_desc lay) \<and> (\<forall>d\<in>set (descriptions lay). jfs_mlg_valid_desc d)
     \<and> layout_end (unat SIZEOF_MEMORY) (layout_descs lay) \<le> 2 ^ 63"

text \<open>The alignment and the size that are asked of \<open>posix_memalign\<close>.\<close>

definition layout_align :: "jfs_mlg_layout \<Rightarrow> size_t" where
  "layout_align lay = foldl max ALIGNOF_MEMORY (map align (layout_descs lay))"

definition layout_size :: "jfs_mlg_layout \<Rightarrow> size_t" where
  "layout_size lay = of_nat (layout_end (unat SIZEOF_MEMORY) (layout_descs lay))"

text \<open>The documented behaviour of \<open>posix_memalign\<close>: on success an aligned block inside the address space.\<close>

definition memalign_contract :: "(size_t \<Rightarrow> size_t \<Rightarrow> int \<times> addr) \<Rightarrow> bool" where
  "memalign_contract posix_memalign \<longleftrightarrow>
     (\<forall>a s p. posix_memalign a s = (0, p) \<longrightarrow> p \<noteq> NULL \<and> unat a dvd unat p \<and> unat p + unat s \<le> 2 ^ 64)"

text \<open>Where the memory record, the component list, the header and the components really lie.\<close>

definition placed_extents ::
  "jfs_mlg_layout \<Rightarrow> addr \<Rightarrow> jfs_mlg_memory \<Rightarrow> jfs_mlg_component list \<Rightarrow> (nat \<times> nat) list" where
  "placed_extents lay p mem cs =
     (unat p, unat SIZEOF_MEMORY)
     # (unat (component_list mem), unat SIZEOF_COMPONENT * unat (component_count mem))
     # (unat (header mem), extent (header_desc lay))
     # map (\<lambda>c. (unat (ptr c), extent (desc c))) cs"

lemma word_consts [simp]:
  "unat SIZEOF_MEMORY = 24" "unat SIZEOF_COMPONENT = 32" "jfs_mlg_valid_align ALIGNOF_MEMORY"
  "jfs_mlg_valid_align ALIGNOF_COMPONENT" "SIZEOF_MEMORY > 0" "SIZEOF_COMPONENT > 0"
  by (simp_all add: SIZEOF_MEMORY_def SIZEOF_COMPONENT_def ALIGNOF_MEMORY_def ALIGNOF_COMPONENT_def
      jfs_mlg_valid_align_def)

text \<open>The first two descriptions: the component list and the header.\<close>

lemma heads_append:
  assumes n: "0 < unat n" and hv: "jfs_mlg_valid_desc hdr" and dv: "\<forall>d\<in>set ds. jfs_mlg_valid_desc d"
    and fit: "layout_end 24 (\<lparr>dsize = SIZEOF_COMPONENT, align = ALIGNOF_COMPONENT, dcount = n\<rparr> # hdr # ds) \<le> 2 ^ 63"
  shows "\<exists>m1 cl m2 ho. jfs_mlg_append \<lparr>dsize = SIZEOF_MEMORY, align = ALIGNOF_MEMORY, dcount = 1\<rparr>
        \<lparr>dsize = SIZEOF_COMPONENT, align = ALIGNOF_COMPONENT, dcount = n\<rparr> = Ret (m1, cl)
    \<and> jfs_mlg_append m1 hdr = Ret (m2, ho)
    \<and> map unat [cl, ho] = layout_offs 24 [\<lparr>dsize = SIZEOF_COMPONENT, align = ALIGNOF_COMPONENT, dcount = n\<rparr>, hdr]
    \<and> unat (dsize m2) = layout_end 24 [\<lparr>dsize = SIZEOF_COMPONENT, align = ALIGNOF_COMPONENT, dcount = n\<rparr>, hdr]
    \<and> align m2 = max (max ALIGNOF_MEMORY ALIGNOF_COMPONENT) (align hdr) \<and> jfs_mlg_valid_desc m2"
proof -
  let ?m0 = "\<lparr>dsize = SIZEOF_MEMORY, align = ALIGNOF_MEMORY, dcount = 1\<rparr> :: jfs_mlg_desc"
  let ?cd = "\<lparr>dsize = SIZEOF_COMPONENT, align = ALIGNOF_COMPONENT, dcount = n\<rparr> :: jfs_mlg_desc"
  have cv: "jfs_mlg_valid_desc ?cd" using n by (simp add: jfs_mlg_valid_desc_def word_less_nat_alt)
  have mv: "jfs_mlg_valid_desc ?m0" by (simp add: jfs_mlg_valid_desc_def)
  let ?e1 = "append_end 24 ?cd"
  let ?e2 = "append_end ?e1 hdr"
  have le2: "?e2 \<le> 2 ^ 63" using layout_end_ge[OF dv, of ?e2] fit by simp
  have le1: "?e1 \<le> 2 ^ 63" using le2 append_off_ge[OF hv, of ?e1] append_off_le_end[of ?e1 hdr] by linarith
  obtain m1 cl where 1: "jfs_mlg_append ?m0 ?cd = Ret (m1, cl)" "unat cl = append_off 24 ?cd"
    "unat (dsize m1) = ?e1" "align m1 = max ALIGNOF_MEMORY (align ?cd)" "jfs_mlg_valid_desc m1"
    using append_Ret[OF mv cv] le1 by auto
  obtain m2 ho where 2: "jfs_mlg_append m1 hdr = Ret (m2, ho)" "unat ho = append_off ?e1 hdr"
    "unat (dsize m2) = ?e2" "align m2 = max (align m1) (align hdr)" "jfs_mlg_valid_desc m2"
    using append_Ret[OF 1(5) hv] le2 1(3) by auto
  show ?thesis using 1 2 by (intro exI[of _ m1] exI[of _ cl] exI[of _ m2] exI[of _ ho]) simp
qed

lemma heads_Ret:
  assumes "layout_ok lay"
  shows "\<exists>m1 cl m2 ho. jfs_mlg_append \<lparr>dsize = SIZEOF_MEMORY, align = ALIGNOF_MEMORY, dcount = 1\<rparr>
        \<lparr>dsize = SIZEOF_COMPONENT, align = ALIGNOF_COMPONENT, dcount = descriptions_count lay\<rparr> = Ret (m1, cl)
    \<and> jfs_mlg_append m1 (header_desc lay) = Ret (m2, ho)"
  using heads_append[of "descriptions_count lay" "header_desc lay" "descriptions lay"] assms
  by (auto simp: layout_ok_def layout_descs_def)

text \<open>What \<open>jfs_mlg_memory_init\<close> does on a well-formed layout, before the alignment is looked at.\<close>

lemma memory_init_steps:
  assumes ok: "layout_ok lay" and mal: "malloc (SIZEOF_UINTPTR * descriptions_count lay) = t" "t \<noteq> NULL"
  shows "\<exists>md cl ho offs.
    map unat (cl # ho # offs) = layout_offs 24 (layout_descs lay)
    \<and> unat (dsize (md :: jfs_mlg_desc)) = layout_end 24 (layout_descs lay)
    \<and> align md = layout_align lay \<and> jfs_mlg_valid_align (align md)
    \<and> jfs_mlg_memory_init malloc pm lay live JCL_OK =
        (case pm (align md) (dsize md) of (status, p) \<Rightarrow>
           if status \<noteq> 0 then Ret ((NULL, None), insert t live - {t}, JCL_ERR_SYS)
           else Ret ((p, Some (\<lparr>component_list = p + cl, component_count = descriptions_count lay,
                                header = p + ho\<rparr>,
                               map2 (\<lambda>d off. \<lparr>ptr = p + off, desc = d\<rparr>) (descriptions lay) offs)),
                     insert p (insert t live) - {t}, JCL_OK))"
proof -
  let ?m0 = "\<lparr>dsize = SIZEOF_MEMORY, align = ALIGNOF_MEMORY, dcount = 1\<rparr> :: jfs_mlg_desc"
  let ?cd = "\<lparr>dsize = SIZEOF_COMPONENT, align = ALIGNOF_COMPONENT, dcount = descriptions_count lay\<rparr> :: jfs_mlg_desc"
  have n: "unat (descriptions_count lay) = length (descriptions lay)" and ne: "descriptions lay \<noteq> []"
    and hv: "jfs_mlg_valid_desc (header_desc lay)" and dv: "\<forall>d\<in>set (descriptions lay). jfs_mlg_valid_desc d"
    and fit: "layout_end 24 (layout_descs lay) \<le> 2 ^ 63"
    using ok by (auto simp: layout_ok_def)
  have ld: "layout_descs lay = ?cd # header_desc lay # descriptions lay" by (simp add: layout_descs_def)
  let ?e2 = "append_end (append_end 24 ?cd) (header_desc lay)"
  obtain m1 cl m2 ho where 12: "jfs_mlg_append ?m0 ?cd = Ret (m1, cl)" "jfs_mlg_append m1 (header_desc lay) = Ret (m2, ho)"
    "map unat [cl, ho] = layout_offs 24 [?cd, header_desc lay]" "unat (dsize m2) = ?e2"
    "align m2 = max (max ALIGNOF_MEMORY ALIGNOF_COMPONENT) (align (header_desc lay))" "jfs_mlg_valid_desc m2"
    using heads_append[of "descriptions_count lay" "header_desc lay" "descriptions lay"] n ne hv dv fit ld by auto
  obtain m3 offs where 3: "mlg_append_all (descriptions lay) (length (descriptions lay)) m2 [] = Ret (Some (m3, offs))"
    "map unat offs = layout_offs ?e2 (descriptions lay)" "unat (dsize m3) = layout_end ?e2 (descriptions lay)"
    "jfs_mlg_valid_desc m3" "align m3 = foldl max (align m2) (map align (descriptions lay))"
    using append_all_Ret[OF 12(6) dv, of "[]"] fit ld 12(4) by auto
  have offs: "map unat (cl # ho # offs) = layout_offs 24 (layout_descs lay)" using 12(3) 3(2) ld by simp
  have ld_v: "\<forall>d\<in>set (layout_descs lay). jfs_mlg_valid_desc d"
    using ld hv dv n ne by (auto simp: jfs_mlg_valid_desc_def word_less_nat_alt)
  have pos: "0 < o'" if "o' \<in> set (cl # ho # offs)" for o'
    using layout_offs_ge[OF ld_v, of "unat o'" 24] that offs
    by (metis image_eqI list.set_map less_le_trans word_less_nat_alt unat_0 zero_less_numeral)
  have len: "length offs = length (descriptions lay)" using 3(2) by (metis length_layout_offs length_map)
  have fill: "mlg_fill_components p (descriptions lay) offs (length (descriptions lay)) =
      Ret (map2 (\<lambda>d off. \<lparr>ptr = p + off, desc = d\<rparr>) (descriptions lay) offs)" for p
    using len pos by (intro fill_components_Ret) auto
  have eq: "jfs_mlg_memory_init malloc pm lay live JCL_OK =
        (case pm (align m3) (dsize m3) of (status, p) \<Rightarrow>
           if status \<noteq> 0 then Ret ((NULL, None), insert t live - {t}, JCL_ERR_SYS)
           else Ret ((p, Some (\<lparr>component_list = p + cl, component_count = descriptions_count lay,
                                header = p + ho\<rparr>,
                               map2 (\<lambda>d off. \<lparr>ptr = p + off, desc = d\<rparr>) (descriptions lay) offs)),
                     insert p (insert t live) - {t}, JCL_OK))"
    using hv 12(1,2) 3(1) n mal pos fill
    by (simp add: jfs_mlg_memory_init_def Let_def jcl_malloc_def jcl_aligned_alloc_def
        jfs_mlg_apply_offset_def split: prod.splits)
  have al: "align m3 = layout_align lay" using 12(5) 3(5) ld by (simp add: layout_align_def)
  have "unat (dsize m3) = layout_end 24 (layout_descs lay)" using 3(3) ld by simp
  thus ?thesis using offs al eq valid_desc_align[OF 3(4)] by blast
qed

lemma consecutive_shift: "consecutive (map (\<lambda>(a, l). (k + a, l)) xs) \<longleftrightarrow> consecutive xs"
  by (auto simp: consecutive_def sorted_wrt_map split_def)

lemma consecutive_layout:
  assumes "\<forall>d\<in>set ds. jfs_mlg_valid_desc d"
  shows "consecutive ((0, e) # zip (layout_offs e ds) (map extent ds))"
  using layout_consecutive[OF assms] layout_offs_bounds(1)[OF assms]
  by (auto simp: consecutive_def)

lemma extent_pos: "jfs_mlg_valid_desc d \<Longrightarrow> 0 < extent d"
  by (simp add: extent_def jfs_mlg_valid_desc_def word_less_nat_alt)

lemma unat_offset:
  fixes p off :: addr
  assumes "unat p + unat off < 2 ^ 64"
  shows "unat (p + off) = unat p + unat off"
  using assms unat_add_lem[of p off] by simp

text \<open>A pointer moved by each of the laid-out offsets does not wrap.\<close>

lemma placed_shift:
  fixes p :: addr
  assumes v: "\<forall>d\<in>set ds. jfs_mlg_valid_desc d"
    and offs: "map unat offs = layout_offs e ds" and fit: "unat p + layout_end e ds \<le> 2 ^ 64"
  shows "map (\<lambda>off. unat (p + off)) offs = map (\<lambda>a. unat p + a) (layout_offs e ds)"
proof -
  have "unat (p + off) = unat p + unat off" if "off \<in> set offs" for off
  proof (rule unat_offset)
    from that obtain i where i: "i < length offs" "offs ! i = off" by (metis in_set_conv_nth)
    have len: "length offs = length ds" using offs by (metis length_layout_offs length_map)
    have nth: "layout_offs e ds ! i = unat off" using i offs by (metis nth_map)
    have "(unat off, extent (ds ! i)) \<in> set (zip (layout_offs e ds) (map extent ds))"
      using i len nth by (auto simp: in_set_zip intro: exI[of _ i])
    hence "unat off + extent (ds ! i) \<le> layout_end e ds" by (rule layout_offs_bounds(2)[OF v])
    moreover have "0 < extent (ds ! i)" using v i len by (intro extent_pos) simp
    ultimately show "unat p + unat off < 2 ^ 64" using fit by linarith
  qed
  hence "map (\<lambda>off. unat (p + off)) offs = map (\<lambda>off. unat p + unat off) offs" by simp
  also have "\<dots> = map ((+) (unat p)) (map unat offs)" by simp
  finally show ?thesis unfolding offs .
qed

lemma layout_offs_aligned:
  assumes "i < length ds" "jfs_mlg_valid_desc (ds ! i)"
  shows "unat (align (ds ! i)) dvd layout_offs e ds ! i"
  using assms
proof (induction ds arbitrary: e i)
  case (Cons d ds)
  thus ?case by (cases i) (auto simp: append_off_def)
qed simp

lemma placed_aligned:
  fixes p :: addr
  assumes v: "\<forall>d\<in>set ds. jfs_mlg_valid_desc d" and offs: "map unat offs = layout_offs e ds"
    and fit: "unat p + layout_end e ds \<le> 2 ^ 64"
    and p: "unat A dvd unat p" "jfs_mlg_valid_align A" "\<forall>d\<in>set ds. align d \<le> A" and i: "i < length ds"
  shows "unat (align (ds ! i)) dvd unat (p + offs ! i)"
proof -
  have "length offs = length ds" using offs by (metis length_layout_offs length_map)
  hence "unat (p + offs ! i) = unat p + layout_offs e ds ! i"
    using arg_cong[OF placed_shift[OF v offs fit], of "\<lambda>xs. xs ! i"] i by simp
  moreover have "unat (align (ds ! i)) dvd unat A"
    using valid_align_dvd[of "align (ds ! i)" A] valid_desc_align[of "ds ! i"] v p i by simp
  ultimately show ?thesis using layout_offs_aligned[of i ds e] v i p(1) dvd_trans by fastforce
qed

lemma map2_extents:
  "length offs = length ds \<Longrightarrow>
   map (\<lambda>c. (unat (ptr c), extent (desc c))) (map2 (\<lambda>d off. \<lparr>ptr = p + off, desc = d\<rparr>) ds offs)
   = zip (map (\<lambda>off. unat (p + off)) offs) (map extent ds)"
  by (induction offs ds rule: list_induct2) auto

lemma placed_extents_eq:
  assumes ok: "layout_ok lay" and offs: "map unat (cl # ho # offs) = layout_offs 24 (layout_descs lay)"
    and fit: "unat p + layout_end 24 (layout_descs lay) \<le> 2 ^ 64"
  shows "placed_extents lay p \<lparr>component_list = p + cl, component_count = descriptions_count lay, header = p + ho\<rparr>
            (map2 (\<lambda>d off. \<lparr>ptr = p + off, desc = d\<rparr>) (descriptions lay) offs)
         = map (\<lambda>(a, l). (unat p + a, l))
             ((0, 24) # zip (layout_offs 24 (layout_descs lay)) (map extent (layout_descs lay)))"
proof -
  have v: "\<forall>d\<in>set (layout_descs lay). jfs_mlg_valid_desc d"
    using ok by (auto simp: layout_ok_def layout_descs_def jfs_mlg_valid_desc_def word_less_nat_alt)
  have len: "length offs = length (descriptions lay)"
    using offs by (auto simp: layout_descs_def dest: arg_cong[where f = length])
  have "placed_extents lay p \<lparr>component_list = p + cl, component_count = descriptions_count lay, header = p + ho\<rparr>
            (map2 (\<lambda>d off. \<lparr>ptr = p + off, desc = d\<rparr>) (descriptions lay) offs)
        = (unat p, 24) # zip (map (\<lambda>off. unat (p + off)) (cl # ho # offs)) (map extent (layout_descs lay))"
    unfolding placed_extents_def map2_extents[OF len] by (simp add: layout_descs_def extent_def)
  also have "map (\<lambda>off. unat (p + off)) (cl # ho # offs) = map (\<lambda>a. unat p + a) (layout_offs 24 (layout_descs lay))"
    using placed_shift[OF v offs fit] .
  finally show ?thesis by (simp add: zip_map1 split_def)
qed

lemma layout_descs_valid: "layout_ok lay \<Longrightarrow> \<forall>d\<in>set (layout_descs lay). jfs_mlg_valid_desc d"
  by (auto simp: layout_ok_def layout_descs_def jfs_mlg_valid_desc_def word_less_nat_alt)

text \<open>Without memory for the offsets nothing is allocated.\<close>

lemma memory_init_no_offsets:
  assumes ok: "layout_ok lay" and mal: "malloc (SIZEOF_UINTPTR * descriptions_count lay) = NULL"
  shows "jfs_mlg_memory_init malloc pm lay live JCL_OK = Ret ((NULL, None), live, JCL_ERR_SYS)"
proof -
  obtain m1 cl m2 ho where "jfs_mlg_append \<lparr>dsize = SIZEOF_MEMORY, align = ALIGNOF_MEMORY, dcount = 1\<rparr>
      \<lparr>dsize = SIZEOF_COMPONENT, align = ALIGNOF_COMPONENT, dcount = descriptions_count lay\<rparr> = Ret (m1, cl)"
    "jfs_mlg_append m1 (header_desc lay) = Ret (m2, ho)"
    using heads_Ret[OF ok] by blast
  thus ?thesis using ok mal by (simp add: jfs_mlg_memory_init_def Let_def jcl_malloc_def layout_ok_def)
qed

lemma memory_init_layout_aux:
  assumes ok: "layout_ok lay" and pm: "memalign_contract pm"
    and mal: "malloc (SIZEOF_UINTPTR * descriptions_count lay) \<notin> live"
    and fresh: "\<forall>a s. snd (pm a s) \<noteq> malloc (SIZEOF_UINTPTR * descriptions_count lay)"
  shows "((malloc (SIZEOF_UINTPTR * descriptions_count lay) = NULL \<or> fst (pm (layout_align lay) (layout_size lay)) \<noteq> 0)
       \<and> jfs_mlg_memory_init malloc pm lay live JCL_OK = Ret ((NULL, None), live, JCL_ERR_SYS)) \<or>
    (\<exists>p mem cs. malloc (SIZEOF_UINTPTR * descriptions_count lay) \<noteq> NULL \<and> pm (layout_align lay) (layout_size lay) = (0, p)
       \<and> jfs_mlg_memory_init malloc pm lay live JCL_OK = Ret ((p, Some (mem, cs)), insert p live, JCL_OK)
       \<and> consecutive (placed_extents lay p mem cs)
       \<and> (\<forall>(a, l)\<in>set (placed_extents lay p mem cs). unat p \<le> a \<and> a + l \<le> unat p + unat (layout_size lay))
       \<and> unat p + unat (layout_size lay) \<le> 2 ^ 64
       \<and> map desc cs = descriptions lay
       \<and> (\<forall>c\<in>set cs. unat (align (desc c)) dvd unat (ptr c))
       \<and> unat (align (header_desc lay)) dvd unat (header mem)
       \<and> unat ALIGNOF_COMPONENT dvd unat (component_list mem) \<and> unat ALIGNOF_MEMORY dvd unat p
       \<and> component_count mem = descriptions_count lay)"
proof (cases "malloc (SIZEOF_UINTPTR * descriptions_count lay) = NULL")
  case True
  thus ?thesis using memory_init_no_offsets[where malloc = malloc, OF ok True] by simp
next
  case nn: False
  let ?t = "malloc (SIZEOF_UINTPTR * descriptions_count lay)"
  let ?L = "layout_descs lay"
  obtain md cl ho offs where
    offs: "map unat (cl # ho # offs) = layout_offs 24 ?L"
    and sz: "unat (dsize (md :: jfs_mlg_desc)) = layout_end 24 ?L"
    and al_md: "align md = layout_align lay" and mdv: "jfs_mlg_valid_align (align md)"
    and eq: "jfs_mlg_memory_init malloc pm lay live JCL_OK =
        (case pm (align md) (dsize md) of (status, p) \<Rightarrow>
           if status \<noteq> 0 then Ret ((NULL, None), insert ?t live - {?t}, JCL_ERR_SYS)
           else Ret ((p, Some (\<lparr>component_list = p + cl, component_count = descriptions_count lay,
                                header = p + ho\<rparr>,
                               map2 (\<lambda>d off. \<lparr>ptr = p + off, desc = d\<rparr>) (descriptions lay) offs)),
                     insert p (insert ?t live) - {?t}, JCL_OK))"
    using memory_init_steps[of lay malloc ?t pm live] ok nn by blast
  have al: "\<forall>d\<in>set ?L. align d \<le> align md" and al_m: "ALIGNOF_MEMORY \<le> align md"
    using al_md by (auto simp: layout_align_def intro: foldl_max_ge)
  have sz_md: "dsize md = layout_size lay" using arg_cong[OF sz, of "of_nat :: nat \<Rightarrow> size_t"] by (simp add: layout_size_def)
  obtain st p where p: "pm (align md) (dsize md) = (st, p)" by fastforce
  show ?thesis
  proof (cases "st = 0")
    case False
    thus ?thesis using eq p mal by (simp add: al_md sz_md)
  next
    case True
    have v: "\<forall>d\<in>set ?L. jfs_mlg_valid_desc d" using ok by (rule layout_descs_valid)
    have "unat (align md) dvd unat p \<and> unat p + unat (dsize md) \<le> 2 ^ 64"
      using pm p True unfolding memalign_contract_def by blast
    hence pmp: "unat (align md) dvd unat p" "unat p + layout_end 24 ?L \<le> 2 ^ 64" unfolding sz by auto
    have "p \<noteq> ?t" using fresh p by (metis snd_conv)
    hence live: "insert p (insert ?t live) - {?t} = insert p live" using mal by auto
    let ?mem = "\<lparr>component_list = p + cl, component_count = descriptions_count lay, header = p + ho\<rparr>"
    let ?cs = "map2 (\<lambda>d off. \<lparr>ptr = p + off, desc = d\<rparr>) (descriptions lay) offs"
    let ?Z = "(0, 24) # zip (layout_offs 24 ?L) (map extent ?L)"
    have ext: "placed_extents lay p ?mem ?cs = map (\<lambda>(a, l). (unat p + a, l)) ?Z"
      using ok offs pmp(2) by (rule placed_extents_eq)
    have len: "length offs = length (descriptions lay)"
      using offs by (auto simp: layout_descs_def dest: arg_cong[where f = length])
    note al_i = placed_aligned[OF v offs pmp(2) pmp(1) mdv al]
    have comp_al: "\<forall>c\<in>set ?cs. unat (align (desc c)) dvd unat (ptr c)"
    proof
      fix c assume "c \<in> set ?cs"
      then obtain i where "i < length (descriptions lay)" "c = \<lparr>ptr = p + offs ! i, desc = descriptions lay ! i\<rparr>"
        using len by (auto simp: set_zip)
      thus "unat (align (desc c)) dvd unat (ptr c)" using al_i[of "Suc (Suc i)"] by (simp add: layout_descs_def)
    qed
    have "unat ALIGNOF_COMPONENT dvd unat (p + cl)" using al_i[of 0] by (simp add: layout_descs_def)
    moreover have "unat ALIGNOF_MEMORY dvd unat p"
      using valid_align_dvd[OF word_consts(3) mdv al_m] pmp(1) by (rule dvd_trans)
    moreover have "unat (align (header_desc lay)) dvd unat (p + ho)" using al_i[of 1] by (simp add: layout_descs_def)
    moreover have "consecutive (placed_extents lay p ?mem ?cs)"
      unfolding ext consecutive_shift using consecutive_layout[OF v] .
    moreover have "\<forall>(a, l)\<in>set (placed_extents lay p ?mem ?cs). unat p \<le> a \<and> a + l \<le> unat p + layout_end 24 ?L"
      unfolding ext using layout_offs_bounds(2)[OF v] layout_end_ge[OF v, of 24] by auto
    moreover have "map desc ?cs = descriptions lay" using len by (intro nth_equalityI) auto
    moreover have "unat (layout_size lay) = layout_end 24 ?L" using sz by (simp add: sz_md)
    ultimately show ?thesis using nn eq p[unfolded al_md sz_md] True live comp_al pmp(2)
      by (intro disjI2 exI[of _ p] exI[of _ ?mem] exI[of _ ?cs]) (simp add: al_md sz_md)
  qed
qed


text \<open>The components of a block as their users need them.\<close>

lemma memory_init_components:
  assumes ok: "layout_ok lay" and pm: "memalign_contract pm"
    and mal: "malloc (SIZEOF_UINTPTR * descriptions_count lay) \<notin> live"
    and fresh: "\<forall>a s. snd (pm a s) \<noteq> malloc (SIZEOF_UINTPTR * descriptions_count lay)"
    and ran: "jfs_mlg_memory_init malloc pm lay live JCL_OK = Ret ((p, Some (mem, cs)), live', err)"
  shows "map desc cs = descriptions lay"
    and "sorted_wrt (\<lambda>c c'. unat (ptr c) + extent (desc c) \<le> unat (ptr c')) cs"
    and "c \<in> set cs \<Longrightarrow> jfs_mlg_valid_component c \<and> unat (ptr c) + extent (desc c) \<le> 2 ^ 64 \<and> unat (align (desc c)) dvd unat (ptr c)"
    and "c \<in> set cs \<Longrightarrow> unat p < unat (ptr c) \<and>
      unat (ptr c) + extent (desc c) \<le> unat p + unat (layout_size lay)"
proof -
  let ?top = "unat p + unat (layout_size lay)"
  note facts = memory_init_layout_aux[where malloc = malloc and live = live, OF ok pm mal fresh, unfolded ran, simplified]
  have con: "consecutive (placed_extents lay p mem cs)" using facts by simp
  have bnd: "\<forall>(a, l)\<in>set (placed_extents lay p mem cs). unat p \<le> a \<and> a + l \<le> ?top" using facts by simp
  have fit: "?top \<le> 2 ^ 64" using facts by simp
  show ds: "map desc cs = descriptions lay" using facts by simp
  show "sorted_wrt (\<lambda>c c'. unat (ptr c) + extent (desc c) \<le> unat (ptr c')) cs"
    using con by (simp add: consecutive_def placed_extents_def sorted_wrt_map)
  assume c: "c \<in> set cs"
  have lo: "unat p + 24 \<le> unat (ptr c)" using con c by (auto simp: consecutive_def placed_extents_def)
  have hi: "unat (ptr c) + extent (desc c) \<le> ?top" using bnd c by (auto simp: placed_extents_def)
  have "desc c \<in> set (descriptions lay)" unfolding ds[symmetric] using c by simp
  hence "jfs_mlg_valid_desc (desc c)" using ok by (simp add: layout_ok_def)
  moreover have "ptr c \<noteq> NULL" using lo by auto
  moreover have "unat (align (desc c)) dvd unat (ptr c)" using facts c by simp
  ultimately show "jfs_mlg_valid_component c \<and> unat (ptr c) + extent (desc c) \<le> 2 ^ 64 \<and> unat (align (desc c)) dvd unat (ptr c)"
    using hi fit by (simp add: jfs_mlg_valid_component_def)
  show "unat p < unat (ptr c) \<and> unat (ptr c) + extent (desc c) \<le> ?top" using lo hi by simp
qed

definition example_layout :: jfs_mlg_layout where
  "example_layout = \<lparr>descriptions = [\<lparr>dsize = 16, align = 8, dcount = 4\<rparr>, \<lparr>dsize = 3, align = 64, dcount = 5\<rparr>],
     descriptions_count = 2, header_desc = \<lparr>dsize = 20, align = 4, dcount = 1\<rparr>\<rparr>"

definition example_memalign :: "size_t \<Rightarrow> size_t \<Rightarrow> int \<times> addr" where
  "example_memalign a s = (if a \<in> {8, 16, 32, 64} \<and> s \<le> 65536 then (0, 65536) else (12, NULL))"

lemma example_layout_ok: "layout_ok example_layout"
  by (simp add: layout_ok_def example_layout_def layout_descs_def jfs_mlg_valid_desc_def jfs_mlg_valid_align_def
      append_end_def append_off_def align_up_def extent_def ALIGNOF_COMPONENT_def)

lemma example_memalign_contract: "memalign_contract example_memalign"
  by (auto simp: memalign_contract_def example_memalign_def word_le_nat_alt split: if_splits)

lemma example_block:
  "(case r of Ret ((p, Some x), live, err) \<Rightarrow> p = 65536 \<and> live = {p} \<and> err = JCL_OK | _ \<Rightarrow> False) \<Longrightarrow>
   \<exists>mem cs. r = Ret ((65536 :: addr, Some (mem, cs)), {65536 :: addr}, JCL_OK)"
  by (auto split: run.splits prod.splits option.splits)

lemma example_run:
  "\<exists>mem cs. jfs_mlg_memory_init (\<lambda>_. 4096) example_memalign example_layout {} JCL_OK = Ret ((65536, Some (mem, cs)), {65536}, JCL_OK)"
  by (rule example_block) code_simp

lemma example_fresh: "\<forall>a s. snd (example_memalign a s) \<noteq> 4096"
  by (simp add: example_memalign_def)


text \<open>
  \<open>jfs_mlg_valid_align\<close> accepts exactly the powers of two that a \<open>size_t\<close> can hold.
\<close>

theorem valid_align_pow2: "jfs_mlg_valid_align a \<longleftrightarrow> (\<exists>k < 64. unat a = 2 ^ k)"
proof -
  have "a = 2 ^ k \<longleftrightarrow> unat a = 2 ^ k" if "k < 64" for k
    using unat_pow2_64[OF that] by (metis unsigned_word_eqI)
  thus ?thesis unfolding valid_align_iff by blast
qed

text \<open>
  For a valid alignment and a non-zero size \<open>jfs_mlg_align_size\<close> returns the least multiple of
  the alignment that is not below the size, unless that computation leaves the range of
  \<open>size_t\<close>; then it wraps and the result is 0.
\<close>

theorem align_size_least_multiple:
  assumes "jfs_mlg_valid_align a" and "s > 0"
  shows "\<exists>r. jfs_mlg_align_size s a = Ret r \<and>
    (if unat s + unat a - 1 < 2 ^ 64
     then unat a dvd unat r \<and> s \<le> r \<and> (\<forall>m. unat a dvd m \<and> unat s \<le> m \<longrightarrow> unat r \<le> m)
     else r = 0)"
proof -
  have pos: "0 < unat a" using assms(1) by (rule valid_align_pos)
  obtain r where r: "jfs_mlg_align_size s a = Ret r"
    "unat r = (if unat s + unat a - 1 < 2 ^ 64 then align_up (unat a) (unat s) else 0)"
    using assms mask_align_valid[OF assms(1), of s] by (simp add: jfs_mlg_align_size_def)
  thus ?thesis using align_up_ge[OF pos] align_up_least[OF pos]
    by (auto simp: word_le_nat_alt unat_eq_0)
qed

theorem align_size_least_multiple_witness:
  "\<exists>r. jfs_mlg_align_size 33 16 = Ret r \<and> unat (16::size_t) dvd unat r \<and> 33 \<le> r"
  using align_size_least_multiple[of 16 33] by (auto simp: jfs_mlg_valid_align_def)

section \<open>Rejected layouts\<close>

lemma append_all_invalid:
  assumes "jfs_mlg_valid_desc base" "\<forall>d\<in>set pre. jfs_mlg_valid_desc d"
    and "layout_end (unat (dsize base)) pre \<le> 2 ^ 63" and "\<not> jfs_mlg_valid_desc d"
  shows "mlg_append_all (pre @ d # post) (Suc (length pre + n)) base offs = Ret None"
  using assms
proof (induction pre arbitrary: base offs)
  case (Cons p pre)
  let ?e = "unat (dsize base)"
  have "append_end ?e p \<le> 2 ^ 63"
    using layout_end_ge[of pre "append_end ?e p"] Cons.prems(2,3) by simp
  then obtain base1 off where "jfs_mlg_append base p = Ret (base1, off)"
    "unat (dsize base1) = append_end ?e p" "jfs_mlg_valid_desc base1"
    using append_Ret[OF Cons.prems(1), of p] Cons.prems(2) by auto
  thus ?case using Cons.IH[of base1] Cons.prems by simp
qed simp

text \<open>
  C33. A layout with an invalid description never yields a block.  If the header description is invalid, or if
  one of the other descriptions is (and the layout up to there fits in \<open>2 ^ 63\<close> bytes, so that no size wraps),
  \<open>jfs_mlg_memory_init\<close> returns \<open>NULL\<close> with \<open>JCL_ERR_BAD_CONF\<close>, does not call \<open>posix_memalign\<close>, and frees the
  temporary offset array; only if the header is valid and \<open>malloc\<close> fails for this array, the error is \<open>JCL_ERR_SYS\<close>.
\<close>

theorem memory_init_bad_desc:
  assumes cnt: "unat (descriptions_count lay) = length (descriptions lay)"
    and bad: "\<not> jfs_mlg_valid_desc (header_desc lay) \<or> descriptions lay = pre @ d # post \<and> \<not> jfs_mlg_valid_desc d
      \<and> (\<forall>p\<in>set pre. jfs_mlg_valid_desc p) \<and> layout_end (unat SIZEOF_MEMORY) (layout_descs (lay\<lparr>descriptions := pre\<rparr>)) \<le> 2 ^ 63"
    and mal: "malloc (SIZEOF_UINTPTR * descriptions_count lay) \<notin> live"
  shows "jfs_mlg_memory_init malloc pm lay live JCL_OK = Ret ((NULL, None), live,
    if jfs_mlg_valid_desc (header_desc lay) \<and> malloc (SIZEOF_UINTPTR * descriptions_count lay) = NULL then JCL_ERR_SYS else JCL_ERR_BAD_CONF)"
proof (cases "jfs_mlg_valid_desc (header_desc lay)")
  case False
  thus ?thesis by (simp add: jfs_mlg_memory_init_def)
next
  case hv: True
  hence split: "descriptions lay = pre @ d # post" "\<not> jfs_mlg_valid_desc d" "\<forall>p\<in>set pre. jfs_mlg_valid_desc p"
    and fit: "layout_end 24 (\<lparr>dsize = SIZEOF_COMPONENT, align = ALIGNOF_COMPONENT, dcount = descriptions_count lay\<rparr> # header_desc lay # pre) \<le> 2 ^ 63"
    using bad by (auto simp: layout_descs_def)
  have n: "0 < unat (descriptions_count lay)" using cnt split(1) by simp
  from heads_append[OF n hv split(3) fit] obtain m1 cl m2 ho where
    m: "jfs_mlg_append \<lparr>dsize = SIZEOF_MEMORY, align = ALIGNOF_MEMORY, dcount = 1\<rparr>
        \<lparr>dsize = SIZEOF_COMPONENT, align = ALIGNOF_COMPONENT, dcount = descriptions_count lay\<rparr> = Ret (m1, cl)"
      "jfs_mlg_append m1 (header_desc lay) = Ret (m2, ho)" "jfs_mlg_valid_desc m2"
    and e: "layout_end (unat (dsize m2)) pre \<le> 2 ^ 63"
    using fit by auto
  have "mlg_append_all (descriptions lay) (unat (descriptions_count lay)) m2 [] = Ret None"
    using append_all_invalid[OF m(3) split(3) e split(2), of post "length post" "[]"] split(1) cnt by simp
  thus ?thesis using hv m(1,2) mal by (auto simp: jfs_mlg_memory_init_def jcl_malloc_def Let_def)
qed

theorem memory_init_bad_desc_witness:
  "jfs_mlg_memory_init (\<lambda>_. 4096) example_memalign \<lparr>descriptions = [\<lparr>dsize = 16, align = 8, dcount = 4\<rparr>, \<lparr>dsize = 3, align = 6, dcount = 5\<rparr>],
     descriptions_count = 2, header_desc = \<lparr>dsize = 20, align = 4, dcount = 1\<rparr>\<rparr> {} JCL_OK
   = Ret ((NULL, None), {}, JCL_ERR_BAD_CONF)"
proof -
  let ?lay = "\<lparr>descriptions = [\<lparr>dsize = 16, align = 8, dcount = 4\<rparr>, \<lparr>dsize = 3, align = 6, dcount = 5\<rparr>],
     descriptions_count = 2, header_desc = \<lparr>dsize = 20, align = 4, dcount = 1\<rparr>\<rparr> :: jfs_mlg_layout"
  show ?thesis
    using memory_init_bad_desc[of ?lay "[\<lparr>dsize = 16, align = 8, dcount = 4\<rparr>]" "\<lparr>dsize = 3, align = 6, dcount = 5\<rparr>" "[]"
        "\<lambda>_. 4096" "{}" example_memalign]
    by (simp add: jfs_mlg_valid_desc_def jfs_mlg_valid_align_def layout_descs_def append_end_def append_off_def
        align_up_def extent_def ALIGNOF_COMPONENT_def)
qed

text \<open>
  A layout without components trips the assertion in \<open>jfs_mlg_append\<close> (the component list would
  have count 0): \<open>jfs_mlg_memory_init\<close> aborts instead of reporting an error.
\<close>

theorem memory_init_empty_aborts:
  assumes "jfs_mlg_valid_desc (header_desc lay)" and "descriptions_count lay = 0"
  shows "jfs_mlg_memory_init malloc pm lay live err = Abort"
  using assms by (simp add: jfs_mlg_memory_init_def Let_def jfs_mlg_append_def assert_c_def jfs_mlg_valid_desc_def)

theorem memory_init_empty_aborts_witness:
  "jfs_mlg_memory_init (\<lambda>_. 4096) example_memalign
     \<lparr>descriptions = [], descriptions_count = 0, header_desc = \<lparr>dsize = 8, align = 8, dcount = 1\<rparr>\<rparr> {} JCL_OK = Abort"
  by (rule memory_init_empty_aborts) (simp_all add: jfs_mlg_valid_desc_def jfs_mlg_valid_align_def)

text \<open>
  The size computation is not checked for overflow: a component of \<open>2 ^ 32\<close> objects of \<open>2 ^ 32\<close>
  bytes adds nothing to the block, so \<open>jfs_mlg_memory_init\<close> succeeds with a block of 88 bytes and
  hands out a component that claims \<open>2 ^ 64\<close> bytes.
\<close>

definition huge_layout :: jfs_mlg_layout where
  "huge_layout = \<lparr>descriptions = [\<lparr>dsize = 2 ^ 32, align = 8, dcount = 2 ^ 32\<rparr>],
     descriptions_count = 1, header_desc = \<lparr>dsize = 32, align = 8, dcount = 1\<rparr>\<rparr>"

theorem memory_init_overflow:
  "\<exists>mem c. jfs_mlg_memory_init (\<lambda>_. 4096) (\<lambda>a s. if s \<le> 88 then (0, 65536) else (12, NULL)) huge_layout {} JCL_OK
     = Ret ((65536, Some (mem, [c])), {65536}, JCL_OK) \<and> extent (desc c) = 2 ^ 64"
proof -
  let ?mem = "\<lparr>component_list = 65560, component_count = 1, header = 65592\<rparr> :: jfs_mlg_memory"
  let ?c = "\<lparr>ptr = 65624, desc = \<lparr>dsize = 4294967296, align = 8, dcount = 4294967296\<rparr>\<rparr> :: jfs_mlg_component"
  have "jfs_mlg_memory_init (\<lambda>_. 4096) (\<lambda>a s. if s \<le> 88 then (0, 65536) else (12, NULL)) huge_layout {} JCL_OK
     = Ret ((65536, Some (?mem, [?c])), {65536}, JCL_OK)" by code_simp
  moreover have "extent (desc ?c) = 2 ^ 64" by (simp add: extent_def)
  ultimately show ?thesis by blast
qed

text \<open>
  Initialising a block and freeing it again leaves the set of live allocations as it was.
\<close>

theorem memory_init_free_roundtrip:
  assumes "jfs_mlg_memory_init malloc pm lay live JCL_OK = Ret ((p, Some r), live', err')"
    and "p \<notin> live" and "malloc (SIZEOF_UINTPTR * descriptions_count lay) \<notin> live"
    and "malloc (SIZEOF_UINTPTR * descriptions_count lay) \<noteq> p"
  shows "err' = JCL_OK \<and> jfs_mlg_memory_free p live' = live"
  using assms
  by (auto simp: jfs_mlg_memory_init_def Let_def jcl_malloc_def jcl_aligned_alloc_def run_bind_Ret_iff
      jfs_mlg_memory_free_def split_beta split: if_split_asm option.split_asm)

theorem memory_init_free_roundtrip_witness:
  "\<exists>p r live' err'. jfs_mlg_memory_init (\<lambda>_. 4096) example_memalign example_layout {16} JCL_OK = Ret ((p, Some r), live', err')
     \<and> jfs_mlg_memory_free p live' = {16}"
proof -
  have "case jfs_mlg_memory_init (\<lambda>_. 4096) example_memalign example_layout {16} JCL_OK of
      Ret ((p, Some r), l, e) \<Rightarrow> p = 65536 | _ \<Rightarrow> False" by code_simp
  then obtain r live' err' where
    ran: "jfs_mlg_memory_init (\<lambda>_. 4096) example_memalign example_layout {16} JCL_OK = Ret ((65536, Some r), live', err')"
    by (auto split: run.splits prod.splits option.splits)
  show ?thesis using ran memory_init_free_roundtrip[OF ran] by auto
qed

end
