(* ===== verification/Mem_Block.thy ===== *)
theory Mem_Block
  imports Mem_Layout
begin

text \<open>
  \<open>src/memory_block.c\<close>: an array of equally sized objects in raw memory.  \<open>slots\<close> is the abstract
  view of a block, the list of the contents of its objects.  The locale \<open>slot_store\<close> is the
  interface a client uses (read, write and move whole objects, seen through \<open>slots\<close>); it is
  interpreted on the operations of this file.
\<close>

section \<open>Operations\<close>

record jfs_mb =
  base_ptr :: addr
  obj_size :: size_t
  capacity :: size_t

definition jfs_mb_init :: "jfs_mb \<Rightarrow> jfs_mlg_component \<Rightarrow> jcl_err \<Rightarrow> jfs_mb \<times> jcl_err" where
  "jfs_mb_init mb_init component err =
     (if \<not> jfs_mlg_valid_component component then (mb_init, JCL_ERR_BAD_CONF)
      else (\<lparr>base_ptr = ptr component, obj_size = dsize (desc component), capacity = dcount (desc component)\<rparr>, err))"

definition jfs_mb_index :: "jfs_mb \<Rightarrow> size_t \<Rightarrow> addr" where
  "jfs_mb_index mb index = base_ptr mb + (index * obj_size mb)"

definition jfs_mb_write :: "mem \<Rightarrow> jfs_mb \<Rightarrow> byte list \<Rightarrow> size_t \<Rightarrow> mem" where
  "jfs_mb_write m mb obj index = write_bytes m (jfs_mb_index mb index) (take (unat (obj_size mb)) obj)"

definition jfs_mb_read :: "mem \<Rightarrow> jfs_mb \<Rightarrow> size_t \<Rightarrow> byte list" where
  "jfs_mb_read m mb index = read_bytes m (jfs_mb_index mb index) (unat (obj_size mb))"

definition jfs_mb_remap :: "mem \<Rightarrow> jfs_mb \<Rightarrow> size_t \<Rightarrow> size_t \<Rightarrow> size_t \<Rightarrow> mem" where
  "jfs_mb_remap m mb dest_index src_index obj_count =
     write_bytes m (jfs_mb_index mb dest_index)
       (read_bytes m (jfs_mb_index mb src_index) (unat (obj_size mb * obj_count)))"

section \<open>Blocks as lists of objects\<close>

definition mb_wf :: "jfs_mb \<Rightarrow> bool" where
  "mb_wf mb \<longleftrightarrow> 0 < obj_size mb \<and> unat (obj_size mb) * unat (capacity mb) \<le> 2 ^ 64"

definition slot :: "mem \<Rightarrow> jfs_mb \<Rightarrow> nat \<Rightarrow> byte list" where
  "slot m mb i = read_bytes m (base_ptr mb + of_nat (i * unat (obj_size mb))) (unat (obj_size mb))"

definition slots :: "mem \<Rightarrow> jfs_mb \<Rightarrow> byte list list" where
  "slots m mb = map (slot m mb) [0..<unat (capacity mb)]"

lemma length_slots [simp]: "length (slots m mb) = unat (capacity mb)"
  by (simp add: slots_def)

lemma slots_Nil_iff [simp]: "slots m mb = [] \<longleftrightarrow> unat (capacity mb) = 0"
  by (metis length_0_conv length_slots)

lemma nth_slots [simp]: "i < unat (capacity mb) \<Longrightarrow> slots m mb ! i = slot m mb i"
  by (simp add: slots_def)

lemma length_slot [simp]: "length (slot m mb i) = unat (obj_size mb)"
  by (simp add: slot_def)

lemma mb_index_eq: "jfs_mb_index mb (of_nat i) = base_ptr mb + of_nat (i * unat (obj_size mb))"
  by (simp add: jfs_mb_index_def)

lemma slot_room:
  assumes "mb_wf mb" "i + k \<le> unat (capacity mb)"
  shows "i * unat (obj_size mb) + k * unat (obj_size mb) \<le> 2 ^ 64"
proof -
  have "(i + k) * unat (obj_size mb) \<le> unat (capacity mb) * unat (obj_size mb)"
    using assms(2) by (intro mult_le_mono1)
  thus ?thesis using assms(1) by (simp add: mb_wf_def algebra_simps)
qed

lemma slot_order: "i < j \<Longrightarrow> i * s + s \<le> j * (s::nat)"
  by (metis Suc_leI add.commute mult_Suc mult_le_mono1)

lemma slot_write_run:
  assumes wf: "mb_wf mb" and d: "d + k \<le> unat (capacity mb)" and j: "j < unat (capacity mb)"
    and len: "length bs = k * unat (obj_size mb)"
  shows "slot (write_bytes m (base_ptr mb + of_nat (d * unat (obj_size mb))) bs) mb j =
    (if d \<le> j \<and> j < d + k then take (unat (obj_size mb)) (drop ((j - d) * unat (obj_size mb)) bs)
     else slot m mb j)"
proof -
  let ?s = "unat (obj_size mb)" and ?b = "base_ptr mb"
  have room: "d * ?s + length bs \<le> 2 ^ 64" using slot_room[OF wf d] len by simp
  have roomj: "j * ?s + ?s \<le> 2 ^ 64" using slot_room[OF wf, of j 1] j by simp
  show ?thesis
  proof (cases "d \<le> j \<and> j < d + k")
    case True
    have pos: "?b + of_nat (j * ?s) = ?b + of_nat (d * ?s) + of_nat ((j - d) * ?s)"
      using True by (simp add: add.assoc flip: of_nat_add of_nat_mult add_mult_distrib)
    have "(j - d) * ?s + ?s \<le> length bs" unfolding len using True by (intro slot_order) auto
    hence "read_bytes (write_bytes m (?b + of_nat (d * ?s)) bs) (?b + of_nat (j * ?s)) ?s
        = take ?s (drop ((j - d) * ?s) bs)"
      unfolding pos using room by (intro read_write_slice) auto
    thus ?thesis using True by (simp add: slot_def)
  next
    case False
    hence "j * ?s + ?s \<le> d * ?s \<or> d * ?s + length bs \<le> j * ?s"
      unfolding len using slot_order[of j d ?s] mult_le_mono1[of "d + k" j ?s]
      by (auto simp: add_mult_distrib not_le not_less)
    with roomj room have "read_bytes (write_bytes m (?b + of_nat (d * ?s)) bs) (?b + of_nat (j * ?s)) ?s
        = read_bytes m (?b + of_nat (j * ?s)) ?s" by (rule read_write_disjoint)
    thus ?thesis using False by (auto simp: slot_def simp del: of_nat_mult)
  qed
qed

lemma read_slot:
  assumes "i < unat (capacity mb)"
  shows "jfs_mb_read m mb (of_nat i) = slots m mb ! i"
  using assms by (simp add: jfs_mb_read_def mb_index_eq slot_def del: of_nat_mult)

lemma write_slot:
  assumes "mb_wf mb" "i < unat (capacity mb)" "length bs = unat (obj_size mb)"
  shows "slots (jfs_mb_write m mb bs (of_nat i)) mb = (slots m mb)[i := bs]"
  using assms slot_write_run[OF assms(1), of i 1 _ bs m]
  by - (rule nth_equalityI; auto simp: jfs_mb_write_def mb_index_eq nth_list_update simp del: of_nat_mult)

lemma unat_of_nat_size: "i < unat (x :: size_t) \<Longrightarrow> unat (of_nat i :: size_t) = i"
  using unat_lt64[of x] by (intro unat_of_nat_64) linarith

lemma take_drop_slot:
  assumes "s + k \<le> unat (capacity mb)" "j < k"
  shows "take (unat (obj_size mb)) (drop (j * unat (obj_size mb))
      (read_bytes m (base_ptr mb + of_nat (s * unat (obj_size mb))) (k * unat (obj_size mb))))
    = slot m mb (s + j)"
proof -
  have "j * unat (obj_size mb) + unat (obj_size mb) \<le> k * unat (obj_size mb)"
    using assms(2) by (rule slot_order)
  hence "take (unat (obj_size mb)) (drop (j * unat (obj_size mb))
      (read_bytes m (base_ptr mb + of_nat (s * unat (obj_size mb))) (k * unat (obj_size mb))))
    = read_bytes m (base_ptr mb + of_nat (s * unat (obj_size mb)) + of_nat (j * unat (obj_size mb))) (unat (obj_size mb))"
    by (rule read_bytes_slice)
  also have "base_ptr mb + of_nat (s * unat (obj_size mb)) + of_nat (j * unat (obj_size mb))
      = base_ptr mb + of_nat ((s + j) * unat (obj_size mb))"
    by (simp add: add.assoc algebra_simps)
  finally show ?thesis by (simp add: slot_def)
qed

lemma remap_slots:
  assumes wf: "mb_wf mb" and d: "d + k \<le> unat (capacity mb)" and s: "s + k \<le> unat (capacity mb)"
  shows "slots (jfs_mb_remap m mb (of_nat d) (of_nat s) (of_nat k)) mb =
    map (\<lambda>j. if d \<le> j \<and> j < d + k then slots m mb ! (s + (j - d)) else slots m mb ! j) [0..<unat (capacity mb)]"
proof (cases "k = 0")
  case True
  thus ?thesis by - (rule nth_equalityI; auto simp: jfs_mb_remap_def write_bytes_def)
next
  case False
  let ?s = "unat (obj_size mb)"
  have k64: "k < 2 ^ 64" using d unat_lt64[of "capacity mb"] by linarith
  have kk: "k * ?s \<le> 2 ^ 64" using slot_room[OF wf, of 0 k] d by simp
  show ?thesis
  proof (cases "k * ?s = 2 ^ 64")
    case True
    txt \<open>The whole address space: the length wraps to 0, but then source and target coincide.\<close>
    have "unat (capacity mb) * ?s \<le> k * ?s" using wf True by (simp add: mb_wf_def mult.commute)
    hence "unat (capacity mb) \<le> k" using wf by (simp add: mb_wf_def word_less_nat_alt)
    hence "d = 0" "s = 0" using d s by auto
    moreover have "unat (obj_size mb * of_nat k) = 0"
      using True k64 by (simp add: unat_word_ariths unat_of_nat_64 mult.commute)
    hence "jfs_mb_remap m mb (of_nat 0) (of_nat 0) (of_nat k) = m"
      unfolding jfs_mb_remap_def by (simp add: write_bytes_def)
    ultimately show ?thesis by - (rule nth_equalityI; auto)
  next
    case False
    hence len: "unat (obj_size mb * of_nat k) = k * ?s"
      using kk k64 by (simp add: unat_word_ariths unat_of_nat_64 mult.commute)
    show ?thesis unfolding jfs_mb_remap_def mb_index_eq len
      using slot_write_run[OF wf d, of _ "read_bytes m (base_ptr mb + of_nat (s * ?s)) (k * ?s)" m] s
        take_drop_slot[OF s]
      by - (rule nth_equalityI; auto simp del: of_nat_mult)
  qed
qed

section \<open>The bytes of a block\<close>

text \<open>Operations on a block change no byte outside of it.\<close>

definition block_bytes :: "jfs_mb \<Rightarrow> addr set" where
  "block_bytes mb = {a. unat (a - base_ptr mb) < unat (obj_size mb) * unat (capacity mb)}"

definition only_block :: "jfs_mb \<Rightarrow> mem \<Rightarrow> mem \<Rightarrow> bool" where
  "only_block mb m m' \<longleftrightarrow> (\<forall>a. a \<notin> block_bytes mb \<longrightarrow> m' a = m a)"

lemma only_block_refl [simp]: "only_block mb m m"
  by (simp add: only_block_def)

lemma only_block_trans [trans]: "only_block mb m m1 \<Longrightarrow> only_block mb m1 m2 \<Longrightarrow> only_block mb m m2"
  by (simp add: only_block_def)

lemma only_write_run:
  assumes wf: "mb_wf mb" and d: "d + k \<le> unat (capacity mb)" and len: "length bs \<le> k * unat (obj_size mb)"
  shows "only_block mb m (write_bytes m (jfs_mb_index mb (of_nat d)) bs)"
  unfolding only_block_def
proof (intro allI impI)
  fix a assume a: "a \<notin> block_bytes mb"
  let ?s = "unat (obj_size mb)" and ?b = "base_ptr mb"
  have room: "d * ?s + length bs \<le> ?s * unat (capacity mb)"
    using mult_le_mono1[OF d, of ?s] len by (simp add: algebra_simps)
  have ge: "?s * unat (capacity mb) \<le> unat (a - ?b)" using a by (simp add: block_bytes_def)
  hence le: "d * ?s \<le> unat (a - ?b)" "d * ?s < 2 ^ 64" using room unat_lt64[of "a - ?b"] by linarith+
  have "a - jfs_mb_index mb (of_nat d) = (a - ?b) - of_nat (d * ?s)" by (simp add: mb_index_eq algebra_simps)
  also have "unat \<dots> = unat (a - ?b) - d * ?s"
    using le by (subst unat_sub) (simp_all add: word_le_nat_alt unat_of_nat_64 del: of_nat_mult)
  finally have "\<not> unat (a - jfs_mb_index mb (of_nat d)) < length bs" using room ge by linarith
  thus "write_bytes m (jfs_mb_index mb (of_nat d)) bs a = m a" by (simp add: write_bytes_def)
qed

lemma only_write:
  assumes "mb_wf mb" "i < unat (capacity mb)" "length bs \<le> unat (obj_size mb)"
  shows "only_block mb m (write_bytes m (jfs_mb_index mb (of_nat i)) bs)"
  using only_write_run[of mb i 1 bs m] assms by simp

lemma only_mb_write:
  assumes "mb_wf mb" "i < unat (capacity mb)"
  shows "only_block mb m (jfs_mb_write m mb bs (of_nat i))"
  unfolding jfs_mb_write_def using assms by (intro only_write) simp_all

lemma only_remap:
  assumes "mb_wf mb" "d + k \<le> unat (capacity mb)"
  shows "only_block mb m (jfs_mb_remap m mb (of_nat d) i (of_nat k))"
  unfolding jfs_mb_remap_def
proof (rule only_write_run[OF assms])
  have "unat (of_nat k :: size_t) = k" using assms(2) unat_lt64[of "capacity mb"] by (intro unat_of_nat_64) linarith
  thus "length (read_bytes m (jfs_mb_index mb i) (unat (obj_size mb * of_nat k))) \<le> k * unat (obj_size mb)"
    by (simp add: unat_word_ariths mult.commute)
qed

lemma slots_frame:
  assumes wf: "mb_wf mb'" and dis: "block_bytes mb \<inter> block_bytes mb' = {}" and only: "only_block mb m m'"
  shows "slots m' mb' = slots m mb'"
proof (rule nth_equalityI)
  fix i assume "i < length (slots m' mb')"
  hence i: "i < unat (capacity mb')" by simp
  let ?s = "unat (obj_size mb')"
  have "base_ptr mb' + of_nat (i * ?s) + of_nat j \<in> block_bytes mb'" if "j < ?s" for j
  proof -
    have lt: "i * ?s + j < unat (capacity mb') * ?s"
      using that mult_le_mono1[of "Suc i" "unat (capacity mb')" ?s] i by simp
    moreover have "\<dots> \<le> 2 ^ 64" using wf by (simp add: mb_wf_def mult.commute)
    ultimately have "unat (of_nat (i * ?s + j) :: addr) = i * ?s + j" by (intro unat_of_nat_64) linarith
    moreover have "base_ptr mb' + of_nat (i * ?s) + of_nat j - base_ptr mb' = of_nat (i * ?s + j)"
      by (simp add: algebra_simps)
    ultimately show ?thesis using lt by (simp add: block_bytes_def mult.commute del: of_nat_mult of_nat_add)
  qed
  hence "slot m' mb' i = slot m mb' i"
    using only dis unfolding slot_def only_block_def by (intro nth_equalityI) (auto simp del: of_nat_mult)
  thus "slots m' mb' ! i = slots m mb' ! i" using i by simp
qed simp

section \<open>The interface of an object store\<close>

text \<open>
  What a client may rely on: the objects of a well-formed store form a list of fixed length;
  reading, writing and moving objects are the corresponding list operations.
\<close>

locale slot_store =
  fixes rd :: "'m \<Rightarrow> size_t \<Rightarrow> 'b"
    and wr :: "'m \<Rightarrow> 'b \<Rightarrow> size_t \<Rightarrow> 'm"
    and mv :: "'m \<Rightarrow> size_t \<Rightarrow> size_t \<Rightarrow> size_t \<Rightarrow> 'm"
    and view :: "'m \<Rightarrow> 'b list"
    and wf :: "'m \<Rightarrow> bool"
    and fits :: "'m \<Rightarrow> 'b \<Rightarrow> bool"
  assumes rd_view: "wf m \<Longrightarrow> i < length (view m) \<Longrightarrow> rd m (of_nat i) = view m ! i"
    and wr_view: "wf m \<Longrightarrow> i < length (view m) \<Longrightarrow> fits m b \<Longrightarrow> view (wr m b (of_nat i)) = (view m)[i := b]"
    and mv_view: "wf m \<Longrightarrow> d + k \<le> length (view m) \<Longrightarrow> s + k \<le> length (view m) \<Longrightarrow>
      view (mv m (of_nat d) (of_nat s) (of_nat k)) =
      map (\<lambda>j. if d \<le> j \<and> j < d + k then view m ! (s + (j - d)) else view m ! j) [0..<length (view m)]"
    and view_fits: "wf m \<Longrightarrow> i < length (view m) \<Longrightarrow> fits m (view m ! i)"
    and mv_wf: "wf m \<Longrightarrow> wf (mv m d' s' k')"
    and mv_fits: "fits (mv m d' s' k') = fits m"
begin

text \<open>Rotating object \<open>i\<close> to the front, by saving it, moving its predecessors up and writing it back.\<close>

lemma rotate_to_front:
  assumes "wf m" "i < length (view m)"
  shows "view (wr (mv m 1 0 (of_nat i)) (rd m (of_nat i)) 0) =
    view m ! i # take i (view m) @ drop (Suc i) (view m)"
proof -
  let ?v = "view m"
  have v1: "view (mv m (of_nat 1) (of_nat 0) (of_nat i)) =
      map (\<lambda>j. if 1 \<le> j \<and> j < 1 + i then ?v ! (0 + (j - 1)) else ?v ! j) [0..<length ?v]"
    using assms by (intro mv_view) auto
  have "view (wr (mv m 1 0 (of_nat i)) (rd m (of_nat i)) (of_nat 0))
      = (view (mv m 1 0 (of_nat i)))[0 := ?v ! i]"
    using assms v1 view_fits[OF assms] by (subst wr_view) (auto simp: mv_wf mv_fits rd_view)
  also have "\<dots> = ?v ! i # take i ?v @ drop (Suc i) ?v"
    using assms(2) v1 by (intro nth_equalityI) (auto simp: nth_list_update nth_Cons nth_append split: nat.split)
  finally show ?thesis by simp
qed

end

interpretation mb_store: slot_store
  "\<lambda>(m, mb). jfs_mb_read m mb" "\<lambda>(m, mb) b i. (jfs_mb_write m mb b i, mb)"
  "\<lambda>(m, mb) d s k. (jfs_mb_remap m mb d s k, mb)" "\<lambda>(m, mb). slots m mb"
  "\<lambda>(m, mb). mb_wf mb" "\<lambda>(m, mb) b. length b = unat (obj_size mb)"
proof (unfold_locales, goal_cases)
  case (1 m i)
  thus ?case by (auto simp: read_slot)
next
  case (2 m i b)
  thus ?case by (auto simp: write_slot)
next
  case (3 m d k s)
  thus ?case by (auto simp: remap_slots)
qed auto

end
