(* ===== verification/Lru_Cache.thy ===== *)
theory Lru_Cache
  imports Mem_Block
begin

text \<open>
  \<open>src/lru_cache.c\<close>: a move-to-front cache over a memory block.  The user's callbacks are
  parameters: \<open>cmp\<close> compares a key with the contents of a slot, \<open>hit\<close>, \<open>miss\<close> and \<open>evict\<close> change
  the contents of the slot they are given and their context (\<open>'u\<close> is what the caller's
  \<open>user_ctx\<close> points to, \<open>'e\<close> what \<open>evict_ctx\<close> points to).  A callback pointer that is \<open>NULL\<close> is
  \<open>None\<close>; calling it is undefined behaviour.
  The abstract specification is a list of slot contents, most recently used first
  (\<open>spec_access\<close>); \<open>access_refines\<close> shows that the code implements it, and the keys of the
  cached slots are shown to be the most recently used distinct keys.
\<close>

section \<open>Data\<close>

record ('k, 'u, 'e) jfs_lru_fn =
  cmp :: "('k \<Rightarrow> byte list \<Rightarrow> int) option"
  hit :: "(byte list \<Rightarrow> 'u \<Rightarrow> byte list \<times> 'u) option"
  miss :: "(byte list \<Rightarrow> 'u \<Rightarrow> byte list \<times> 'u) option"
  evict :: "(byte list \<Rightarrow> 'e \<Rightarrow> byte list \<times> 'e) option"

record ('k, 'u, 'e) jfs_lru_conf =
  conf_component :: jfs_mlg_component
  conf_fn :: "('k, 'u, 'e) jfs_lru_fn"
  conf_evict_ctx :: 'e

record ('k, 'u, 'e) jfs_lru =
  mb :: jfs_mb
  lru_count :: size_t
  fn :: "('k, 'u, 'e) jfs_lru_fn"
  evict_ctx :: 'e

section \<open>Operations\<close>

definition call_fn :: "'f option \<Rightarrow> ('f \<Rightarrow> 'a run) \<Rightarrow> 'a run" where
  "call_fn f k = (case f of None \<Rightarrow> Fault | Some g \<Rightarrow> k g)"

definition jfs_lru_make_desc ::
  "size_t \<Rightarrow> size_t \<Rightarrow> size_t \<Rightarrow> jcl_err \<Rightarrow> jfs_mlg_desc \<times> jcl_err" where
  "jfs_lru_make_desc o_size o_align o_count err =
     (let d = \<lparr>dsize = o_size, align = o_align, dcount = o_count + 1\<rparr>
      in if \<not> jfs_mlg_valid_desc d then (\<lparr>dsize = 0, align = 0, dcount = 0\<rparr>, JCL_ERR_ARG)
         else (d, err))"

definition lru_valid_fn :: "('k, 'u, 'e) jfs_lru_fn \<Rightarrow> bool" where
  "lru_valid_fn f \<longleftrightarrow> cmp f \<noteq> None \<and> evict f \<noteq> None \<and> hit f \<noteq> None \<and> miss f \<noteq> None"

definition jfs_lru_init ::
  "('k, 'u, 'e) jfs_lru \<Rightarrow> ('k, 'u, 'e) jfs_lru_conf \<Rightarrow> jcl_err \<Rightarrow> ('k, 'u, 'e) jfs_lru \<times> jcl_err" where
  "jfs_lru_init lru_init conf err =
     (if \<not> lru_valid_fn (conf_fn conf) then (lru_init, JCL_ERR_BAD_CONF)
      else case jfs_mb_init (mb lru_init) (conf_component conf) err of (new_mb, err) \<Rightarrow>
        let lru_init = lru_init\<lparr>mb := new_mb\<rparr> in
        if err \<noteq> JCL_OK then (lru_init, err)
        else (lru_init\<lparr>lru_count := 0, fn := conf_fn conf, evict_ctx := conf_evict_ctx conf\<rparr>, err))"

text \<open>The loop of \<open>jfs_lru_free\<close>, with the index and the number of iterations that are left.\<close>

fun lru_evict_from ::
  "nat \<Rightarrow> size_t \<Rightarrow> mem \<Rightarrow> ('k, 'u, 'e) jfs_lru \<Rightarrow> (mem \<times> ('k, 'u, 'e) jfs_lru) run" where
  "lru_evict_from 0 i m lru = Ret (m, lru)"
| "lru_evict_from (Suc n) i m lru =
     call_fn (evict (fn lru)) (\<lambda>ev.
     case ev (jfs_mb_read m (mb lru) i) (evict_ctx lru) of (s, ctx) \<Rightarrow>
     lru_evict_from n (i + 1) (write_bytes m (jfs_mb_index (mb lru) i) s) (lru\<lparr>evict_ctx := ctx\<rparr>))"

definition jfs_lru_free ::
  "mem \<Rightarrow> ('k, 'u, 'e) jfs_lru \<Rightarrow> (mem \<times> ('k, 'u, 'e) jfs_lru) run" where
  "jfs_lru_free m lru_move = lru_evict_from (unat (lru_count lru_move)) 0 m lru_move"

definition lru_promote :: "mem \<Rightarrow> ('k, 'u, 'e) jfs_lru \<Rightarrow> size_t \<Rightarrow> mem" where
  "lru_promote m lru index =
     (let temp_slot = jfs_mb_read m (mb lru) index;
          m = jfs_mb_remap m (mb lru) 1 0 index
      in jfs_mb_write m (mb lru) temp_slot 0)"

text \<open>The search loop of \<open>jfs_lru_access\<close>: the index of the first slot that compares equal.\<close>

fun lru_search :: "nat \<Rightarrow> size_t \<Rightarrow> mem \<Rightarrow> ('k, 'u, 'e) jfs_lru \<Rightarrow> 'k \<Rightarrow> size_t option run" where
  "lru_search 0 i m lru key = Ret None"
| "lru_search (Suc n) i m lru key =
     call_fn (cmp (fn lru)) (\<lambda>c.
     if c key (jfs_mb_read m (mb lru) i) = 0 then Ret (Some i)
     else lru_search n (i + 1) m lru key)"

definition jfs_lru_access ::
  "mem \<Rightarrow> ('k, 'u, 'e) jfs_lru \<Rightarrow> 'k \<Rightarrow> 'u \<Rightarrow> (mem \<times> ('k, 'u, 'e) jfs_lru \<times> 'u) run" where
  "jfs_lru_access m lru key user_ctx =
     run_bind (lru_search (unat (lru_count lru)) 0 m lru key) (\<lambda>found.
     case found of
       Some i \<Rightarrow>
         call_fn (hit (fn lru)) (\<lambda>h.
         case h (jfs_mb_read m (mb lru) i) user_ctx of (s, user_ctx) \<Rightarrow>
         let m = write_bytes m (jfs_mb_index (mb lru) i) s;
             m = (if i \<noteq> 0 then lru_promote m lru i else m)
         in Ret (m, lru, user_ctx))
     | None \<Rightarrow>
         run_bind
           (if lru_count lru < capacity (mb lru)
            then Ret (m, lru\<lparr>lru_count := lru_count lru + 1\<rparr>, lru_count lru)
            else assert_c (lru_count lru = capacity (mb lru))
              (call_fn (evict (fn lru)) (\<lambda>ev.
               case ev (jfs_mb_read m (mb lru) (lru_count lru - 1)) (evict_ctx lru) of (s, ctx) \<Rightarrow>
               Ret (write_bytes m (jfs_mb_index (mb lru) (lru_count lru - 1)) s,
                    lru\<lparr>evict_ctx := ctx\<rparr>, lru_count lru - 1))))
           (\<lambda>(m, lru, slot_index).
            call_fn (miss (fn lru)) (\<lambda>ms.
            case ms (jfs_mb_read m (mb lru) slot_index) user_ctx of (s, user_ctx) \<Rightarrow>
            let m = write_bytes m (jfs_mb_index (mb lru) slot_index) s
            in Ret (lru_promote m lru (lru_count lru - 1), lru, user_ctx))))"

section \<open>Specification\<close>

fun index_of :: "('a \<Rightarrow> bool) \<Rightarrow> 'a list \<Rightarrow> nat option" where
  "index_of P [] = None"
| "index_of P (x # xs) = (if P x then Some 0 else map_option Suc (index_of P xs))"

definition spec_access ::
  "('k, 'u, 'e) jfs_lru_fn \<Rightarrow> nat \<Rightarrow> byte list \<Rightarrow> 'k \<Rightarrow> byte list list \<times> 'u \<times> 'e \<Rightarrow> byte list list \<times> 'u \<times> 'e" where
  "spec_access f cap unused key st = (case st of (xs, u, e) \<Rightarrow>
     case index_of (\<lambda>x. the (cmp f) key x = 0) xs of
       Some i \<Rightarrow> (case the (hit f) (xs ! i) u of (x, u) \<Rightarrow> (x # take i xs @ drop (Suc i) xs, u, e))
     | None \<Rightarrow>
         if length xs < cap then (case the (miss f) unused u of (x, u) \<Rightarrow> (x # xs, u, e))
         else (case the (evict f) (last xs) e of (y, e) \<Rightarrow>
               case the (miss f) y u of (x, u) \<Rightarrow> (x # butlast xs, u, e)))"

text \<open>Callbacks stay inside the slot they are given.\<close>

definition fn_ok :: "nat \<Rightarrow> ('k, 'u, 'e) jfs_lru_fn \<Rightarrow> bool" where
  "fn_ok s f \<longleftrightarrow> lru_valid_fn f \<and>
     (\<forall>x u. length x = s \<longrightarrow> length (fst (the (hit f) x u)) = s) \<and>
     (\<forall>x u. length x = s \<longrightarrow> length (fst (the (miss f) x u)) = s) \<and>
     (\<forall>x e. length x = s \<longrightarrow> length (fst (the (evict f) x e)) = s)"

definition lru_wf :: "('k, 'u, 'e) jfs_lru \<Rightarrow> bool" where
  "lru_wf lru \<longleftrightarrow> mb_wf (mb lru) \<and> 0 < capacity (mb lru) \<and> lru_count lru \<le> capacity (mb lru)
     \<and> fn_ok (unat (obj_size (mb lru))) (fn lru)"

definition cached :: "mem \<Rightarrow> ('k, 'u, 'e) jfs_lru \<Rightarrow> byte list list" where
  "cached m lru = take (unat (lru_count lru)) (slots m (mb lru))"

lemma index_of_Some: "index_of P xs = Some i \<Longrightarrow> i < length xs \<and> P (xs ! i) \<and> (\<forall>j<i. \<not> P (xs ! j))"
  by (induction xs arbitrary: i) (auto split: if_splits simp: less_Suc_eq_0_disj)

lemma index_of_None: "index_of P xs = None \<longleftrightarrow> (\<forall>x\<in>set xs. \<not> P x)"
  by (induction xs) auto

section \<open>The code implements the specification\<close>

lemma of_nat_add_one: "(of_nat i :: size_t) + 1 = of_nat (Suc i)"
  by simp

lemma search_spec:
  assumes "cmp (fn lru) = Some c" "i + n \<le> unat (capacity (mb lru))"
  shows "lru_search n (of_nat i) m lru key =
    Ret (map_option (\<lambda>j. of_nat (i + j)) (index_of (\<lambda>x. c key x = 0) (take n (drop i (slots m (mb lru))))))"
  using assms
proof (induction n arbitrary: i)
  case (Suc n)
  let ?v = "slots m (mb lru)"
  have i: "i < length ?v" using Suc.prems by simp
  have split: "take (Suc n) (drop i ?v) = ?v ! i # take n (drop (Suc i) ?v)"
    using i by (metis Cons_nth_drop_Suc take_Suc_Cons)
  have "lru_search n (of_nat (Suc i)) m lru key =
      Ret (map_option (\<lambda>j. of_nat (Suc i + j)) (index_of (\<lambda>x. c key x = 0) (take n (drop (Suc i) ?v))))"
    using Suc by (intro Suc.IH) auto
  thus ?case unfolding split using Suc.prems i
    by (simp add: call_fn_def read_slot of_nat_add_one option.map_comp o_def del: of_nat_Suc)
      (simp add: ac_simps)
qed simp

lemma write_back:
  assumes "mb_wf b" "i < unat (capacity b)" "length s = unat (obj_size b)"
  shows "slots (write_bytes m (jfs_mb_index b (of_nat i)) s) b = (slots m b)[i := s]"
  using write_slot[OF assms, of m] assms(3) by (simp add: jfs_mb_write_def)

lemma promote_slots:
  assumes "mb_wf (mb lru)" "i < unat (capacity (mb lru))"
  shows "slots (lru_promote m lru (of_nat i)) (mb lru) =
    slots m (mb lru) ! i # take i (slots m (mb lru)) @ drop (Suc i) (slots m (mb lru))"
  using mb_store.rotate_to_front[of "(m, mb lru)" i] assms by (simp add: lru_promote_def Let_def)

lemma lru_wf_count: "lru_wf lru \<Longrightarrow> lru_count lru = of_nat (unat (lru_count lru)) \<and>
    unat (lru_count lru) \<le> unat (capacity (mb lru)) \<and> 0 < unat (capacity (mb lru))"
  by (auto simp: lru_wf_def word_le_nat_alt word_less_nat_alt)

lemma take_update_front:
  assumes "i < c" "c \<le> length v"
  shows "take c (v[i := x] ! i # take i (v[i := x]) @ drop (Suc i) (v[i := x]))
    = x # take i (take c v) @ drop (Suc i) (take c v)"
  using assms by (intro nth_equalityI) (auto simp: nth_Cons nth_append nth_list_update split: nat.split)

lemma only_promote:
  assumes "mb_wf (mb lru)" "i < unat (capacity (mb lru))"
  shows "only_block (mb lru) m (lru_promote m lru (of_nat i))"
  unfolding lru_promote_def Let_def
  using only_block_trans[OF only_remap[of "mb lru" 1 i m 0] only_mb_write[of "mb lru" 0]] assms by simp

text \<open>Filling slot \<open>i\<close> and promoting it, as the hit and the miss path do.\<close>

lemma fill_promote:
  assumes "lru_wf lru" "i < unat (capacity (mb lru))" "length x = unat (obj_size (mb lru))" "i < c" "c \<le> unat (capacity (mb lru))"
  shows "take c (slots (lru_promote (write_bytes m (jfs_mb_index (mb lru) (of_nat i)) x) lru (of_nat i)) (mb lru))
    = x # take i (take c (slots m (mb lru))) @ drop (Suc i) (take c (slots m (mb lru)))"
  using assms take_update_front[of i c "slots m (mb lru)" x]
  by (simp add: lru_wf_def promote_slots write_back)

lemma only_fill_promote:
  assumes "lru_wf lru" "i < unat (capacity (mb lru))" "length x = unat (obj_size (mb lru))"
  shows "only_block (mb lru) m (lru_promote (write_bytes m (jfs_mb_index (mb lru) (of_nat i)) x) lru (of_nat i))"
  by (rule only_block_trans[OF only_write only_promote]) (use assms in \<open>simp_all add: lru_wf_def\<close>)

lemma search_cached:
  assumes "lru_wf lru"
  shows "lru_search (unat (lru_count lru)) 0 m lru key =
    Ret (map_option of_nat (index_of (\<lambda>x. the (cmp (fn lru)) key x = 0) (cached m lru)))"
proof -
  obtain cm where "cmp (fn lru) = Some cm" using assms by (auto simp: lru_wf_def fn_ok_def lru_valid_fn_def)
  thus ?thesis using search_spec[of lru cm 0 "unat (lru_count lru)" m key] lru_wf_count[OF assms]
    by (simp add: cached_def)
qed

lemma fn_ok_length:
  assumes "fn_ok s f" "length x = s"
  shows "the (hit f) x u = (y, u') \<Longrightarrow> length y = s" and "the (miss f) x u = (y, u') \<Longrightarrow> length y = s"
    and "the (evict f) x e = (y, e') \<Longrightarrow> length y = s"
  using assms by (auto simp: fn_ok_def dest!: spec[of _ x] arg_cong[where f = fst])

lemma call_valid:
  assumes "lru_wf lru"
  shows "call_fn (hit (fn lru)) k = k (the (hit (fn lru)))" "call_fn (miss (fn lru)) k = k (the (miss (fn lru)))"
    and "call_fn (evict (fn lru)) l = l (the (evict (fn lru)))"
  using assms by (auto simp: lru_wf_def fn_ok_def lru_valid_fn_def call_fn_def)

lemma access_hit:
  assumes wf: "lru_wf lru" and idx: "index_of (\<lambda>x. the (cmp (fn lru)) key x = 0) (cached m lru) = Some i"
    and x: "the (hit (fn lru)) (cached m lru ! i) u = (x, u')"
  shows "\<exists>m'. jfs_lru_access m lru key u = Ret (m', lru, u')
    \<and> cached m' lru = x # take i (cached m lru) @ drop (Suc i) (cached m lru) \<and> only_block (mb lru) m m'"
proof -
  let ?v = "slots m (mb lru)" and ?c = "unat (lru_count lru)"
  have c: "?c \<le> unat (capacity (mb lru))" using lru_wf_count[OF wf] by blast
  have i: "i < ?c" "i < unat (capacity (mb lru))" using index_of_Some[OF idx] c by (auto simp: cached_def)
  have nth: "cached m lru ! i = slot m (mb lru) i" using i by (simp add: cached_def)
  have mwf: "mb_wf (mb lru)" and fok: "fn_ok (unat (obj_size (mb lru))) (fn lru)" using wf by (auto simp: lru_wf_def)
  have lx: "length x = unat (obj_size (mb lru))" using fn_ok_length(1)[OF fok _ x] nth by simp
  let ?m1 = "write_bytes m (jfs_mb_index (mb lru) (of_nat i)) x"
  let ?m2 = "if (of_nat i :: size_t) \<noteq> 0 then lru_promote ?m1 lru (of_nat i) else ?m1"
  have i0: "(of_nat i :: size_t) = 0 \<longleftrightarrow> i = 0"
    by (rule unat_0_iff[of "of_nat i :: size_t", unfolded unat_of_nat_size[OF i(2)], symmetric])
  have "take ?c (slots ?m2 (mb lru)) = x # take i (take ?c ?v) @ drop (Suc i) (take ?c ?v)"
  proof (cases "i = 0")
    case True
    have "slots ?m1 (mb lru) = ?v[0 := x]" using write_back[OF mwf i(2) lx, of m] True by simp
    thus ?thesis using True i i0 by (cases ?v) (auto simp: take_Cons' drop_Cons' dest: slots_Nil_iff[THEN iffD1])
  next
    case False
    thus ?thesis using fill_promote[OF wf i(2) lx i(1) c, of m] i0 by simp
  qed
  moreover have "jfs_lru_access m lru key u = Ret (?m2, lru, u')"
    using x nth i by (simp add: jfs_lru_access_def search_cached[OF wf] idx call_valid[OF wf] Let_def read_slot)
  moreover have "only_block (mb lru) m ?m2"
    using only_fill_promote[OF wf i(2) lx, of m] only_write[OF mwf i(2), of x m] lx by (cases "i = 0") (simp_all add: i0)
  ultimately show ?thesis by (simp add: cached_def)
qed

lemma access_room:
  assumes wf: "lru_wf lru" and idx: "index_of (\<lambda>x. the (cmp (fn lru)) key x = 0) (cached m lru) = None"
    and room: "lru_count lru < capacity (mb lru)"
    and x: "the (miss (fn lru)) (slot m (mb lru) (unat (lru_count lru))) u = (x, u')"
  defines "lru' \<equiv> lru\<lparr>lru_count := lru_count lru + 1\<rparr>"
  shows "\<exists>m'. jfs_lru_access m lru key u = Ret (m', lru', u') \<and> lru_wf lru' \<and> cached m' lru' = x # cached m lru
    \<and> only_block (mb lru) m m'"
proof -
  let ?c = "unat (lru_count lru)"
  have c: "?c < unat (capacity (mb lru))" "lru_count lru = of_nat ?c" using room by (auto simp: word_less_nat_alt)
  have fok: "fn_ok (unat (obj_size (mb lru))) (fn lru)" using wf by (auto simp: lru_wf_def)
  have lx: "length x = unat (obj_size (mb lru))" using fn_ok_length(2)[OF fok _ x] by simp
  have c1: "unat (lru_count lru + 1) = Suc ?c"
    using c(1) unat_lt64[of "capacity (mb lru)"] unat_add_lem[of "lru_count lru" 1] by simp
  have wfl: "lru_wf lru'" using wf c1 c(1) by (simp add: lru_wf_def lru'_def word_le_nat_alt)
  let ?m2 = "lru_promote (write_bytes m (jfs_mb_index (mb lru) (of_nat ?c)) x) lru' (of_nat ?c)"
  have "take (Suc ?c) (slots ?m2 (mb lru)) = x # take ?c (slots m (mb lru))"
    using fill_promote[OF wfl, of ?c x "Suc ?c" m] c(1) lx by (simp add: lru'_def)
  moreover have "jfs_lru_access m lru key u = Ret (?m2, lru', u')"
    using x room c read_slot[OF c(1), of m]
    by (simp add: jfs_lru_access_def search_cached[OF wf] idx Let_def lru'_def call_valid[OF wf])
  moreover have "only_block (mb lru) m ?m2" using only_fill_promote[OF wfl, of ?c x m] c(1) lx by (simp add: lru'_def)
  ultimately show ?thesis using wfl c1 by (simp add: cached_def lru'_def)
qed

lemma access_full:
  assumes wf: "lru_wf lru" and idx: "index_of (\<lambda>x. the (cmp (fn lru)) key x = 0) (cached m lru) = None"
    and full: "\<not> lru_count lru < capacity (mb lru)"
    and y: "the (evict (fn lru)) (last (cached m lru)) (evict_ctx lru) = (y, e')"
    and x: "the (miss (fn lru)) y u = (x, u')"
  defines "lru' \<equiv> lru\<lparr>evict_ctx := e'\<rparr>"
  shows "\<exists>m'. jfs_lru_access m lru key u = Ret (m', lru', u') \<and> lru_wf lru' \<and> cached m' lru' = x # butlast (cached m lru)
    \<and> only_block (mb lru) m m'"
proof -
  let ?v = "slots m (mb lru)" and ?c = "unat (capacity (mb lru))"
  have eq: "lru_count lru = capacity (mb lru)" using full wf by (simp add: lru_wf_def)
  have c0: "0 < ?c" using lru_wf_count[OF wf] by blast
  define j where "j = ?c - 1"
  have ix: "capacity (mb lru) - 1 = of_nat j" "j < ?c" using c0 by (auto simp: j_def of_nat_diff)
  have fok: "fn_ok (unat (obj_size (mb lru))) (fn lru)" and mwf: "mb_wf (mb lru)" using wf by (auto simp: lru_wf_def)
  have all: "cached m lru = ?v" by (simp add: cached_def eq)
  have lst: "last ?v = ?v ! j" using c0 unfolding j_def by (subst last_conv_nth) auto
  have ly: "length y = unat (obj_size (mb lru))" using fn_ok_length(3)[OF fok _ y] all lst ix by simp
  have lx: "length x = unat (obj_size (mb lru))" using fn_ok_length(2)[OF fok ly x] .
  have wfl: "lru_wf lru'" using wf by (simp add: lru_wf_def lru'_def)
  let ?m1 = "write_bytes m (jfs_mb_index (mb lru) (of_nat j)) y"
  let ?m2 = "lru_promote (write_bytes ?m1 (jfs_mb_index (mb lru) (of_nat j)) x) lru' (of_nat j)"
  have s1: "slots ?m1 (mb lru) = ?v[j := y]" using mwf ix(2) ly by (rule write_back)
  have sc: "lru_search ?c 0 m lru key = Ret None" using search_cached[OF wf, of m key] idx eq by simp
  have "take ?c (slots ?m2 (mb lru)) = x # butlast ?v"
  proof -
    have "Suc j = ?c" and bl: "butlast ?v = take j ?v" using c0 by (simp_all add: j_def butlast_conv_take)
    have "take ?c (slots ?m2 (mb lru)) = x # take j (take ?c (?v[j := y])) @ drop (Suc j) (take ?c (?v[j := y]))"
      using fill_promote[OF wfl, of j x ?c ?m1] lx s1 ix(2) by (simp add: lru'_def)
    thus ?thesis unfolding bl using ix(2) by (simp add: \<open>Suc j = ?c\<close>)
  qed
  moreover have rd: "jfs_mb_read m (mb lru) (of_nat j) = last (cached m lru)" "jfs_mb_read ?m1 (mb lru) (of_nat j) = y"
    unfolding read_slot[OF ix(2)] s1 all lst using ix by simp_all
  have "jfs_lru_access m lru key u = Ret (?m2, lru', u')"
    unfolding jfs_lru_access_def
    by (simp add: Let_def lru'_def call_valid[OF wf] eq rd x y ix(1) sc)
  moreover have "only_block (mb lru) m ?m2"
    using only_block_trans[OF only_write[OF mwf ix(2), of y m] only_fill_promote[OF wfl, of j x ?m1, simplified lru'_def, simplified]]
      ix(2) lx ly by (simp add: lru'_def)
  ultimately show ?thesis using wfl eq all by (simp add: cached_def lru'_def)
qed

lemma access_refines_aux:
  assumes wf: "lru_wf lru"
  shows "\<exists>m' lru' u'. jfs_lru_access m lru key u = Ret (m', lru', u')
    \<and> lru_wf lru' \<and> mb lru' = mb lru \<and> fn lru' = fn lru \<and> only_block (mb lru) m m'
    \<and> (cached m' lru', u', evict_ctx lru') =
        spec_access (fn lru) (unat (capacity (mb lru))) (slot m (mb lru) (unat (lru_count lru))) key
          (cached m lru, u, evict_ctx lru)"
proof (cases "index_of (\<lambda>x. the (cmp (fn lru)) key x = 0) (cached m lru)")
  case (Some i)
  obtain x u' where x: "the (hit (fn lru)) (cached m lru ! i) u = (x, u')" by fastforce
  show ?thesis using access_hit[OF wf Some x] wf Some x by (auto simp: spec_access_def)
next
  case None
  have len: "length (cached m lru) < unat (capacity (mb lru)) \<longleftrightarrow> lru_count lru < capacity (mb lru)"
    using lru_wf_count[OF wf] by (simp add: cached_def word_less_nat_alt)
  show ?thesis
  proof (cases "lru_count lru < capacity (mb lru)")
    case True
    obtain x u' where x: "the (miss (fn lru)) (slot m (mb lru) (unat (lru_count lru))) u = (x, u')" by fastforce
    show ?thesis using access_room[OF wf None True x] None x True len by (auto simp: spec_access_def)
  next
    case False
    obtain y e' where y: "the (evict (fn lru)) (last (cached m lru)) (evict_ctx lru) = (y, e')" by fastforce
    obtain x u' where x: "the (miss (fn lru)) y u = (x, u')" by fastforce
    show ?thesis using access_full[OF wf None False y x] None x y False len by (auto simp: spec_access_def)
  qed
qed

text \<open>
  C5. \<open>jfs_lru_access\<close> implements the list specification: on a well-formed cache it always
  returns (the assertion on the full path never fires and no callback is missing), the cached
  slots, the caller's context and the eviction context become exactly what \<open>spec_access\<close> says, no
  byte outside of the memory block changes, and the cache stays well-formed over the same block.
\<close>

theorem access_refines:
  assumes wf: "lru_wf lru"
  shows "\<exists>m' lru' u'. jfs_lru_access m lru key u = Ret (m', lru', u')
    \<and> lru_wf lru' \<and> mb lru' = mb lru \<and> fn lru' = fn lru \<and> only_block (mb lru) m m'
    \<and> (cached m' lru', u', evict_ctx lru') =
        spec_access (fn lru) (unat (capacity (mb lru))) (slot m (mb lru) (unat (lru_count lru))) key
          (cached m lru, u, evict_ctx lru)"
  using access_refines_aux[OF wf] .

section \<open>Least recently used\<close>

text \<open>
  What a sensible set of callbacks does: every slot content has a key, \<open>cmp\<close> returns 0 exactly on
  that key, \<open>hit\<close> keeps the key of the slot and \<open>miss\<close> fills the slot for the key that was asked
  for (the caller passes that key through \<open>user_ctx\<close>, here \<open>key_of_ctx\<close>).
\<close>

definition keyed ::
  "nat \<Rightarrow> (byte list \<Rightarrow> 'k) \<Rightarrow> ('u \<Rightarrow> 'k) \<Rightarrow> ('k, 'u, 'e) jfs_lru_fn \<Rightarrow> bool" where
  "keyed s key_of key_of_ctx f \<longleftrightarrow>
     (\<forall>k x. length x = s \<longrightarrow> (the (cmp f) k x = 0 \<longleftrightarrow> key_of x = k)) \<and>
     (\<forall>x u. length x = s \<longrightarrow> key_of (fst (the (hit f) x u)) = key_of x) \<and>
     (\<forall>x u. length x = s \<longrightarrow> key_of (fst (the (miss f) x u)) = key_of_ctx u)"

text \<open>The recency list: the distinct keys of an access sequence, most recent first.\<close>

definition recency :: "'k list \<Rightarrow> 'k list" where
  "recency ks = rev (remdups ks)"

lemma remdups_snoc: "remdups (ks @ [k]) = removeAll k (remdups ks) @ [k]"
  by (induction ks) auto

lemma recency_snoc: "recency (ks @ [k]) = k # removeAll k (recency ks)"
  by (simp add: recency_def remdups_snoc removeAll_filter_not_eq rev_filter)

lemma distinct_recency [simp]: "distinct (recency ks)"
  by (simp add: recency_def)

lemma take_cons_removeAll:
  assumes "distinct L" "0 < n"
  shows "take n (k # removeAll k (take n L)) = take n (k # removeAll k L)"
proof -
  obtain n' where n: "n = Suc n'" using assms(2) by (cases n) auto
  have "take n' (removeAll k (take (Suc n') L)) = take n' (removeAll k L)" if "distinct L" for L
    using that
  proof (induction n' arbitrary: L)
    case (Suc n')
    show ?case
    proof (cases L)
      case (Cons a as)
      hence "a \<notin> set (take (Suc n') as)" using Suc.prems by (auto dest: in_set_takeD)
      thus ?thesis using Suc Cons by auto
    qed simp
  qed simp
  thus ?thesis using n assms(1) by simp
qed

text \<open>At the level of keys, an access moves the key to the front and cuts the list at the capacity.\<close>

lemma removeAll_nth:
  assumes "distinct ks" "i < length ks"
  shows "removeAll (ks ! i) ks = take i ks @ drop (Suc i) ks"
proof -
  have "ks = take i ks @ ks ! i # drop (Suc i) ks" using assms(2) by (simp add: id_take_nth_drop)
  moreover have "ks ! i \<notin> set (take i ks)" "ks ! i \<notin> set (drop (Suc i) ks)"
    using assms by (metis distinct_append calculation disjoint_insert(1) distinct.simps(2) list.simps(15))+
  ultimately show ?thesis by (metis removeAll.simps(2) removeAll_append removeAll_id)
qed

lemma keyed_callbacks:
  assumes "keyed s key_of key_of_ctx f" "length x = s"
  shows "the (hit f) x u = (y, u') \<Longrightarrow> key_of y = key_of x" and "the (miss f) x u = (y, u') \<Longrightarrow> key_of y = key_of_ctx u"
    and "the (cmp f) k x = 0 \<longleftrightarrow> key_of x = k"
  using assms unfolding keyed_def by (metis fst_conv)+

lemma map_spec_keys:
  assumes kd: "keyed s key_of key_of_ctx f" and len: "\<forall>x\<in>set xs. length x = s" "length unused = s"
    and fok: "fn_ok s f" and dist: "distinct (map key_of xs)" and u: "key_of_ctx u = key"
    and cap: "length xs \<le> cap" "0 < cap"
    and r: "spec_access f cap unused key (xs, u, e) = (xs', u', e')"
  shows "map key_of xs' = take cap (key # removeAll key (map key_of xs)) \<and> (\<forall>x\<in>set xs'. length x = s)"
proof (cases "index_of (\<lambda>x. the (cmp f) key x = 0) xs")
  case (Some i)
  have i: "i < length xs" "the (cmp f) key (xs ! i) = 0" using index_of_Some[OF Some] by auto
  have ki: "key_of (xs ! i) = key" using kd i len by (auto simp: keyed_def)
  have k: "removeAll key (map key_of xs) = take i (map key_of xs) @ drop (Suc i) (map key_of xs)"
    using removeAll_nth[OF dist, of i] i ki by simp
  obtain x where x: "the (hit f) (xs ! i) u = (x, u')" using r Some by (auto simp: spec_access_def split: prod.splits)
  have "key_of x = key" "length x = s"
    using keyed_callbacks(1)[OF kd _ x] fn_ok_length(1)[OF fok _ x] i len ki by auto
  moreover have "xs' = x # take i xs @ drop (Suc i) xs" using r Some x by (simp add: spec_access_def)
  ultimately show ?thesis using k i cap len
    by (auto simp: take_map drop_map dest: in_set_takeD in_set_dropD)
next
  case None
  hence nk: "key \<notin> key_of ` set xs" using kd len by (auto simp: index_of_None keyed_def)
  show ?thesis
  proof (cases "length xs < cap")
    case True
    obtain x where x: "the (miss f) unused u = (x, u')" "xs' = x # xs"
      using r None True by (auto simp: spec_access_def split: prod.splits)
    have "key_of x = key" "length x = s"
      using keyed_callbacks(2)[OF kd len(2) x(1)] fn_ok_length(2)[OF fok len(2) x(1)] u by auto
    thus ?thesis using nk x True len by simp
  next
    case False
    obtain y x where y: "the (evict f) (last xs) e = (y, e')" and x: "the (miss f) y u = (x, u')" "xs' = x # butlast xs"
      using r None False by (auto simp: spec_access_def split: prod.splits)
    have "xs \<noteq> []" using False cap by auto
    hence ly: "length y = s" using fok len y by (intro fn_ok_length(3)[OF fok _ y]) auto
    have "key_of x = key" "length x = s"
      using keyed_callbacks(2)[OF kd ly x(1)] fn_ok_length(2)[OF fok ly x(1)] u by auto
    moreover have "length xs = cap" using False cap by simp
    ultimately show ?thesis using nk x len \<open>xs \<noteq> []\<close> cap
      by (auto simp: butlast_conv_take take_Cons' take_map dest: in_set_takeD)
  qed
qed

text \<open>A sequence of accesses; each one comes with its key and the context for that key.\<close>

fun lru_run ::
  "mem \<Rightarrow> ('k, 'u, 'e) jfs_lru \<Rightarrow> ('k \<times> 'u) list \<Rightarrow> (mem \<times> ('k, 'u, 'e) jfs_lru) run" where
  "lru_run m lru [] = Ret (m, lru)"
| "lru_run m lru ((key, u) # rest) =
     run_bind (jfs_lru_access m lru key u) (\<lambda>(m, lru, _). lru_run m lru rest)"

lemma access_keys:
  assumes wf: "lru_wf lru" and kd: "keyed (unat (obj_size (mb lru))) key_of key_of_ctx (fn lru)" and u: "key_of_ctx u = k"
    and ks: "map key_of (cached m lru) = take (unat (capacity (mb lru))) (recency ks)"
  shows "\<exists>m' lru' u'. jfs_lru_access m lru k u = Ret (m', lru', u') \<and> lru_wf lru' \<and> mb lru' = mb lru \<and> fn lru' = fn lru
    \<and> only_block (mb lru) m m' \<and> map key_of (cached m' lru') = take (unat (capacity (mb lru))) (recency (ks @ [k]))"
proof -
  let ?cap = "unat (capacity (mb lru))" and ?s = "unat (obj_size (mb lru))"
  have cap0: "0 < ?cap" using lru_wf_count[OF wf] by blast
  obtain m' lru' u' where acc: "jfs_lru_access m lru k u = Ret (m', lru', u')" "lru_wf lru'" "mb lru' = mb lru" "fn lru' = fn lru"
    and only: "only_block (mb lru) m m'"
    and sp: "spec_access (fn lru) ?cap (slot m (mb lru) (unat (lru_count lru))) k (cached m lru, u, evict_ctx lru)
      = (cached m' lru', u', evict_ctx lru')"
    using access_refines_aux[OF wf, of m k u] by metis
  have lens: "\<forall>x\<in>set (cached m lru). length x = ?s" by (auto simp: cached_def slots_def dest!: in_set_takeD)
  have fok: "fn_ok ?s (fn lru)" using wf by (simp add: lru_wf_def)
  have dist: "distinct (map key_of (cached m lru))" unfolding ks by simp
  have lc: "length (cached m lru) \<le> ?cap" by (simp add: cached_def)
  have "map key_of (cached m' lru') = take ?cap (k # removeAll k (map key_of (cached m lru)))"
    using map_spec_keys[OF kd lens _ fok dist u lc cap0 sp] by auto
  also have "\<dots> = take ?cap (recency (ks @ [k]))"
    unfolding ks recency_snoc using cap0 by (intro take_cons_removeAll) auto
  finally show ?thesis using acc only by blast
qed

lemma lru_run_keys:
  assumes "lru_wf lru" "keyed (unat (obj_size (mb lru))) key_of key_of_ctx (fn lru)"
    and "\<forall>(k, u)\<in>set accs. key_of_ctx u = k"
    and "map key_of (cached m lru) = take (unat (capacity (mb lru))) (recency ks)"
  shows "\<exists>m' lru'. lru_run m lru accs = Ret (m', lru') \<and> lru_wf lru' \<and> mb lru' = mb lru
    \<and> map key_of (cached m' lru') = take (unat (capacity (mb lru))) (recency (ks @ map fst accs))"
  using assms
proof (induction accs arbitrary: m lru ks)
  case (Cons a accs)
  obtain k u where a: "a = (k, u)" by fastforce
  hence u: "key_of_ctx u = k" using Cons.prems(3) by simp
  obtain m' lru' u' where acc: "jfs_lru_access m lru k u = Ret (m', lru', u')" "lru_wf lru'" "mb lru' = mb lru" "fn lru' = fn lru"
    and keys: "map key_of (cached m' lru') = take (unat (capacity (mb lru'))) (recency (ks @ [k]))"
    using access_keys[OF Cons.prems(1,2) u Cons.prems(4)] by metis
  show ?case using Cons.IH[OF acc(2) _ _ keys] Cons.prems(2,3) acc a by auto
qed auto

text \<open>A concrete cache for the witnesses: one-byte objects that are their own keys; evictions are logged.\<close>

definition demo_fn :: "(byte, byte, byte list list) jfs_lru_fn" where
  "demo_fn = \<lparr>cmp = Some (\<lambda>k x. if x = [k] then 0 else 1), hit = Some (\<lambda>x u. (x, u)),
     miss = Some (\<lambda>x u. ([u], u)), evict = Some (\<lambda>x e. (x, e @ [x]))\<rparr>"

definition demo_lru :: "(byte, byte, byte list list) jfs_lru" where
  "demo_lru = \<lparr>mb = \<lparr>base_ptr = 4096, obj_size = 1, capacity = 2\<rparr>, lru_count = 0, fn = demo_fn, evict_ctx = []\<rparr>"

lemma demo_keyed: "keyed (unat (1::size_t)) hd (\<lambda>u. u) demo_fn"
  by (auto simp: keyed_def demo_fn_def length_Suc_conv)

lemma demo_fn_ok: "fn_ok (unat (1::size_t)) demo_fn"
  by (simp add: fn_ok_def demo_fn_def lru_valid_fn_def)

lemma demo_wf: "lru_wf demo_lru"
  using demo_fn_ok by (simp add: lru_wf_def demo_lru_def mb_wf_def)

theorem access_refines_witness:
  "\<exists>m' lru' u'. jfs_lru_access (\<lambda>_. 0) demo_lru 7 7 = Ret (m', lru', u') \<and> cached m' lru' = [[7]]"
  using access_refines[OF demo_wf, of "\<lambda>_. 0" 7 7]
  by (auto simp: spec_access_def demo_lru_def demo_fn_def cached_def)

lemma lru_init_ok:
  assumes v: "jfs_mlg_valid_component (conf_component conf)" and ext: "extent (desc (conf_component conf)) \<le> 2 ^ 64"
    and fok: "fn_ok (unat (dsize (desc (conf_component conf)))) (conf_fn conf)"
  shows "\<exists>lru. jfs_lru_init l0 conf JCL_OK = (lru, JCL_OK) \<and> lru_wf lru \<and> lru_count lru = 0 \<and> fn lru = conf_fn conf
    \<and> evict_ctx lru = conf_evict_ctx conf
    \<and> mb lru = \<lparr>base_ptr = ptr (conf_component conf), obj_size = dsize (desc (conf_component conf)),
                capacity = dcount (desc (conf_component conf))\<rparr>"
  using assms by (auto simp: jfs_lru_init_def jfs_mb_init_def Let_def fn_ok_def lru_wf_def mb_wf_def extent_def
      jfs_mlg_valid_component_def jfs_mlg_valid_desc_def)

text \<open>
  The extra slot that \<open>jfs_lru_make_desc\<close> reserves is not kept free for \<open>lru_promote\<close>: a cache
  made for \<open>n\<close> objects keeps the \<open>n + 1\<close> most recently used keys.
\<close>

theorem lru_holds_one_more:
  assumes "jfs_lru_make_desc o_size o_align n JCL_OK = (d, JCL_OK)"
    and "jfs_lru_init l0 conf JCL_OK = (lru, JCL_OK)" and "desc (conf_component conf) = d"
    and "unat o_size * (unat n + 1) \<le> 2 ^ 64" and "fn_ok (unat o_size) (conf_fn conf)"
    and "keyed (unat o_size) key_of key_of_ctx (conf_fn conf)" and "\<forall>(k, u)\<in>set accs. key_of_ctx u = k"
  shows "\<exists>m' lru'. lru_run m lru accs = Ret (m', lru')
    \<and> map key_of (cached m' lru') = take (unat n + 1) (recency (map fst accs))"
proof -
  have d: "d = \<lparr>dsize = o_size, align = o_align, dcount = n + 1\<rparr>" "jfs_mlg_valid_desc d"
    using assms(1) by (auto simp: jfs_lru_make_desc_def Let_def split: if_splits)
  hence "n + 1 \<noteq> 0" by (auto simp: jfs_mlg_valid_desc_def)
  hence n1: "unat (n + 1) = unat n + 1" using unat_plus_minus_one[of "n + 1" 0] 
    by (metis Suc_eq_plus1 add_diff_cancel_right' unat_gt_0 unat_minus_one Suc_pred')
  have lru: "mb lru = \<lparr>base_ptr = ptr (conf_component conf), obj_size = o_size, capacity = n + 1\<rparr>"
    "lru_count lru = 0" "fn lru = conf_fn conf"
    using assms(2,3) d by (auto simp: jfs_lru_init_def jfs_mb_init_def Let_def split: if_splits)
  have "lru_wf lru" using lru assms(4,5) n1 d(2) \<open>n + 1 \<noteq> 0\<close> d(1)
    by (auto simp: lru_wf_def mb_wf_def jfs_mlg_valid_desc_def word_gt_0)
  thus ?thesis using lru_run_keys[of lru key_of key_of_ctx accs m "[]"] lru assms(6,7) n1
    by (auto simp: cached_def recency_def)
qed

definition demo_conf :: "(byte, byte, byte list list) jfs_lru_conf" where
  "demo_conf = \<lparr>conf_component = \<lparr>ptr = 4096, desc = \<lparr>dsize = 1, align = 1, dcount = 3\<rparr>\<rparr>,
     conf_fn = demo_fn, conf_evict_ctx = []\<rparr>"

theorem lru_holds_one_more_witness:
  "\<exists>lru m' lru'. jfs_lru_init demo_lru demo_conf JCL_OK = (lru, JCL_OK) \<and>
     lru_run (\<lambda>_. 0) lru [(1, 1), (2, 2), (3, 3)] = Ret (m', lru') \<and> map hd (cached m' lru') = [3, 2, 1]"
proof -
  have mk: "jfs_lru_make_desc 1 1 2 JCL_OK = (\<lparr>dsize = 1, align = 1, dcount = 3\<rparr>, JCL_OK)" by code_simp
  obtain lru where init: "jfs_lru_init demo_lru demo_conf JCL_OK = (lru, JCL_OK)"
    by (simp add: jfs_lru_init_def jfs_mb_init_def demo_conf_def demo_fn_def lru_valid_fn_def Let_def
        jfs_mlg_valid_component_def jfs_mlg_valid_desc_def jfs_mlg_valid_align_def)
  show ?thesis
    using init lru_holds_one_more[OF mk init _ _ _ _, of hd "\<lambda>u. u" "[(1, 1), (2, 2), (3, 3)]" "\<lambda>_. 0"]
      demo_fn_ok demo_keyed by (auto simp: demo_conf_def recency_def)
qed

section \<open>Freeing and initialising\<close>

lemma evict_from_spec:
  assumes "lru_wf lru" "i + n \<le> unat (capacity (mb lru))"
  shows "\<exists>m' lru'. lru_evict_from n (of_nat i) m lru = Ret (m', lru')
    \<and> evict_ctx lru' = foldl (\<lambda>e x. snd (the (evict (fn lru)) x e)) (evict_ctx lru) (take n (drop i (slots m (mb lru))))"
  using assms
proof (induction n arbitrary: i m lru)
  case (Suc n)
  let ?v = "slots m (mb lru)"
  have i: "i < unat (capacity (mb lru))" using Suc.prems by simp
  obtain y e' where y: "the (evict (fn lru)) (?v ! i) (evict_ctx lru) = (y, e')" by fastforce
  have mwf: "mb_wf (mb lru)" and fok: "fn_ok (unat (obj_size (mb lru))) (fn lru)" using Suc.prems(1) by (auto simp: lru_wf_def)
  have ly: "length y = unat (obj_size (mb lru))" using fn_ok_length(3)[OF fok _ y] i by simp
  let ?m1 = "write_bytes m (jfs_mb_index (mb lru) (of_nat i)) y" and ?l = "lru\<lparr>evict_ctx := e'\<rparr>"
  have wfl: "lru_wf ?l" using Suc.prems(1) by (simp add: lru_wf_def)
  have v1: "drop (Suc i) (slots ?m1 (mb lru)) = drop (Suc i) ?v"
    using write_back[OF mwf i ly, of m] by simp
  have split: "take (Suc n) (drop i ?v) = ?v ! i # take n (drop (Suc i) ?v)"
    using i by (metis Cons_nth_drop_Suc length_slots take_Suc_Cons)
  have "lru_evict_from (Suc n) (of_nat i) m lru = lru_evict_from n (of_nat (Suc i)) ?m1 ?l"
    using y read_slot[OF i, of m] by (simp add: call_valid(3)[OF Suc.prems(1)] add.commute)
  thus ?case using Suc.IH[OF wfl, of "Suc i" ?m1] Suc.prems(2) v1 split y by simp
qed simp

text \<open>
  \<open>jfs_lru_free\<close> calls the eviction callback once for every cached object, from the most to
  the least recently used, and on nothing else.
\<close>

theorem lru_free_evicts_all:
  assumes "lru_wf lru"
  shows "\<exists>m' lru'. jfs_lru_free m lru = Ret (m', lru')
    \<and> evict_ctx lru' = foldl (\<lambda>e x. snd (the (evict (fn lru)) x e)) (evict_ctx lru) (cached m lru)"
  using evict_from_spec[OF assms, of 0 "unat (lru_count lru)" m] lru_wf_count[OF assms]
  by (simp add: jfs_lru_free_def cached_def)

theorem lru_free_evicts_all_witness:
  "\<exists>m' lru'. jfs_lru_free ((\<lambda>_. 0)(4096 := 5, 4097 := 9)) (demo_lru\<lparr>lru_count := 2\<rparr>) = Ret (m', lru')
     \<and> evict_ctx lru' = [[5], [9]]"
proof -
  have "lru_wf (demo_lru\<lparr>lru_count := 2\<rparr>)" using demo_wf by (simp add: lru_wf_def demo_lru_def)
  moreover have "cached ((\<lambda>_. 0)(4096 := 5, 4097 := 9)) (demo_lru\<lparr>lru_count := 2\<rparr>) = [[5], [9]]" by code_simp
  ultimately show ?thesis
    using lru_free_evicts_all[of "demo_lru\<lparr>lru_count := 2\<rparr>" "(\<lambda>_. 0)(4096 := 5, 4097 := 9)"]
    by (simp add: demo_lru_def demo_fn_def)
qed

end
