(* ===== verification/Lru_Life.thy ===== *)
theory Lru_Life
  imports Lru_Cache "HOL-Library.Multiset"
begin

text \<open>
  The life of a cache of \<open>src/lru_cache.c\<close>, from empty to freed: what it holds after any accesses, and that
  every object that an access brought in is given to the eviction callback exactly once.
\<close>

section \<open>What is brought in and what is evicted\<close>

text \<open>The eviction callback logs the keys it is called on; \<open>evicts\<close> reads this log.\<close>

definition logs :: "nat \<Rightarrow> (byte list \<Rightarrow> 'k) \<Rightarrow> ('e \<Rightarrow> 'k list) \<Rightarrow> ('k, 'u, 'e) jfs_lru_fn \<Rightarrow> bool" where
  "logs s key_of evicts f \<longleftrightarrow> (\<forall>x e. length x = s \<longrightarrow> evicts (snd (the (evict f) x e)) = evicts e @ [key_of x])"

text \<open>The accesses that miss, when \<open>seen\<close> are the keys of the accesses before.\<close>

fun missed :: "nat \<Rightarrow> 'k list \<Rightarrow> 'k list \<Rightarrow> 'k list" where
  "missed cap seen [] = []"
| "missed cap seen (k # ks) = (if k \<in> set (take cap (recency seen)) then [] else [k]) @ missed cap (seen @ [k]) ks"

lemma index_of_keys:
  assumes kd: "keyed s key_of key_of_ctx f" and len: "\<forall>x\<in>set xs. length x = s"
  shows "index_of (\<lambda>x. the (cmp f) key x = 0) xs = None \<longleftrightarrow> key \<notin> key_of ` set xs"
    and "index_of (\<lambda>x. the (cmp f) key x = 0) xs = Some i \<Longrightarrow> i < length xs \<and> key_of (xs ! i) = key"
proof -
  show "index_of (\<lambda>x. the (cmp f) key x = 0) xs = None \<longleftrightarrow> key \<notin> key_of ` set xs"
    using kd len by (auto simp: index_of_None keyed_def)
  assume "index_of (\<lambda>x. the (cmp f) key x = 0) xs = Some i"
  from index_of_Some[OF this] show "i < length xs \<and> key_of (xs ! i) = key" using kd len by (auto simp: keyed_def)
qed

lemma mset_to_front: "i < length xs \<Longrightarrow> mset (x # take i xs @ drop (Suc i) xs) = add_mset x (mset xs - {# xs ! i #})"
proof -
  assume "i < length xs"
  hence "mset xs = mset (take i xs @ xs ! i # drop (Suc i) xs)" by (simp add: id_take_nth_drop[symmetric])
  thus ?thesis by simp
qed

lemma spec_access_conserves:
  assumes kd: "keyed s key_of key_of_ctx f" and lg: "logs s key_of evicts f" and fok: "fn_ok s f"
    and len: "\<forall>x\<in>set xs. length x = s" "length unused = s" and u: "key_of_ctx u = key" and cap: "0 < cap"
    and r: "spec_access f cap unused key (xs, u, e) = (xs', u', e')"
  shows "mset (evicts e') + image_mset key_of (mset xs') = mset (evicts e) + image_mset key_of (mset xs)
    + mset (if key \<in> key_of ` set xs then [] else [key])"
proof (cases "index_of (\<lambda>x. the (cmp f) key x = 0) xs")
  case (Some i)
  have i: "i < length xs" "key_of (xs ! i) = key" using index_of_keys(2)[OF kd len(1) Some] by auto
  obtain x where x: "the (hit f) (xs ! i) u = (x, u')" "xs' = x # take i xs @ drop (Suc i) xs" "e' = e"
    using r Some by (auto simp: spec_access_def split: prod.splits)
  have "key_of x = key_of (xs ! i)" using keyed_callbacks(1)[OF kd _ x(1)] len(1) i(1) by simp
  hence "image_mset key_of (mset xs') = image_mset key_of (mset xs)"
    unfolding x(2) mset_to_front[OF i(1)] using i(1) by (simp add: image_mset_Diff)
  moreover have "key \<in> key_of ` set xs" using i by auto
  ultimately show ?thesis using x(3) by simp
next
  case None
  hence nk: "key \<notin> key_of ` set xs" using index_of_keys(1)[OF kd len(1)] by blast
  show ?thesis
  proof (cases "length xs < cap")
    case True
    obtain x where x: "the (miss f) unused u = (x, u')" "xs' = x # xs" "e' = e"
      using r None True by (auto simp: spec_access_def split: prod.splits)
    have "key_of x = key" using keyed_callbacks(2)[OF kd len(2) x(1)] u by simp
    thus ?thesis using nk x(2,3) by simp
  next
    case False
    hence ne: "xs \<noteq> []" using cap by auto
    obtain y x where y: "the (evict f) (last xs) e = (y, e')" and x: "the (miss f) y u = (x, u')" "xs' = x # butlast xs"
      using r None False by (auto simp: spec_access_def split: prod.splits)
    have ll: "length (last xs) = s" using ne len(1) by simp
    have "key_of x = key" using keyed_callbacks(2)[OF kd fn_ok_length(3)[OF fok ll y] x(1)] u by simp
    moreover have "evicts e' = evicts e @ [key_of (last xs)]" using lg ll y unfolding logs_def by (metis snd_conv)
    moreover have "mset xs = mset (butlast xs @ [last xs])" using ne by simp
    ultimately show ?thesis using nk x(2) by simp
  qed
qed

section \<open>Runs\<close>

lemma cached_lengths: "\<forall>x\<in>set (cached m lru). length x = unat (obj_size (mb lru))"
  by (auto simp: cached_def slots_def dest!: in_set_takeD)

lemma access_conserves:
  assumes wf: "lru_wf lru" and kd: "keyed (unat (obj_size (mb lru))) key_of key_of_ctx (fn lru)"
    and lg: "logs (unat (obj_size (mb lru))) key_of evicts (fn lru)" and u: "key_of_ctx u = k"
    and acc: "jfs_lru_access m lru k u = Ret (m', lru', u')"
  shows "mset (evicts (evict_ctx lru')) + image_mset key_of (mset (cached m' lru'))
    = mset (evicts (evict_ctx lru)) + image_mset key_of (mset (cached m lru)) + mset (if k \<in> key_of ` set (cached m lru) then [] else [k])"
proof -
  have sp: "spec_access (fn lru) (unat (capacity (mb lru))) (slot m (mb lru) (unat (lru_count lru))) k (cached m lru, u, evict_ctx lru)
      = (cached m' lru', u', evict_ctx lru')"
    using access_refines_aux[OF wf, of m k u] acc by auto
  have fok: "fn_ok (unat (obj_size (mb lru))) (fn lru)" using wf by (simp add: lru_wf_def)
  have cap: "0 < unat (capacity (mb lru))" using lru_wf_count[OF wf] by blast
  show ?thesis using spec_access_conserves[OF kd lg fok cached_lengths _ u cap sp] by simp
qed

lemma lru_run_conserves:
  assumes "lru_wf lru" "keyed (unat (obj_size (mb lru))) key_of key_of_ctx (fn lru)"
    and "logs (unat (obj_size (mb lru))) key_of evicts (fn lru)" "\<forall>(k, u)\<in>set accs. key_of_ctx u = k"
    and "map key_of (cached m lru) = take (unat (capacity (mb lru))) (recency ks)"
  shows "\<exists>m' lru'. lru_run m lru accs = Ret (m', lru') \<and> lru_wf lru' \<and> mb lru' = mb lru \<and> fn lru' = fn lru
    \<and> map key_of (cached m' lru') = take (unat (capacity (mb lru))) (recency (ks @ map fst accs))
    \<and> mset (evicts (evict_ctx lru')) + image_mset key_of (mset (cached m' lru'))
      = mset (evicts (evict_ctx lru)) + image_mset key_of (mset (cached m lru)) + mset (missed (unat (capacity (mb lru))) ks (map fst accs))"
  using assms
proof (induction accs arbitrary: m lru ks)
  case (Cons a accs)
  obtain k u where a: "a = (k, u)" by fastforce
  hence u: "key_of_ctx u = k" using Cons.prems(4) by simp
  let ?cap = "unat (capacity (mb lru))"
  obtain m1 lru1 u1 where acc: "jfs_lru_access m lru k u = Ret (m1, lru1, u1)" "lru_wf lru1" "mb lru1 = mb lru" "fn lru1 = fn lru"
    and keys: "map key_of (cached m1 lru1) = take ?cap (recency (ks @ [k]))"
    using access_keys[OF Cons.prems(1,2) u Cons.prems(5)] by metis
  have "key_of ` set (cached m lru) = set (take ?cap (recency ks))" using arg_cong[OF Cons.prems(5), of set] by simp
  hence one: "mset (evicts (evict_ctx lru1)) + image_mset key_of (mset (cached m1 lru1))
      = mset (evicts (evict_ctx lru)) + image_mset key_of (mset (cached m lru)) + mset (if k \<in> set (take ?cap (recency ks)) then [] else [k])"
    using access_conserves[OF Cons.prems(1-3) u acc(1)] by simp
  have "\<forall>(k, u)\<in>set accs. key_of_ctx u = k" using Cons.prems(4) by simp
  from Cons.IH[of lru1 m1 "ks @ [k]", unfolded acc(3,4), OF acc(2) Cons.prems(2,3) this keys] obtain m' lru' where
    r: "lru_run m1 lru1 accs = Ret (m', lru')" "lru_wf lru'" "mb lru' = mb lru" "fn lru' = fn lru"
      "map key_of (cached m' lru') = take ?cap (recency (ks @ k # map fst accs))"
      "mset (evicts (evict_ctx lru')) + image_mset key_of (mset (cached m' lru'))
        = mset (evicts (evict_ctx lru1)) + image_mset key_of (mset (cached m1 lru1)) + mset (missed ?cap (ks @ [k]) (map fst accs))" by auto
  have "lru_run m lru (a # accs) = Ret (m', lru')" using a acc(1) r(1) by simp
  moreover have "map key_of (cached m' lru') = take ?cap (recency (ks @ map fst (a # accs)))" using r(5) a by simp
  moreover have "mset (evicts (evict_ctx lru')) + image_mset key_of (mset (cached m' lru'))
      = mset (evicts (evict_ctx lru)) + image_mset key_of (mset (cached m lru)) + mset (missed ?cap ks (map fst (a # accs)))"
    unfolding r(6) one using a by (simp only: list.map fst_conv missed.simps mset_append add.assoc)
  ultimately show ?case using r(2-4) by blast
qed auto

lemma evicts_fold:
  "logs s key_of evicts f \<Longrightarrow> \<forall>x\<in>set xs. length x = s \<Longrightarrow>
   evicts (foldl (\<lambda>e x. snd (the (evict f) x e)) e xs) = evicts e @ map key_of xs"
  by (induction xs arbitrary: e) (auto simp: logs_def)

text \<open>
  C18. From empty to freed: after any sequence of accesses a cache holds exactly the most recently used distinct
  keys, most recent first, up to the capacity of its memory block, and once it is freed, the eviction callback
  has been called exactly once for every object that an access brought in, that is for every access to a key
  that was not among the most recently used ones.
\<close>

theorem lru_evicts_once:
  assumes wf: "lru_wf lru" "lru_count lru = 0" and kd: "keyed (unat (obj_size (mb lru))) key_of key_of_ctx (fn lru)"
    and lg: "logs (unat (obj_size (mb lru))) key_of evicts (fn lru)" and accs: "\<forall>(k, u)\<in>set accs. key_of_ctx u = k"
  shows "\<exists>m1 lru1 m2 lru2. lru_run m lru accs = Ret (m1, lru1) \<and> jfs_lru_free m1 lru1 = Ret (m2, lru2)
    \<and> map key_of (cached m1 lru1) = take (unat (capacity (mb lru))) (recency (map fst accs))
    \<and> mset (evicts (evict_ctx lru2)) = mset (evicts (evict_ctx lru)) + mset (missed (unat (capacity (mb lru))) [] (map fst accs))"
proof -
  have "map key_of (cached m lru) = take (unat (capacity (mb lru))) (recency [])" using wf(2) by (simp add: cached_def recency_def)
  from lru_run_conserves[OF wf(1) kd lg accs this] obtain m1 lru1 where
    r: "lru_run m lru accs = Ret (m1, lru1)" "lru_wf lru1" "mb lru1 = mb lru" "fn lru1 = fn lru"
      "map key_of (cached m1 lru1) = take (unat (capacity (mb lru))) (recency (map fst accs))"
    and ms: "mset (evicts (evict_ctx lru1)) + image_mset key_of (mset (cached m1 lru1))
      = mset (evicts (evict_ctx lru)) + mset (missed (unat (capacity (mb lru))) [] (map fst accs))"
    using wf(2) by (auto simp: cached_def[of m lru])
  obtain m2 lru2 where f: "jfs_lru_free m1 lru1 = Ret (m2, lru2)"
    "evict_ctx lru2 = foldl (\<lambda>e x. snd (the (evict (fn lru1)) x e)) (evict_ctx lru1) (cached m1 lru1)"
    using lru_free_evicts_all[OF r(2)] by blast
  have "evicts (evict_ctx lru2) = evicts (evict_ctx lru1) @ map key_of (cached m1 lru1)"
    unfolding f(2) r(4) using evicts_fold[OF lg] cached_lengths[of m1 lru1] r(3) by simp
  hence "mset (evicts (evict_ctx lru2)) = mset (evicts (evict_ctx lru1)) + image_mset key_of (mset (cached m1 lru1))" by simp
  thus ?thesis using r(1,5) f(1) unfolding ms by blast
qed

theorem lru_evicts_once_witness:
  "\<exists>m1 lru1 m2 lru2. lru_run (\<lambda>_. 0) demo_lru [(1, 1), (2, 2), (1, 1), (3, 3), (2, 2)] = Ret (m1, lru1)
     \<and> jfs_lru_free m1 lru1 = Ret (m2, lru2) \<and> map hd (cached m1 lru1) = [2, 3]
     \<and> mset (map hd (evict_ctx lru2)) = {# 1, 2, 3, 2 #}"
proof -
  have "logs (unat (obj_size (mb demo_lru))) hd (map hd) (fn demo_lru)" by (simp add: logs_def demo_lru_def demo_fn_def)
  moreover have "keyed (unat (obj_size (mb demo_lru))) hd (\<lambda>u. u) (fn demo_lru)" using demo_keyed by (simp add: demo_lru_def)
  ultimately show ?thesis
    using lru_evicts_once[OF demo_wf, of hd "\<lambda>u. u" "map hd" "[(1, 1), (2, 2), (1, 1), (3, 3), (2, 2)]" "\<lambda>_. 0"]
    by (auto simp: demo_lru_def recency_def)
qed

end
