(* ===== verification/Free_List.thy ===== *)
theory Free_List
  imports Mem_Layout
begin

text \<open>
  \<open>src/free_list.c\<close>: a LIFO list of free objects threaded through the objects themselves.  The
  operations access memory in one way only, as loads and stores of the 8-byte word \<open>obj->next\<close>, and are
  written over these two accesses.  The locale \<open>link_memory\<close> says what they rely on: a store is read back,
  and it does not change a word that is apart.  It is interpreted
  \<^item> on byte memory (\<open>load_ptr\<close>, \<open>store_ptr\<close>), where two words are apart when they share no byte.  Every
    statement about a component of objects rests on this one, and needs objects of 8 bytes or more;
  \<^item> on one cell per address, for the words \<open>parent_color\<close> of the nodes of a search tree, which are
    objects of 32 bytes or more.

  \<open>fl_rep\<close> relates a list head and the \<open>next\<close> words to the sequence of free objects.  The locale
  \<open>object_pool\<close> is the interface for clients; it is interpreted on \<open>jfs_fl_alloc\<close> and
  \<open>jfs_fl_free\<close>.  \<open>pool_reach\<close> is the state machine of a client that allocates, writes to the objects
  that it holds, and frees.
\<close>

section \<open>Operations\<close>

record jfs_fl =
  fl_list :: addr
  fl_count :: size_t

text \<open>
  \<open>st m a v\<close> is memory \<open>m\<close> after \<open>obj->next = v\<close> and \<open>ld m a\<close> reads \<open>obj->next\<close>, for the object \<open>obj\<close> at
  \<open>a\<close>.  The loop of \<open>fl_link_memory\<close> has the number of iterations that are left.
\<close>

fun fl_link_from ::
  "('m \<Rightarrow> addr \<Rightarrow> addr \<Rightarrow> 'm) \<Rightarrow> nat \<Rightarrow> size_t \<Rightarrow> addr \<Rightarrow> size_t \<Rightarrow> 'm \<Rightarrow> addr \<Rightarrow> 'm \<times> addr" where
  "fl_link_from st 0 i memory o_size m lst = (m, lst)"
| "fl_link_from st (Suc n) i memory o_size m lst =
     (let obj = memory + (i * o_size)
      in fl_link_from st n (i + 1) memory o_size (st m obj lst) obj)"

definition fl_link_memory ::
  "('m \<Rightarrow> addr \<Rightarrow> addr \<Rightarrow> 'm) \<Rightarrow> 'm \<Rightarrow> addr \<Rightarrow> size_t \<Rightarrow> size_t \<Rightarrow> 'm \<times> addr" where
  "fl_link_memory st m memory o_size o_count = fl_link_from st (unat o_count) 0 memory o_size m NULL"

definition jfs_fl_init ::
  "('m \<Rightarrow> addr \<Rightarrow> addr \<Rightarrow> 'm) \<Rightarrow> 'm \<Rightarrow> jfs_fl \<Rightarrow> jfs_mlg_component \<Rightarrow> jcl_err \<Rightarrow> 'm \<times> jfs_fl \<times> jcl_err" where
  "jfs_fl_init st m fl_init component err =
     (if \<not> jfs_mlg_valid_component component then (m, fl_init, JCL_ERR_BAD_CONF)
      else case fl_link_memory st m (ptr component) (dsize (desc component)) (dcount (desc component)) of
        (m, lst) \<Rightarrow> (m, \<lparr>fl_list = lst, fl_count = dcount (desc component)\<rparr>, err))"

definition jfs_fl_alloc :: "('m \<Rightarrow> addr \<Rightarrow> addr) \<Rightarrow> 'm \<Rightarrow> jfs_fl \<Rightarrow> addr \<times> jfs_fl" where
  "jfs_fl_alloc ld m fl =
     (if fl_count fl = 0 then (NULL, fl)
      else let obj = fl_list fl
           in (obj, fl\<lparr>fl_list := ld m obj, fl_count := fl_count fl - 1\<rparr>))"

definition jfs_fl_free :: "('m \<Rightarrow> addr \<Rightarrow> addr \<Rightarrow> 'm) \<Rightarrow> 'm \<Rightarrow> jfs_fl \<Rightarrow> addr \<Rightarrow> 'm \<times> jfs_fl" where
  "jfs_fl_free st m fl ptr_move =
     (if ptr_move = NULL then (m, fl)
      else (st m ptr_move (fl_list fl),
            fl\<lparr>fl_list := ptr_move, fl_count := fl_count fl + 1\<rparr>))"

section \<open>Representation\<close>

text \<open>Over a map from objects to their \<open>next\<close> words.\<close>

primrec fl_chain :: "(addr \<Rightarrow> addr) \<Rightarrow> addr \<Rightarrow> addr list \<Rightarrow> bool" where
  "fl_chain nxt p [] \<longleftrightarrow> p = NULL"
| "fl_chain nxt p (a # as) \<longleftrightarrow> p = a \<and> a \<noteq> NULL \<and> fl_chain nxt (nxt a) as"

definition fl_rep :: "(addr \<Rightarrow> addr) \<Rightarrow> jfs_fl \<Rightarrow> addr list \<Rightarrow> bool" where
  "fl_rep nxt fl xs \<longleftrightarrow> fl_chain nxt (fl_list fl) xs \<and> distinct xs \<and> unat (fl_count fl) = length xs"

text \<open>The objects of a component, in the order of their addresses.\<close>

definition comp_objs :: "jfs_mlg_component \<Rightarrow> addr list" where
  "comp_objs c = map (\<lambda>i. ptr c + of_nat (i * unat (dsize (desc c)))) [0..<unat (dcount (desc c))]"

lemma fl_chain_not_null: "fl_chain nxt p xs \<Longrightarrow> NULL \<notin> set xs"
  by (induction xs arbitrary: p) auto

lemma fl_rep_not_null: "fl_rep nxt fl xs \<Longrightarrow> NULL \<notin> set xs"
  by (auto simp: fl_rep_def dest: fl_chain_not_null)

lemma fl_chain_frame: "\<forall>a\<in>set xs. nxt' a = nxt a \<Longrightarrow> fl_chain nxt p xs \<Longrightarrow> fl_chain nxt' p xs"
  by (induction xs arbitrary: p) auto

lemma fl_chain_upd [simp]: "a \<notin> set xs \<Longrightarrow> fl_chain (nxt(a := v)) p xs = fl_chain nxt p xs"
  by (induction xs arbitrary: p) auto

lemma fl_rep_frame: "\<forall>a\<in>set xs. nxt' a = nxt a \<Longrightarrow> fl_rep nxt fl xs \<Longrightarrow> fl_rep nxt' fl xs"
  using fl_chain_frame[of xs nxt' nxt "fl_list fl"] by (simp add: fl_rep_def)

lemma link_from_keeps:
  assumes "fl_link_from st n (of_nat i) memory sz m lst = (m', p)" "Q m"
    and "\<And>m j v. j < n \<Longrightarrow> Q m \<Longrightarrow> Q (st m (memory + of_nat ((i + j) * unat sz)) v)"
  shows "Q m'"
  using assms
proof (induction n arbitrary: i m lst)
  case (Suc n)
  have run: "fl_link_from st n (of_nat (Suc i)) memory sz (st m (memory + of_nat (i * unat sz)) lst) (memory + of_nat (i * unat sz)) = (m', p)"
    using Suc.prems(1) by (simp add: Let_def add.commute)
  have keep: "Q (st m (memory + of_nat ((Suc i + j) * unat sz)) v)" if "j < n" "Q m" for m j v
    using Suc.prems(3)[of "Suc j" m v] that by (simp del: of_nat_mult)
  have "Q (st m (memory + of_nat (i * unat sz)) lst)" using Suc.prems(3)[of 0 m lst] Suc.prems(2) by (simp del: of_nat_mult)
  from Suc.IH[OF run this keep] show ?case .
qed simp

section \<open>The objects of a component\<close>

lemma comp_objs_inj:
  assumes "jfs_mlg_valid_component c" "unat (ptr c) + extent (desc c) \<le> 2 ^ 64"
  shows "inj_on (\<lambda>j. ptr c + of_nat (j * unat (dsize (desc c)))) {..<unat (dcount (desc c))}"
    and "j < unat (dcount (desc c)) \<Longrightarrow> unat (ptr c + of_nat (j * unat (dsize (desc c)))) = unat (ptr c) + j * unat (dsize (desc c))"
proof -
  let ?s = "unat (dsize (desc c))" and ?n = "unat (dcount (desc c))"
  have s0: "0 < ?s" using assms(1) by (auto simp: jfs_mlg_valid_component_def jfs_mlg_valid_desc_def word_less_nat_alt)
  have u: "unat (ptr c + of_nat (j * ?s)) = unat (ptr c) + j * ?s" if "j < ?n" for j
  proof -
    have "Suc j * ?s \<le> ?n * ?s" using that by (intro mult_le_mono1) simp
    hence "j * ?s + ?s \<le> ?n * ?s" by simp
    hence lt: "unat (ptr c) + j * ?s < 2 ^ 64" using assms(2) s0 by (simp add: extent_def mult.commute)
    hence w: "unat (of_nat (j * ?s) :: addr) = j * ?s" by (intro unat_of_nat_64) linarith
    show ?thesis using unat_offset[of "ptr c" "of_nat (j * ?s)"] lt unfolding w by simp
  qed
  show "inj_on (\<lambda>j. ptr c + of_nat (j * ?s)) {..<?n}"
  proof (rule inj_onI)
    fix x y assume "x \<in> {..<?n}" "y \<in> {..<?n}" "ptr c + of_nat (x * ?s) = ptr c + of_nat (y * ?s)"
    hence "unat (ptr c) + x * ?s = unat (ptr c) + y * ?s" using u[of x] u[of y] by (metis lessThan_iff)
    thus "x = y" using s0 by simp
  qed
  show "j < ?n \<Longrightarrow> unat (ptr c + of_nat (j * ?s)) = unat (ptr c) + j * ?s" by (rule u)
qed

lemma length_comp_objs [simp]: "length (comp_objs c) = unat (dcount (desc c))"
  by (simp add: comp_objs_def)

lemma comp_objs_bounds:
  assumes v: "jfs_mlg_valid_component c" and fit: "unat (ptr c) + extent (desc c) \<le> 2 ^ 64" and p: "p \<in> set (comp_objs c)"
  shows "unat (ptr c) \<le> unat p" and "unat p + unat (dsize (desc c)) \<le> unat (ptr c) + extent (desc c)"
proof -
  obtain i where i: "i < unat (dcount (desc c))" "p = ptr c + of_nat (i * unat (dsize (desc c)))"
    using p by (auto simp: comp_objs_def simp del: of_nat_mult)
  have u: "unat p = unat (ptr c) + i * unat (dsize (desc c))" unfolding i(2) by (rule comp_objs_inj(2)[OF v fit i(1)])
  thus "unat (ptr c) \<le> unat p" by simp
  have "Suc i * unat (dsize (desc c)) \<le> unat (dcount (desc c)) * unat (dsize (desc c))" using i(1) by (intro mult_le_mono1) simp
  thus "unat p + unat (dsize (desc c)) \<le> unat (ptr c) + extent (desc c)" using u by (simp add: extent_def mult.commute)
qed

lemma comp_objs_not_null:
  assumes v: "jfs_mlg_valid_component c" and fit: "unat (ptr c) + extent (desc c) \<le> 2 ^ 64"
  shows "NULL \<notin> set (comp_objs c)"
proof
  assume "NULL \<in> set (comp_objs c)"
  hence "unat (ptr c) \<le> unat NULL" by (rule comp_objs_bounds(1)[OF v fit])
  thus False using v by (simp add: jfs_mlg_valid_component_def unat_eq_0)
qed

lemma distinct_comp_objs:
  assumes "jfs_mlg_valid_component c" "unat (ptr c) + extent (desc c) \<le> 2 ^ 64"
  shows "distinct (comp_objs c)"
  using comp_objs_inj(1)[OF assms] by (simp add: comp_objs_def distinct_map atLeast0LessThan del: of_nat_mult)

lemma comp_objs_spaced:
  assumes v: "jfs_mlg_valid_component c" and fit: "unat (ptr c) + extent (desc c) \<le> 2 ^ 64"
    and pq: "p \<in> set (comp_objs c)" "q \<in> set (comp_objs c)" "p \<noteq> q"
  shows "unat p + unat (dsize (desc c)) \<le> unat q \<or> unat q + unat (dsize (desc c)) \<le> unat p"
proof -
  let ?s = "unat (dsize (desc c))"
  obtain i j where ij: "i < unat (dcount (desc c))" "p = ptr c + of_nat (i * ?s)"
    "j < unat (dcount (desc c))" "q = ptr c + of_nat (j * ?s)"
    using pq by (auto simp: comp_objs_def simp del: of_nat_mult)
  hence "i < j \<or> j < i" using pq(3) by (cases i j rule: linorder_cases) auto
  moreover have "i * ?s + ?s \<le> j * ?s" if "i < j" for i j
    using mult_le_mono1[of "Suc i" j ?s] that by simp
  ultimately show ?thesis using comp_objs_inj(2)[OF v fit] ij by (auto simp del: of_nat_mult)
qed

section \<open>The memory of the links\<close>

locale link_memory =
  fixes load :: "'m \<Rightarrow> addr \<Rightarrow> addr"
    and store :: "'m \<Rightarrow> addr \<Rightarrow> addr \<Rightarrow> 'm"
    and apart :: "addr \<Rightarrow> addr \<Rightarrow> bool"
  assumes load_store: "load (store m a v) a = v"
    and load_other: "apart a b \<Longrightarrow> load (store m a v) b = load m b"
begin

lemma apart_irrefl: "\<not> apart a a"
  using load_store[of m a 0] load_store[of m a 1] load_other[of a a m] zero_neq_one by metis

lemma chain_store: "\<forall>x\<in>set xs. apart a x \<Longrightarrow> fl_chain (load m) p xs \<Longrightarrow> fl_chain (load (store m a v)) p xs"
  by (rule fl_chain_frame) (auto simp: load_other)

lemma pop:
  assumes "fl_rep (load m) fl (a # as)"
  shows "\<exists>fl'. jfs_fl_alloc load m fl = (a, fl') \<and> fl_rep (load m) fl' as"
proof -
  have "fl_count fl \<noteq> 0" using assms by (auto simp: fl_rep_def)
  moreover from this have "unat (fl_count fl - 1) = length as" using assms by (simp add: fl_rep_def unat_minus_one)
  ultimately show ?thesis using assms by (auto simp: jfs_fl_alloc_def fl_rep_def Let_def)
qed

lemma pop_empty: "fl_rep (load m) fl [] \<Longrightarrow> jfs_fl_alloc load m fl = (NULL, fl)"
  by (simp add: jfs_fl_alloc_def fl_rep_def unat_eq_0)

lemma push:
  assumes "fl_rep (load m) fl xs" "\<forall>x\<in>set xs. apart p x" "p \<noteq> NULL" "Suc (length xs) < 2 ^ 64"
  shows "\<exists>m' fl'. jfs_fl_free store m fl p = (m', fl') \<and> fl_rep (load m') fl' (p # xs)"
proof -
  have "unat (fl_count fl + 1) = Suc (length xs)"
    using assms(1,4) unat_add_lem[of "fl_count fl" 1] by (simp add: fl_rep_def)
  moreover have "p \<notin> set xs" using assms(2) apart_irrefl by blast
  ultimately show ?thesis using assms chain_store by (simp add: jfs_fl_free_def fl_rep_def load_store)
qed

lemma link_from_chain:
  assumes "fl_chain (load m) lst ys"
    and "\<forall>j<n. memory + of_nat ((i + j) * unat sz) \<noteq> NULL \<and> (\<forall>y\<in>set ys. apart (memory + of_nat ((i + j) * unat sz)) y)"
    and "\<forall>j<n. \<forall>k<j. apart (memory + of_nat ((i + j) * unat sz)) (memory + of_nat ((i + k) * unat sz))"
  shows "\<exists>m' p. fl_link_from store n (of_nat i) memory sz m lst = (m', p)
    \<and> fl_chain (load m') p (rev (map (\<lambda>j. memory + of_nat ((i + j) * unat sz)) [0..<n]) @ ys)"
  using assms
proof (induction n arbitrary: i m lst ys)
  case (Suc n)
  let ?a = "\<lambda>j. memory + of_nat ((i + j) * unat sz)"
  let ?m = "store m (?a 0) lst"
  have "fl_chain (load ?m) lst ys" using Suc.prems(2) by (intro chain_store[OF _ Suc.prems(1)]) blast
  moreover have "?a 0 \<noteq> NULL" using Suc.prems(2) by blast
  ultimately have c: "fl_chain (load ?m) (?a 0) (?a 0 # ys)" by (simp only: fl_chain.simps load_store) blast
  have fresh: "\<forall>j<n. ?a (Suc j) \<noteq> NULL \<and> (\<forall>y\<in>set (?a 0 # ys). apart (?a (Suc j)) y)"
  proof (intro allI impI)
    fix j assume j: "j < n"
    have "apart (?a (Suc j)) (?a 0)" using Suc.prems(3) j by blast
    moreover have "?a (Suc j) \<noteq> NULL \<and> (\<forall>y\<in>set ys. apart (?a (Suc j)) y)" using Suc.prems(2) j by blast
    ultimately show "?a (Suc j) \<noteq> NULL \<and> (\<forall>y\<in>set (?a 0 # ys). apart (?a (Suc j)) y)"
      by (simp only: list.set ball_simps) blast
  qed
  have aparts: "\<forall>j<n. \<forall>k<j. apart (?a (Suc j)) (?a (Suc k))" using Suc.prems(3) by blast
  have upt: "map ?a [0..<Suc n] = ?a 0 # map (\<lambda>j. ?a (Suc j)) [0..<n]"
    by (simp add: upt_conv_Cons map_Suc_upt[symmetric] del: upt_Suc of_nat_mult)
  have step: "fl_link_from store (Suc n) (of_nat i) memory sz m lst = fl_link_from store n (of_nat (Suc i)) memory sz ?m (?a 0)"
    by (simp add: add.commute Let_def)
  show ?case unfolding step upt
    using Suc.IH[OF c, of "Suc i", unfolded add_Suc add_Suc_right[symmetric], OF fresh aparts] by simp
qed simp

lemma init:
  assumes v: "jfs_mlg_valid_component c" and fit: "unat (ptr c) + extent (desc c) \<le> 2 ^ 64"
    and aparts: "\<forall>p\<in>set (comp_objs c). \<forall>q\<in>set (comp_objs c). p \<noteq> q \<longrightarrow> apart p q"
  shows "\<exists>m' fl. jfs_fl_init store m fl0 c err = (m', fl, err) \<and> fl_rep (load m') fl (rev (comp_objs c))"
proof -
  let ?n = "unat (dcount (desc c))" and ?a = "\<lambda>j. ptr c + of_nat (j * unat (dsize (desc c)))"
  have a: "?a j \<in> set (comp_objs c)" if "j < ?n" for j using that by (auto simp: comp_objs_def simp del: of_nat_mult)
  have fresh: "\<forall>j<?n. ?a (0 + j) \<noteq> NULL \<and> (\<forall>y\<in>set []. apart (?a (0 + j)) y)"
    using a comp_objs_not_null[OF v fit] by (metis add_0 empty_iff list.set(1))
  have "?a j \<noteq> ?a k" if "j < ?n" "k < j" for j k
    using inj_on_eq_iff[OF comp_objs_inj(1)[OF v fit], of j k] that by (auto simp del: of_nat_mult)
  hence ap: "\<forall>j<?n. \<forall>k<j. apart (?a (0 + j)) (?a (0 + k))" using aparts a by (auto simp del: of_nat_mult)
  obtain m' p where l: "fl_link_from store ?n (of_nat 0) (ptr c) (dsize (desc c)) m NULL = (m', p)" "fl_chain (load m') p (rev (comp_objs c))"
    using link_from_chain[of m NULL "[]" ?n "ptr c" 0 "dsize (desc c)", OF _ fresh ap] by (auto simp: comp_objs_def simp del: of_nat_mult)
  thus ?thesis using v distinct_comp_objs[OF v fit] by (simp add: jfs_fl_init_def fl_link_memory_def fl_rep_def)
qed

end

text \<open>Byte memory.\<close>

interpretation bytes: link_memory load_ptr store_ptr words_apart
  by unfold_locales (simp_all add: load_store_apart)

text \<open>One cell per address.\<close>

definition cell_load :: "(addr \<Rightarrow> addr) \<Rightarrow> addr \<Rightarrow> addr" where
  "cell_load nxt = nxt"

definition cell_store :: "(addr \<Rightarrow> addr) \<Rightarrow> addr \<Rightarrow> addr \<Rightarrow> (addr \<Rightarrow> addr)" where
  "cell_store nxt a v = nxt(a := v)"

interpretation cells: link_memory cell_load cell_store "(\<noteq>)"
  by unfold_locales (simp_all add: cell_load_def cell_store_def)

lemma alloc_rep:
  "fl_rep nxt fl (a # as) \<Longrightarrow> \<exists>fl'. jfs_fl_alloc cell_load nxt fl = (a, fl') \<and> fl_rep nxt fl' as"
  using cells.pop[of nxt fl a as] by (simp add: cell_load_def)

lemma alloc_empty: "fl_rep nxt fl [] \<Longrightarrow> jfs_fl_alloc cell_load nxt fl = (NULL, fl)"
  using cells.pop_empty[of nxt fl] by (simp add: cell_load_def)

lemma free_rep:
  "fl_rep nxt fl xs \<Longrightarrow> p \<notin> set xs \<Longrightarrow> p \<noteq> NULL \<Longrightarrow> Suc (length xs) < 2 ^ 64 \<Longrightarrow>
     \<exists>nxt' fl'. jfs_fl_free cell_store nxt fl p = (nxt', fl') \<and> fl_rep nxt' fl' (p # xs)"
  using cells.push[of nxt fl xs p] by (auto simp: cell_load_def)

lemma init_rep:
  "jfs_mlg_valid_component c \<Longrightarrow> unat (ptr c) + extent (desc c) \<le> 2 ^ 64 \<Longrightarrow>
     \<exists>nxt' fl. jfs_fl_init cell_store nxt fl0 c err = (nxt', fl, err) \<and> fl_rep nxt' fl (rev (comp_objs c))"
  using cells.init[of c nxt fl0 err] by (simp add: cell_load_def)

section \<open>The interface of a pool of objects\<close>

locale object_pool =
  fixes alloc :: "'s \<Rightarrow> addr \<times> 's"
    and release :: "'s \<Rightarrow> addr \<Rightarrow> 's"
    and avail :: "'s \<Rightarrow> addr list \<Rightarrow> bool"
    and clear :: "addr \<Rightarrow> addr list \<Rightarrow> bool"
  assumes alloc_some: "avail s (a # as) \<Longrightarrow> fst (alloc s) = a \<and> avail (snd (alloc s)) as"
    and alloc_none: "avail s [] \<Longrightarrow> alloc s = (NULL, s)"
    and release: "avail s xs \<Longrightarrow> clear p xs \<Longrightarrow> p \<noteq> NULL \<Longrightarrow> Suc (length xs) < 2 ^ 64 \<Longrightarrow> avail (release s p) (p # xs)"
    and avail_objs: "avail s xs \<Longrightarrow> distinct xs \<and> NULL \<notin> set xs"
begin

lemma lifo:
  assumes "avail s xs" "clear p xs" "p \<noteq> NULL" "Suc (length xs) < 2 ^ 64"
  shows "fst (alloc (release s p)) = p" and "avail (snd (alloc (release s p))) xs"
  using alloc_some[OF release[OF assms]] by auto

text \<open>
  A client that holds \<open>held\<close>: an allocation hands out an object that is not held, and the objects
  that are free or held stay the same.
\<close>

lemma alloc_conserves:
  assumes "avail s xs" "set xs \<inter> held = {}" "alloc s = (p, s')" "p \<noteq> NULL"
  shows "p \<notin> held \<and> (\<exists>ys. avail s' ys \<and> set ys \<inter> insert p held = {} \<and> set ys \<union> insert p held = set xs \<union> held)"
proof (cases xs)
  case Nil
  thus ?thesis using alloc_none assms by auto
next
  case (Cons a as)
  thus ?thesis using alloc_some[of s a as] avail_objs[OF assms(1)] assms by (intro conjI exI[of _ as]) auto
qed

end

interpretation fl_pool: object_pool
  "\<lambda>(m, fl). case jfs_fl_alloc load_ptr m fl of (p, fl') \<Rightarrow> (p, (m, fl'))"
  "\<lambda>(m, fl) p. jfs_fl_free store_ptr m fl p" "\<lambda>(m, fl) xs. fl_rep (load_ptr m) fl xs"
  "\<lambda>p xs. \<forall>x\<in>set xs. words_apart p x"
proof (unfold_locales, goal_cases)
  case (1 s a as)
  thus ?case using bytes.pop by (fastforce split: prod.splits)
next
  case (2 s)
  thus ?case by (auto simp: bytes.pop_empty)
next
  case (3 s xs p)
  obtain m fl where s: "s = (m, fl)" by fastforce
  show ?case using 3 bytes.push[of m fl xs p] s by fastforce
next
  case (4 s xs)
  thus ?case by (auto simp: fl_rep_def dest: fl_chain_not_null)
qed

section \<open>Clients of a free list\<close>

text \<open>
  The states a client can bring a freshly initialised list into, over byte memory: it allocates, it
  writes any byte of an object that it holds, and it frees objects that it holds.  The last part of a
  state is the set of objects the client holds.
\<close>

inductive pool_reach :: "jfs_mlg_component \<Rightarrow> mem \<Rightarrow> jfs_fl \<Rightarrow> addr set \<Rightarrow> bool" for c where
  reach_init: "jfs_fl_init store_ptr m0 fl0 c JCL_OK = (m, fl, JCL_OK) \<Longrightarrow> pool_reach c m fl {}"
| reach_alloc: "pool_reach c m fl held \<Longrightarrow> jfs_fl_alloc load_ptr m fl = (p, fl') \<Longrightarrow> p \<noteq> NULL \<Longrightarrow>
     pool_reach c m fl' (insert p held)"
| reach_write: "pool_reach c m fl held \<Longrightarrow> p \<in> held \<Longrightarrow> j < unat (dsize (desc c)) \<Longrightarrow>
     pool_reach c (m(p + of_nat j := b)) fl held"
| reach_free: "pool_reach c m fl held \<Longrightarrow> p \<in> held \<Longrightarrow> jfs_fl_free store_ptr m fl p = (m', fl') \<Longrightarrow>
     pool_reach c m' fl' (held - {p})"

text \<open>A component of objects that are large enough for a link, inside the address space.\<close>

definition pool_comp :: "jfs_mlg_component \<Rightarrow> bool" where
  "pool_comp c \<longleftrightarrow> jfs_mlg_valid_component c \<and> unat (ptr c) + extent (desc c) \<le> 2 ^ 64 \<and> 8 \<le> unat (dsize (desc c))"

definition comp_bytes :: "jfs_mlg_component \<Rightarrow> addr set" where
  "comp_bytes c = {a. unat (ptr c) \<le> unat a \<and> unat a < unat (ptr c) + extent (desc c)}"

lemma pool_compD:
  assumes "pool_comp c"
  shows "jfs_mlg_valid_component c" "unat (ptr c) + extent (desc c) \<le> 2 ^ 64" "8 \<le> unat (dsize (desc c))"
  using assms by (auto simp: pool_comp_def)

lemma unat_into:
  assumes "unat (x - p) < n" "unat p + n \<le> 2 ^ 64"
  shows "unat x = unat p + unat (x - (p :: addr))"
  using unat_offset[of p "x - p"] assms by simp

lemma obj_byte:
  assumes c: "pool_comp c" and p: "p \<in> set (comp_objs c)" and x: "unat (x - p) < n" "n \<le> unat (dsize (desc c))"
  shows "unat x = unat p + unat (x - p)" "x \<in> comp_bytes c"
proof -
  note b = comp_objs_bounds[OF pool_compD(1,2)[OF c] p]
  show u: "unat x = unat p + unat (x - p)" using b(2) x pool_compD(2)[OF c] by (intro unat_into[OF x(1)]) linarith
  show "x \<in> comp_bytes c" using b x u by (simp add: comp_bytes_def)
qed

lemma objs_words_apart:
  assumes c: "pool_comp c" and pq: "p \<in> set (comp_objs c)" "q \<in> set (comp_objs c)" "p \<noteq> q"
  shows "words_apart p q"
proof -
  note sp = comp_objs_spaced[OF pool_compD(1,2)[OF c] pq]
  have "unat p + 8 \<le> 2 ^ 64" "unat q + 8 \<le> 2 ^ 64"
    using comp_objs_bounds(2)[OF pool_compD(1,2)[OF c]] pq(1,2) pool_compD(2,3)[OF c] by (meson add_left_mono le_trans)+
  moreover have "unat p + 8 \<le> unat q \<or> unat q + 8 \<le> unat p" using sp pool_compD(3)[OF c] by linarith
  ultimately show ?thesis using words_apartI by blast
qed

text \<open>Memory is changed by a list only inside the objects of its component.\<close>

definition only_comp :: "jfs_mlg_component \<Rightarrow> mem \<Rightarrow> mem \<Rightarrow> bool" where
  "only_comp c m m' \<longleftrightarrow> (\<forall>a. a \<notin> comp_bytes c \<longrightarrow> m' a = m a)"

lemma store_only_comp:
  assumes "pool_comp c" "p \<in> set (comp_objs c)" "only_comp c m0 m"
  shows "only_comp c m0 (store_ptr m p v)"
  using assms(3) obj_byte(2)[OF assms(1,2), of _ 8] pool_compD(3)[OF assms(1)] store_ptr_out[of _ p m v]
  unfolding only_comp_def by (metis not_le)

lemma init_only_comp:
  assumes c: "pool_comp c" and i: "jfs_fl_init store_ptr m fl0 c err = (m', fl, err')"
  shows "only_comp c m m'"
proof -
  have v: "jfs_mlg_valid_component c" using c by (simp add: pool_comp_def)
  obtain p where l: "fl_link_from store_ptr (unat (dcount (desc c))) (of_nat 0) (ptr c) (dsize (desc c)) m NULL = (m', p)"
    using i v by (auto simp: jfs_fl_init_def fl_link_memory_def split: prod.splits)
  show ?thesis
  proof (rule link_from_keeps[OF l, where Q = "only_comp c m"])
    fix m1 j v assume "j < unat (dcount (desc c))" "only_comp c m m1"
    thus "only_comp c m (store_ptr m1 (ptr c + of_nat ((0 + j) * unat (dsize (desc c)))) v)"
      by (intro store_only_comp[OF c]) (auto simp: comp_objs_def simp del: of_nat_mult)
  qed (simp add: only_comp_def)
qed

lemma bytes_init:
  assumes c: "pool_comp c"
  shows "\<exists>m' fl. jfs_fl_init store_ptr m fl0 c err = (m', fl, err) \<and> fl_rep (load_ptr m') fl (rev (comp_objs c))"
  by (rule bytes.init[OF pool_compD(1,2)[OF c]]) (simp add: objs_words_apart[OF c])

text \<open>Every object of the component is either free or held, and none is both.\<close>

definition pool_inv :: "jfs_mlg_component \<Rightarrow> mem \<Rightarrow> jfs_fl \<Rightarrow> addr set \<Rightarrow> bool" where
  "pool_inv c m fl held \<longleftrightarrow>
     (\<exists>xs. fl_rep (load_ptr m) fl xs \<and> set xs \<inter> held = {} \<and> set xs \<union> held = set (comp_objs c))"

lemma pool_inv_held: "pool_inv c m fl held \<Longrightarrow> held \<subseteq> set (comp_objs c)"
  by (auto simp: pool_inv_def)

lemma pool_inv_init:
  assumes c: "pool_comp c" and i: "jfs_fl_init store_ptr m0 fl0 c err = (m, fl, err)"
  shows "pool_inv c m fl {}"
  using bytes_init[OF c, of m0 fl0 err] i by (auto simp: pool_inv_def intro!: exI[of _ "rev (comp_objs c)"])

lemma pool_inv_alloc:
  assumes "pool_inv c m fl held" "jfs_fl_alloc load_ptr m fl = (p, fl')" "p \<noteq> NULL"
  shows "pool_inv c m fl' (insert p held)"
proof -
  obtain xs where "fl_rep (load_ptr m) fl xs" "set xs \<inter> held = {}" "set xs \<union> held = set (comp_objs c)"
    using assms(1) by (auto simp: pool_inv_def)
  thus ?thesis using fl_pool.alloc_conserves[of "(m, fl)" xs held p "(m, fl')"] assms(2,3) by (auto simp: pool_inv_def)
qed

lemma pool_inv_free:
  assumes c: "pool_comp c" and inv: "pool_inv c m fl held" and p: "p \<in> held"
    and f: "jfs_fl_free store_ptr m fl p = (m', fl')"
  shows "pool_inv c m' fl' (held - {p})"
proof -
  note v = pool_compD(1,2)[OF c]
  obtain xs where xs: "fl_rep (load_ptr m) fl xs" "set xs \<inter> held = {}" "set xs \<union> held = set (comp_objs c)"
    using inv by (auto simp: pool_inv_def)
  have "card (set xs) < card (set (comp_objs c))" using xs(2,3) p by (intro psubset_card_mono) auto
  hence "length xs < unat (dcount (desc c))"
    using xs(1) distinct_comp_objs[OF v] by (simp add: fl_rep_def distinct_card)
  hence "Suc (length xs) < 2 ^ 64" using unat_lt64[of "dcount (desc c)"] by linarith
  moreover have "p \<noteq> NULL" using comp_objs_not_null[OF v] xs(3) p by auto
  moreover have "\<forall>x\<in>set xs. words_apart p x" using objs_words_apart[OF c, of p] xs p by blast
  ultimately have "fl_rep (load_ptr m') fl' (p # xs)" using bytes.push[OF xs(1), of p] f by auto
  thus ?thesis unfolding pool_inv_def using xs p by (intro exI[of _ "p # xs"]) auto
qed

lemma free_only_comp:
  assumes "pool_comp c" "pool_inv c m fl held" "p \<in> held" "jfs_fl_free store_ptr m fl p = (m', fl')"
  shows "only_comp c m m'"
proof -
  have "only_comp c m (store_ptr m p (fl_list fl))"
    using store_only_comp[OF assms(1)] pool_inv_held[OF assms(2)] assms(3) by (auto simp: only_comp_def)
  thus ?thesis using assms(4) by (auto simp: jfs_fl_free_def only_comp_def split: if_splits)
qed

text \<open>What the list relies on: the links of the free objects.\<close>

lemma pool_inv_cong:
  assumes "\<And>x. x \<in> set (comp_objs c) - held \<Longrightarrow> load_ptr m' x = load_ptr m x" "pool_inv c m fl held"
  shows "pool_inv c m' fl held"
proof -
  obtain xs where xs: "fl_rep (load_ptr m) fl xs" "set xs \<inter> held = {}" "set xs \<union> held = set (comp_objs c)"
    using assms(2) by (auto simp: pool_inv_def)
  have "load_ptr m' x = load_ptr m x" if "x \<in> set xs" for x using assms(1)[of x] xs(2,3) that by blast
  hence "fl_rep (load_ptr m') fl xs" by (intro fl_rep_frame[OF _ xs(1)]) blast
  thus ?thesis using xs(2,3) by (auto simp: pool_inv_def)
qed

lemma pool_inv_frame:
  assumes c: "pool_comp c" and same: "\<forall>a\<in>comp_bytes c. m' a = m a" and inv: "pool_inv c m fl held"
  shows "pool_inv c m' fl held"
proof (rule pool_inv_cong[OF _ inv])
  fix x assume "x \<in> set (comp_objs c) - held"
  thus "load_ptr m' x = load_ptr m x"
    using same obj_byte(2)[OF c, of x _ 8] pool_compD(3)[OF c] by (intro load_ptr_cong) auto
qed

lemma pool_inv_write:
  assumes c: "pool_comp c" and inv: "pool_inv c m fl held" and p: "p \<in> held" and j: "j < unat (dsize (desc c))"
  shows "pool_inv c (m(p + of_nat j := b)) fl held" and "p + of_nat j \<in> comp_bytes c"
proof -
  have po: "p \<in> set (comp_objs c)" using pool_inv_held[OF inv] p by blast
  have "unat (of_nat j :: addr) = j" using j unat_lt64[of "dsize (desc c)"] by (intro unat_of_nat_64) linarith
  hence o: "unat ((p + of_nat j) - p) < unat (dsize (desc c))" "unat ((p + of_nat j) - p) = j" using j by simp_all
  note w = obj_byte[OF c po o(1) order.refl, unfolded o(2)]
  show "p + of_nat j \<in> comp_bytes c" by (rule w(2))
  show "pool_inv c (m(p + of_nat j := b)) fl held"
  proof (rule pool_inv_cong[OF _ inv], rule load_ptr_cong)
    fix x y assume x: "x \<in> set (comp_objs c) - held" and y: "unat (y - x) < 8"
    hence "unat y = unat x + unat (y - x)" using obj_byte(1)[OF c, of x y 8] pool_compD(3)[OF c] by auto
    moreover have "unat p + unat (dsize (desc c)) \<le> unat x \<or> unat x + unat (dsize (desc c)) \<le> unat p"
      using comp_objs_spaced[OF pool_compD(1,2)[OF c] po, of x] x p by auto
    ultimately have "y \<noteq> p + of_nat j" using w(1) j y pool_compD(3)[OF c] by auto
    thus "(m(p + of_nat j := b)) y = m y" by simp
  qed
qed

text \<open>What an allocation answers, and what the counter says.\<close>

lemma pool_inv_answer:
  assumes c: "pool_comp c" and inv: "pool_inv c m fl held" and al: "jfs_fl_alloc load_ptr m fl = (p, fl')"
  shows "(p = NULL \<longleftrightarrow> held = set (comp_objs c)) \<and> (p \<noteq> NULL \<longrightarrow> p \<in> set (comp_objs c) - held)
    \<and> unat (fl_count fl) + card held = unat (dcount (desc c))"
proof -
  obtain xs where xs: "fl_rep (load_ptr m) fl xs" "set xs \<inter> held = {}" "set xs \<union> held = set (comp_objs c)"
    using inv by (auto simp: pool_inv_def)
  have "unat (dcount (desc c)) = card (set xs \<union> held)"
    using xs(3) distinct_comp_objs[OF pool_compD(1,2)[OF c]] by (metis distinct_card length_comp_objs)
  also have "\<dots> = length xs + card held"
    using xs by (subst card_Un_disjoint) (auto simp: fl_rep_def distinct_card intro: finite_subset[of held "set (comp_objs c)"])
  finally have cnt: "unat (fl_count fl) + card held = unat (dcount (desc c))" using xs(1) by (simp add: fl_rep_def)
  show ?thesis
  proof (cases xs)
    case Nil
    thus ?thesis using bytes.pop_empty[of m fl] xs al cnt by auto
  next
    case (Cons a as)
    have "p = a" "a \<noteq> NULL" using bytes.pop[of m fl a as] fl_rep_not_null[OF xs(1)] xs(1) Cons al by auto
    moreover have "a \<in> set (comp_objs c) - held" using xs Cons by auto
    ultimately show ?thesis using cnt by auto
  qed
qed

lemma pool_reach_inv:
  assumes "pool_reach c m fl held" and c: "pool_comp c"
  shows "pool_inv c m fl held"
  using assms(1)
  by (induction rule: pool_reach.induct)
    (rule pool_inv_init[OF c] pool_inv_alloc pool_inv_write(1)[OF c] pool_inv_free[OF c]; assumption)+

text \<open>
  C14. The component has objects of 8 bytes or more, so that an object can hold its link.  In every state
  that a client can reach from \<open>jfs_fl_init\<close> by allocating, by writing any bytes of the objects it holds
  and by freeing what it holds, \<open>jfs_fl_alloc\<close> returns \<open>NULL\<close> exactly when the client holds all objects
  of the component, and otherwise an object of the component that the client does not hold and that does
  not overlap any object it holds; the counter is always the number of objects that are not held.
\<close>

theorem fl_alloc_safe:
  assumes reach: "pool_reach c m fl held" and v: "jfs_mlg_valid_component c"
    and fit: "unat (ptr c) + extent (desc c) \<le> 2 ^ 64" and link: "8 \<le> unat (dsize (desc c))"
    and al: "jfs_fl_alloc load_ptr m fl = (p, fl')"
  shows "(p = NULL \<longleftrightarrow> held = set (comp_objs c)) \<and> unat (fl_count fl) + card held = unat (dcount (desc c))
    \<and> (p \<noteq> NULL \<longrightarrow> p \<in> set (comp_objs c) - held \<and>
        (\<forall>q\<in>held. unat p + unat (dsize (desc c)) \<le> unat q \<or> unat q + unat (dsize (desc c)) \<le> unat p))"
proof -
  have c: "pool_comp c" using v fit link by (simp add: pool_comp_def)
  have inv: "pool_inv c m fl held" using pool_reach_inv[OF reach c] .
  thus ?thesis using pool_inv_answer[OF c inv al] pool_inv_held[OF inv] comp_objs_spaced[OF v fit, of p] by auto
qed

definition demo_component :: jfs_mlg_component where
  "demo_component = \<lparr>ptr = 4096, desc = \<lparr>dsize = 16, align = 8, dcount = 3\<rparr>\<rparr>"

lemma demo_component_ok:
  "jfs_mlg_valid_component demo_component" "unat (ptr demo_component) + extent (desc demo_component) \<le> 2 ^ 64"
  "8 \<le> unat (dsize (desc demo_component))"
  by (simp_all add: demo_component_def jfs_mlg_valid_component_def jfs_mlg_valid_desc_def jfs_mlg_valid_align_def extent_def)

theorem fl_alloc_safe_witness:
  "\<exists>m fl q fl1 p fl2. pool_reach demo_component m fl {} \<and> jfs_fl_alloc load_ptr m fl = (q, fl1)
     \<and> pool_reach demo_component (m(q := 255)) fl1 {q} \<and> jfs_fl_alloc load_ptr (m(q := 255)) fl1 = (p, fl2)
     \<and> p \<in> set (comp_objs demo_component) - {q} \<and> unat (fl_count fl1) = 2"
proof -
  have "pool_comp demo_component" using demo_component_ok by (simp add: pool_comp_def)
  then obtain m fl where i: "jfs_fl_init store_ptr (\<lambda>_. 0) \<lparr>fl_list = 0, fl_count = 0\<rparr> demo_component JCL_OK = (m, fl, JCL_OK)"
    using bytes_init by blast
  have objs: "set (comp_objs demo_component) = {4096, 4112, 4128}" by (simp add: comp_objs_def demo_component_def upt_rec)
  have r: "pool_reach demo_component m fl {}" using i by (rule reach_init)
  obtain q fl1 where a: "jfs_fl_alloc load_ptr m fl = (q, fl1)" by fastforce
  have "q \<noteq> NULL" using fl_alloc_safe[OF r demo_component_ok a] objs by auto
  from reach_alloc[OF r a this] have "pool_reach demo_component m fl1 {q}" by simp
  from reach_write[OF this, of q 0 255] have r1: "pool_reach demo_component (m(q := 255)) fl1 {q}"
    by (simp add: demo_component_def)
  obtain p fl2 where b: "jfs_fl_alloc load_ptr (m(q := 255)) fl1 = (p, fl2)" by fastforce
  note ans = fl_alloc_safe[OF r1 demo_component_ok b]
  have "{q} \<noteq> set (comp_objs demo_component)" using objs by auto
  hence "p \<in> set (comp_objs demo_component) - {q} \<and> unat (fl_count fl1) = 2" using ans by (auto simp: demo_component_def)
  thus ?thesis using r a r1 b by blast
qed

text \<open>
  Freeing an object and allocating again returns that object and the same list of free objects.
\<close>

theorem fl_free_alloc_roundtrip:
  assumes "fl_rep (load_ptr m) fl xs" "\<forall>x\<in>set xs. words_apart p x" "p \<noteq> NULL" "Suc (length xs) < 2 ^ 64"
    and f: "jfs_fl_free store_ptr m fl p = (m', fl')"
  shows "\<exists>fl''. jfs_fl_alloc load_ptr m' fl' = (p, fl'') \<and> fl_rep (load_ptr m') fl'' xs \<and> fl_count fl'' = fl_count fl \<and> fl_list fl'' = fl_list fl"
proof -
  have r: "fl_rep (load_ptr m') fl' (p # xs)" using bytes.push[OF assms(1-4)] f by auto
  obtain fl'' where a: "jfs_fl_alloc load_ptr m' fl' = (p, fl'')" "fl_rep (load_ptr m') fl'' xs" using bytes.pop[OF r] by blast
  hence "fl_count fl'' = fl_count fl \<and> fl_list fl'' = fl_list fl"
    using assms(3) f by (auto simp: jfs_fl_free_def jfs_fl_alloc_def Let_def split: if_splits)
  thus ?thesis using a by blast
qed

theorem fl_free_alloc_roundtrip_witness:
  "\<exists>m' fl' fl''. jfs_fl_free store_ptr (\<lambda>_. 0) \<lparr>fl_list = 0, fl_count = 0\<rparr> 64 = (m', fl') \<and> jfs_fl_alloc load_ptr m' fl' = (64, fl'')
     \<and> fl_rep (load_ptr m') fl'' []"
proof -
  obtain m' fl' where f: "jfs_fl_free store_ptr (\<lambda>_. 0) \<lparr>fl_list = 0, fl_count = 0\<rparr> 64 = (m', fl')" by fastforce
  have "fl_rep (load_ptr (\<lambda>_. 0)) \<lparr>fl_list = 0, fl_count = 0\<rparr> []" by (simp add: fl_rep_def)
  thus ?thesis using f fl_free_alloc_roundtrip[OF _ _ _ _ f, of "[]"] by auto
qed

text \<open>
  The minimal object size is defined in the source but not enforced: \<open>jfs_fl_init\<close> accepts a
  component of three one-byte objects, the links overlap, and the second allocation puts the list on an
  address that is no object of the component, which the third one returns.
\<close>

definition tiny_component :: jfs_mlg_component where
  "tiny_component = \<lparr>ptr = 4096, desc = \<lparr>dsize = 1, align = 1, dcount = 3\<rparr>\<rparr>"

definition tiny_run :: "jcl_err \<times> addr \<times> addr \<times> addr" where
  "tiny_run =
     (case jfs_fl_init store_ptr (\<lambda>_. 0) \<lparr>fl_list = NULL, fl_count = 0\<rparr> tiny_component JCL_OK of (m, fl, err) \<Rightarrow>
      case jfs_fl_alloc load_ptr m fl of (a, fl) \<Rightarrow>
      case jfs_fl_alloc load_ptr m fl of (b, fl) \<Rightarrow>
      case jfs_fl_alloc load_ptr m fl of (d, fl) \<Rightarrow> (err, a, b, d))"

theorem fl_tiny_objects_corrupt:
  "tiny_run = (JCL_OK, 4098, 4097, 0x100100) \<and> 0x100100 \<notin> set (comp_objs tiny_component)"
proof -
  have top: "unat (- 1 :: addr) = 2 ^ 64 - 1" by (simp add: unsigned_minus_1_eq_mask mask_eq_exp_minus_1)
  let ?m = "store_ptr (store_ptr (store_ptr (\<lambda>_. 0) 4096 0) 4097 4096) 4098 4097"
  have link: "fl_link_from store_ptr 3 0 4096 1 (\<lambda>_. 0) 0 = (?m, 4098)" by (simp add: numeral_3_eq_3 Let_def)
  have init: "jfs_fl_init store_ptr (\<lambda>_. 0) \<lparr>fl_list = NULL, fl_count = 0\<rparr> tiny_component JCL_OK
      = (?m, \<lparr>fl_list = 4098, fl_count = 3\<rparr>, JCL_OK)"
    by (simp add: jfs_fl_init_def fl_link_memory_def tiny_component_def jfs_mlg_valid_component_def
        jfs_mlg_valid_desc_def jfs_mlg_valid_align_def link)
  have ld: "load_ptr ?m 4097 = 0x100100"
    by (simp add: load_ptr_def read_bytes_def store_ptr_def write_bytes_def word_bytes_def upt_rec bytes_word_def top)
  have "tiny_run = (JCL_OK, 4098, 4097, 0x100100)"
    by (simp add: tiny_run_def init jfs_fl_alloc_def ld)
  thus ?thesis by (simp add: comp_objs_def tiny_component_def upt_rec)
qed

end
