(* ===== verification/Bst_Code.thy ===== *)
theory Bst_Code
  imports Free_List
begin

unbundle bit_operations_syntax

text \<open>
  \<open>src/binary_search_tree.c\<close>: a red-black tree with parent pointers, a nil sentinel, a cache of the
  smallest, the largest and the last used node, and nodes taken from a free list.

  The state \<open>jfs_bst\<close> holds the fields of \<open>struct jfs_bst\<close> and the memory of the nodes, one map per
  field of \<open>struct jfs_bst_node\<close>; \<open>vals\<close> maps the address of a value to the value.  The first word of
  a node is \<open>parent_color\<close> while it is in the tree and the \<open>next\<close> pointer while it is in the free
  list, so the free list works on the \<open>parent_color\<close> map, with the cell accesses \<open>cell_load\<close> and
  \<open>cell_store\<close>.  One cell per field and node describes nodes that do not overlap, objects of at least
  32 bytes; the theorems that start at \<open>jfs_bst_init\<close> have this as a hypothesis (\<open>bst_memory\<close>).

  The source copies \<open>value_size\<close> bytes from and to objects that callers point to.  Their size is \<open>obj_bytes\<close>,
  which no code stores: a copy of more bytes than that leaves the object and is a \<open>Fault\<close>.  Otherwise what is
  copied is a value of type \<open>'v\<close>, the contents of the first \<open>value_size\<close> bytes.
  Loops take a fuel argument.

  \<open>tree->attach\<close> and \<open>tree->detach\<close>, which the source calls but whose fields \<open>struct jfs_bst\<close> does not
  declare, are parameters of the operations that call them; \<open>attach_nodes\<close> and \<open>detach_nodes\<close> are the
  instances made of the source's own \<open>bst_attach_node\<close> and \<open>bst_detach_node\<close>.
\<close>

section \<open>Data\<close>

definition BST_RED :: "64 word" where "BST_RED = 0"
definition BST_BLACK :: "64 word" where "BST_BLACK = 1"

record bst_location =
  loc_node :: addr
  loc_parent :: addr
  parent_cmp :: int

record jfs_bst_cache =
  smallest :: addr
  largest :: addr
  previous :: addr

record ('k, 'v) jfs_bst =
  root :: addr
  nil :: addr
  cache :: jfs_bst_cache
  bst_cmp :: "('k \<Rightarrow> 'v \<Rightarrow> int) option"
  value_offset :: addr
  value_size :: size_t
  free_list :: jfs_fl
  parent_color :: "addr \<Rightarrow> addr"
  right :: "addr \<Rightarrow> addr"
  left :: "addr \<Rightarrow> addr"
  node_list :: "addr \<Rightarrow> addr"
  vals :: "addr \<Rightarrow> 'v"
  obj_bytes :: nat

record ('k, 'v) jfs_bst_conf =
  bst_component :: jfs_mlg_component
  conf_cmp :: "('k \<Rightarrow> 'v \<Rightarrow> int) option"

definition SIZEOF_BST_NODE :: size_t where "SIZEOF_BST_NODE = 32"
definition ALIGNOF_BST_NODE :: size_t where "ALIGNOF_BST_NODE = 8"

section \<open>Parent and colour\<close>

definition bst_parent :: "('k, 'v) jfs_bst \<Rightarrow> addr \<Rightarrow> addr run" where
  "bst_parent t node = assert_c (node \<noteq> NULL) (Ret (parent_color t node AND NOT 1))"

definition bst_set_parent :: "('k, 'v) jfs_bst \<Rightarrow> addr \<Rightarrow> addr \<Rightarrow> ('k, 'v) jfs_bst run" where
  "bst_set_parent t node parent =
     assert_c (node \<noteq> NULL) (assert_c (parent \<noteq> NULL)
     (Ret (t\<lparr>parent_color := (parent_color t)(node := parent OR (parent_color t node AND 1))\<rparr>)))"

definition bst_color :: "('k, 'v) jfs_bst \<Rightarrow> addr \<Rightarrow> 64 word run" where
  "bst_color t node = assert_c (node \<noteq> NULL) (Ret (parent_color t node AND 1))"

definition bst_set_color :: "('k, 'v) jfs_bst \<Rightarrow> addr \<Rightarrow> 64 word \<Rightarrow> ('k, 'v) jfs_bst run" where
  "bst_set_color t node color =
     assert_c (node \<noteq> NULL) (assert_c (color = BST_RED \<or> color = BST_BLACK)
     (Ret (t\<lparr>parent_color := (parent_color t)(node := (parent_color t node AND NOT 1) OR color)\<rparr>)))"

definition bst_set_parent_color ::
  "('k, 'v) jfs_bst \<Rightarrow> addr \<Rightarrow> addr \<Rightarrow> 64 word \<Rightarrow> ('k, 'v) jfs_bst run" where
  "bst_set_parent_color t node parent color =
     assert_c (node \<noteq> NULL) (assert_c (parent \<noteq> NULL) (assert_c (color = BST_RED \<or> color = BST_BLACK)
     (Ret (t\<lparr>parent_color := (parent_color t)(node := parent OR color)\<rparr>))))"

section \<open>Values and lists of equal keys\<close>

definition bst_container_value :: "('k, 'v) jfs_bst \<Rightarrow> addr \<Rightarrow> addr run" where
  "bst_container_value t node = jfs_mlg_apply_offset node (value_offset t)"

definition bst_container_node :: "('k, 'v) jfs_bst \<Rightarrow> addr \<Rightarrow> addr" where
  "bst_container_node t value = value - value_offset t"

text \<open>\<open>memcpy\<close> of \<open>value_size\<close> bytes stays inside the object of the caller.\<close>

definition copy_fits :: "('k, 'v) jfs_bst \<Rightarrow> bool" where
  "copy_fits t \<longleftrightarrow> unat (value_size t) \<le> obj_bytes t"

definition bst_pack_node :: "('k, 'v) jfs_bst \<Rightarrow> addr \<Rightarrow> 'v \<Rightarrow> (('k, 'v) jfs_bst \<times> addr) run" where
  "bst_pack_node t node value =
     run_bind (bst_container_value t node) (\<lambda>value_ptr.
     if copy_fits t then Ret (t\<lparr>vals := (vals t)(value_ptr := value)\<rparr>, value_ptr) else Fault)"

definition bst_unpack_node :: "('k, 'v) jfs_bst \<Rightarrow> addr \<Rightarrow> 'v run" where
  "bst_unpack_node t node = run_bind (bst_container_value t node) (\<lambda>value_ptr.
     if copy_fits t then Ret (vals t value_ptr) else Fault)"

definition bst_attach_node :: "('k, 'v) jfs_bst \<Rightarrow> addr \<Rightarrow> addr \<Rightarrow> ('k, 'v) jfs_bst" where
  "bst_attach_node t base_node attach_node =
     (let t = t\<lparr>node_list := (node_list t)(attach_node := node_list t base_node)\<rparr>
      in t\<lparr>node_list := (node_list t)(base_node := attach_node)\<rparr>)"

definition bst_detach_node :: "('k, 'v) jfs_bst \<Rightarrow> addr \<Rightarrow> addr \<times> ('k, 'v) jfs_bst" where
  "bst_detach_node t base_node =
     (if node_list t base_node = NULL then (base_node, t)
      else let ret = node_list t base_node
           in (ret, t\<lparr>node_list := (node_list t)(base_node := node_list t (node_list t base_node))\<rparr>))"

definition attach_nodes :: "('k, 'v) jfs_bst \<Rightarrow> addr \<Rightarrow> addr \<Rightarrow> ('k, 'v) jfs_bst" where
  "attach_nodes t base_value value = bst_attach_node t (bst_container_node t base_value) (bst_container_node t value)"

definition detach_nodes :: "('k, 'v) jfs_bst \<Rightarrow> addr \<Rightarrow> addr \<times> ('k, 'v) jfs_bst" where
  "detach_nodes t value =
     (case bst_detach_node t (bst_container_node t value) of (node, t') \<Rightarrow> (node + value_offset t, t'))"

section \<open>Rotations and replacement\<close>

definition bst_rotate_left :: "('k, 'v) jfs_bst \<Rightarrow> addr \<Rightarrow> ('k, 'v) jfs_bst run" where
  "bst_rotate_left t x =
     assert_c (x \<noteq> nil t) (assert_c (right t x \<noteq> nil t)
     (let y = right t x in
      run_bind (bst_parent t x) (\<lambda>x_parent.
      let t = t\<lparr>right := (right t)(x := left t y)\<rparr> in
      run_bind (if left t y \<noteq> nil t then bst_set_parent t (left t y) x else Ret t) (\<lambda>t.
      run_bind (bst_set_parent t y x_parent) (\<lambda>t.
      let t = (if x_parent = nil t then t\<lparr>root := y\<rparr>
               else if x = left t x_parent then t\<lparr>left := (left t)(x_parent := y)\<rparr>
               else t\<lparr>right := (right t)(x_parent := y)\<rparr>);
          t = t\<lparr>left := (left t)(y := x)\<rparr>
      in bst_set_parent t x y)))))"

definition bst_rotate_right :: "('k, 'v) jfs_bst \<Rightarrow> addr \<Rightarrow> ('k, 'v) jfs_bst run" where
  "bst_rotate_right t x =
     assert_c (x \<noteq> nil t) (assert_c (left t x \<noteq> nil t)
     (let y = left t x in
      run_bind (bst_parent t x) (\<lambda>x_parent.
      let t = t\<lparr>left := (left t)(x := right t y)\<rparr> in
      run_bind (if right t y \<noteq> nil t then bst_set_parent t (right t y) x else Ret t) (\<lambda>t.
      run_bind (bst_set_parent t y x_parent) (\<lambda>t.
      let t = (if x_parent = nil t then t\<lparr>root := y\<rparr>
               else if x = left t x_parent then t\<lparr>left := (left t)(x_parent := y)\<rparr>
               else t\<lparr>right := (right t)(x_parent := y)\<rparr>);
          t = t\<lparr>right := (right t)(y := x)\<rparr>
      in bst_set_parent t x y)))))"

definition bst_transplant :: "('k, 'v) jfs_bst \<Rightarrow> addr \<Rightarrow> addr \<Rightarrow> ('k, 'v) jfs_bst run" where
  "bst_transplant t old new =
     assert_c (root t \<noteq> nil t) (assert_c (old \<noteq> new)
     (run_bind (bst_parent t old) (\<lambda>old_parent.
      let t = (if old_parent = nil t then t\<lparr>root := new\<rparr>
               else if left t old_parent = old then t\<lparr>left := (left t)(old_parent := new)\<rparr>
               else t\<lparr>right := (right t)(old_parent := new)\<rparr>)
      in bst_set_parent t new old_parent)))"

fun bst_local_minimum :: "nat \<Rightarrow> ('k, 'v) jfs_bst \<Rightarrow> addr \<Rightarrow> addr run" where
  "bst_local_minimum 0 t start = Loop"
| "bst_local_minimum (Suc fuel) t start =
     (if left t start \<noteq> nil t then bst_local_minimum fuel t (left t start) else Ret start)"

fun bst_local_maximum :: "nat \<Rightarrow> ('k, 'v) jfs_bst \<Rightarrow> addr \<Rightarrow> addr run" where
  "bst_local_maximum 0 t start = Loop"
| "bst_local_maximum (Suc fuel) t start =
     (if right t start \<noteq> nil t then bst_local_maximum fuel t (right t start) else Ret start)"

section \<open>Rebalancing\<close>

text \<open>
  One round of the loop of \<open>bst_fixup_insert\<close>: the first component of the result says whether the
  loop goes on with the node in the third, or has left through \<open>break\<close>.
\<close>

definition bst_fixup_insert_step ::
  "('k, 'v) jfs_bst \<Rightarrow> addr \<Rightarrow> (bool \<times> ('k, 'v) jfs_bst \<times> addr) run" where
  "bst_fixup_insert_step t node =
     run_bind (bst_parent t node) (\<lambda>parent.
     run_bind (bst_parent t parent) (\<lambda>grandparent.
     assert_c (grandparent \<noteq> nil t)
     (if parent = left t grandparent then
        let uncle = right t grandparent in
        run_bind (bst_color t uncle) (\<lambda>uncle_color.
        if uncle_color = BST_RED then
          run_bind (bst_set_color t parent BST_BLACK) (\<lambda>t.
          run_bind (bst_set_color t uncle BST_BLACK) (\<lambda>t.
          run_bind (bst_set_color t grandparent BST_RED) (\<lambda>t.
          Ret (True, t, grandparent))))
        else
          run_bind (if node = right t parent
                    then run_bind (bst_rotate_left t parent) (\<lambda>t.
                         run_bind (bst_parent t parent) (\<lambda>p. Ret (t, parent, p)))
                    else Ret (t, node, parent)) (\<lambda>(t, node, parent).
          run_bind (bst_set_color t parent BST_BLACK) (\<lambda>t.
          run_bind (bst_set_color t grandparent BST_RED) (\<lambda>t.
          run_bind (bst_rotate_right t grandparent) (\<lambda>t.
          Ret (False, t, node))))))
      else
        let uncle = left t grandparent in
        run_bind (bst_color t uncle) (\<lambda>uncle_color.
        if uncle_color = BST_RED then
          run_bind (bst_set_color t parent BST_BLACK) (\<lambda>t.
          run_bind (bst_set_color t uncle BST_BLACK) (\<lambda>t.
          run_bind (bst_set_color t grandparent BST_RED) (\<lambda>t.
          Ret (True, t, grandparent))))
        else
          run_bind (if node = left t parent
                    then run_bind (bst_rotate_right t parent) (\<lambda>t.
                         run_bind (bst_parent t parent) (\<lambda>p. Ret (t, parent, p)))
                    else Ret (t, node, parent)) (\<lambda>(t, node, parent).
          run_bind (bst_set_color t parent BST_BLACK) (\<lambda>t.
          run_bind (bst_set_color t grandparent BST_RED) (\<lambda>t.
          run_bind (bst_rotate_left t grandparent) (\<lambda>t.
          Ret (False, t, node)))))))))"

fun bst_fixup_insert_loop :: "nat \<Rightarrow> ('k, 'v) jfs_bst \<Rightarrow> addr \<Rightarrow> ('k, 'v) jfs_bst run" where
  "bst_fixup_insert_loop 0 t node = Loop"
| "bst_fixup_insert_loop (Suc fuel) t node =
     run_bind (bst_parent t node) (\<lambda>parent.
     run_bind (bst_color t parent) (\<lambda>parent_color.
     if parent_color = BST_RED then
       run_bind (bst_fixup_insert_step t node) (\<lambda>(again, t, node).
       if again then bst_fixup_insert_loop fuel t node else Ret t)
     else Ret t))"

definition bst_fixup_insert :: "nat \<Rightarrow> ('k, 'v) jfs_bst \<Rightarrow> addr \<Rightarrow> ('k, 'v) jfs_bst run" where
  "bst_fixup_insert fuel t node =
     assert_c (node \<noteq> nil t) (assert_c (root t \<noteq> nil t)
     (run_bind (bst_color t node) (\<lambda>c. assert_c (c = BST_RED)
     (run_bind (bst_fixup_insert_loop fuel t node) (\<lambda>t.
      bst_set_color t (root t) BST_BLACK)))))"

text \<open>
  One round of the loop of \<open>bst_fixup_delete\<close>: the tree and the node with which the loop goes on.
  In the source the colour of both children of the sibling is read with a short-circuit \<open>&&\<close>; reading
  a colour has no effect, so reading both first is the same.
\<close>

definition bst_fixup_delete_step ::
  "('k, 'v) jfs_bst \<Rightarrow> addr \<Rightarrow> (('k, 'v) jfs_bst \<times> addr) run" where
  "bst_fixup_delete_step t node =
     run_bind (bst_parent t node) (\<lambda>parent.
     if node = left t parent then
        let sibling = right t parent in
        run_bind (bst_color t sibling) (\<lambda>sibling_color.
        run_bind (if sibling_color = BST_RED then
                    run_bind (bst_set_color t sibling BST_BLACK) (\<lambda>t.
                    run_bind (bst_set_color t parent BST_RED) (\<lambda>t.
                    run_bind (bst_rotate_left t parent) (\<lambda>t.
                    Ret (t, right t parent))))
                  else Ret (t, sibling)) (\<lambda>(t, sibling).
        run_bind (bst_color t (left t sibling)) (\<lambda>left_color.
        run_bind (bst_color t (right t sibling)) (\<lambda>right_color.
        if left_color = BST_BLACK \<and> right_color = BST_BLACK then
          run_bind (bst_set_color t sibling BST_RED) (\<lambda>t. Ret (t, parent))
        else
          run_bind (if right_color = BST_BLACK then
                      run_bind (bst_set_color t (left t sibling) BST_BLACK) (\<lambda>t.
                      run_bind (bst_set_color t sibling BST_RED) (\<lambda>t.
                      run_bind (bst_rotate_right t sibling) (\<lambda>t.
                      Ret (t, right t parent))))
                    else Ret (t, sibling)) (\<lambda>(t, sibling).
          run_bind (bst_color t parent) (\<lambda>parent_color.
          run_bind (bst_set_color t sibling parent_color) (\<lambda>t.
          run_bind (bst_set_color t parent BST_BLACK) (\<lambda>t.
          run_bind (bst_set_color t (right t sibling) BST_BLACK) (\<lambda>t.
          run_bind (bst_rotate_left t parent) (\<lambda>t.
          Ret (t, root t)))))))))))
     else
        let sibling = left t parent in
        run_bind (bst_color t sibling) (\<lambda>sibling_color.
        run_bind (if sibling_color = BST_RED then
                    run_bind (bst_set_color t sibling BST_BLACK) (\<lambda>t.
                    run_bind (bst_set_color t parent BST_RED) (\<lambda>t.
                    run_bind (bst_rotate_right t parent) (\<lambda>t.
                    Ret (t, left t parent))))
                  else Ret (t, sibling)) (\<lambda>(t, sibling).
        run_bind (bst_color t (left t sibling)) (\<lambda>left_color.
        run_bind (bst_color t (right t sibling)) (\<lambda>right_color.
        if left_color = BST_BLACK \<and> right_color = BST_BLACK then
          run_bind (bst_set_color t sibling BST_RED) (\<lambda>t. Ret (t, parent))
        else
          run_bind (if left_color = BST_BLACK then
                      run_bind (bst_set_color t (right t sibling) BST_BLACK) (\<lambda>t.
                      run_bind (bst_set_color t sibling BST_RED) (\<lambda>t.
                      run_bind (bst_rotate_left t sibling) (\<lambda>t.
                      Ret (t, left t parent))))
                    else Ret (t, sibling)) (\<lambda>(t, sibling).
          run_bind (bst_color t parent) (\<lambda>parent_color.
          run_bind (bst_set_color t sibling parent_color) (\<lambda>t.
          run_bind (bst_set_color t parent BST_BLACK) (\<lambda>t.
          run_bind (bst_set_color t (left t sibling) BST_BLACK) (\<lambda>t.
          run_bind (bst_rotate_right t parent) (\<lambda>t.
          Ret (t, root t))))))))))))"

fun bst_fixup_delete_loop :: "nat \<Rightarrow> ('k, 'v) jfs_bst \<Rightarrow> addr \<Rightarrow> (('k, 'v) jfs_bst \<times> addr) run" where
  "bst_fixup_delete_loop 0 t node = Loop"
| "bst_fixup_delete_loop (Suc fuel) t node =
     run_bind (if node \<noteq> root t then run_bind (bst_color t node) (\<lambda>c. Ret (c = BST_BLACK)) else Ret False)
       (\<lambda>go_on.
        if go_on then run_bind (bst_fixup_delete_step t node) (\<lambda>(t, node). bst_fixup_delete_loop fuel t node)
        else Ret (t, node))"

definition bst_fixup_delete :: "nat \<Rightarrow> ('k, 'v) jfs_bst \<Rightarrow> addr \<Rightarrow> ('k, 'v) jfs_bst run" where
  "bst_fixup_delete fuel t node =
     run_bind (bst_fixup_delete_loop fuel t node) (\<lambda>(t, node). bst_set_color t node BST_BLACK)"

section \<open>Searching, inserting and deleting nodes\<close>

definition call_cmp :: "('k, 'v) jfs_bst \<Rightarrow> 'k \<Rightarrow> 'v \<Rightarrow> int run" where
  "call_cmp t key v = (case bst_cmp t of None \<Rightarrow> Fault | Some c \<Rightarrow> Ret (c key v))"

text \<open>The comparison of a key with the value in a node, \<open>tree->cmp(key, bst_container_value(tree, node))\<close>.\<close>

definition cmp_node :: "('k, 'v) jfs_bst \<Rightarrow> 'k \<Rightarrow> addr \<Rightarrow> int run" where
  "cmp_node t key node =
     run_bind (bst_container_value t node) (\<lambda>value_ptr. call_cmp t key (vals t value_ptr))"

definition bst_check_cache :: "('k, 'v) jfs_bst \<Rightarrow> 'k \<Rightarrow> addr run" where
  "bst_check_cache t key =
     run_bind (if previous (cache t) \<noteq> nil t
               then run_bind (cmp_node t key (previous (cache t))) (\<lambda>c. Ret (c = 0)) else Ret False) (\<lambda>hit.
     if hit then Ret (previous (cache t)) else
     run_bind (if largest (cache t) \<noteq> nil t
               then run_bind (cmp_node t key (largest (cache t))) (\<lambda>c. Ret (c = 0)) else Ret False) (\<lambda>hit.
     if hit then Ret (largest (cache t)) else
     run_bind (if smallest (cache t) \<noteq> nil t
               then run_bind (cmp_node t key (smallest (cache t))) (\<lambda>c. Ret (c = 0)) else Ret False) (\<lambda>hit.
     if hit then Ret (smallest (cache t)) else Ret (nil t))))"

fun bst_find_loop :: "nat \<Rightarrow> ('k, 'v) jfs_bst \<Rightarrow> 'k \<Rightarrow> bst_location \<Rightarrow> bst_location run" where
  "bst_find_loop 0 t key location = Loop"
| "bst_find_loop (Suc fuel) t key location =
     (if loc_node location \<noteq> nil t then
        run_bind (cmp_node t key (loc_node location)) (\<lambda>cmp_result.
        if cmp_result = 0 then Ret location
        else
          bst_find_loop fuel t key
            \<lparr>loc_node = (if cmp_result < 0 then left t (loc_node location) else right t (loc_node location)),
             loc_parent = loc_node location, parent_cmp = cmp_result\<rparr>)
      else Ret location)"

definition bst_find :: "nat \<Rightarrow> ('k, 'v) jfs_bst \<Rightarrow> 'k \<Rightarrow> bst_location run" where
  "bst_find fuel t key =
     bst_find_loop fuel t key \<lparr>loc_node = root t, loc_parent = nil t, parent_cmp = 0\<rparr>"

definition bst_insert :: "nat \<Rightarrow> ('k, 'v) jfs_bst \<Rightarrow> addr \<Rightarrow> bst_location \<Rightarrow> ('k, 'v) jfs_bst run" where
  "bst_insert fuel t node location =
     assert_c (loc_node location = nil t)
     (let t = t\<lparr>left := (left t)(node := nil t)\<rparr>;
          t = t\<lparr>right := (right t)(node := nil t)\<rparr> in
      run_bind (bst_set_parent_color t node (loc_parent location) BST_RED) (\<lambda>t.
      run_bind
        (if loc_parent location = nil t then assert_c (root t = nil t) (Ret (t\<lparr>root := node\<rparr>))
         else assert_c (parent_cmp location \<noteq> 0)
           (if parent_cmp location = -1
            then Ret (t\<lparr>left := (left t)(loc_parent location := node)\<rparr>)
            else Ret (t\<lparr>right := (right t)(loc_parent location := node)\<rparr>))) (\<lambda>t.
      bst_fixup_insert fuel t node)))"

definition bst_delete :: "nat \<Rightarrow> ('k, 'v) jfs_bst \<Rightarrow> addr \<Rightarrow> ('k, 'v) jfs_bst run" where
  "bst_delete fuel t node =
     assert_c (node \<noteq> nil t)
     (run_bind (bst_color t node) (\<lambda>deleted_color.
      run_bind
        (if left t node = nil t then
           let replacement = right t node in
           run_bind (bst_transplant t node (right t node)) (\<lambda>t. Ret (t, replacement, deleted_color))
         else if right t node = nil t then
           let replacement = left t node in
           run_bind (bst_transplant t node (left t node)) (\<lambda>t. Ret (t, replacement, deleted_color))
         else
           run_bind (bst_local_minimum fuel t (right t node)) (\<lambda>next_largest.
           run_bind (bst_color t next_largest) (\<lambda>deleted_color.
           let replacement = right t next_largest in
           run_bind
             (if next_largest \<noteq> right t node then
                run_bind (bst_transplant t next_largest (right t next_largest)) (\<lambda>t.
                let t = t\<lparr>right := (right t)(next_largest := right t node)\<rparr> in
                bst_set_parent t (right t next_largest) next_largest)
              else bst_set_parent t replacement next_largest) (\<lambda>t.
           run_bind (bst_transplant t node next_largest) (\<lambda>t.
           let t = t\<lparr>left := (left t)(next_largest := left t node)\<rparr> in
           run_bind (bst_set_parent t (left t next_largest) next_largest) (\<lambda>t.
           run_bind (bst_color t node) (\<lambda>c.
           run_bind (bst_set_color t next_largest c) (\<lambda>t.
           Ret (t, replacement, deleted_color)))))))))
        (\<lambda>(t, replacement, deleted_color).
         if deleted_color = BST_BLACK then bst_fixup_delete fuel t replacement else Ret t)))"

section \<open>The cache\<close>

definition bst_update_cache_insert :: "('k, 'v) jfs_bst \<Rightarrow> bst_location \<Rightarrow> ('k, 'v) jfs_bst" where
  "bst_update_cache_insert t location =
     (if parent_cmp location = -1 \<and> loc_parent location = smallest (cache t) then
        t\<lparr>cache := (cache t)\<lparr>smallest := left t (loc_parent location)\<rparr>\<rparr>
      else if parent_cmp location = 1 \<and> loc_parent location = largest (cache t) then
        t\<lparr>cache := (cache t)\<lparr>largest := right t (loc_parent location)\<rparr>\<rparr>
      else if largest (cache t) = nil t then
        t\<lparr>cache := (cache t)\<lparr>largest := root t, smallest := root t\<rparr>\<rparr>
      else t)"

definition bst_update_cache_delete :: "nat \<Rightarrow> ('k, 'v) jfs_bst \<Rightarrow> addr \<Rightarrow> ('k, 'v) jfs_bst run" where
  "bst_update_cache_delete fuel t node =
     (if smallest (cache t) = largest (cache t) then
        assert_c (node = root t)
        (Ret (t\<lparr>cache := (cache t)\<lparr>smallest := nil t, largest := nil t\<rparr>\<rparr>))
      else if node = smallest (cache t) then
        assert_c (left t (smallest (cache t)) = nil t)
        (run_bind (if right t (smallest (cache t)) \<noteq> nil t
                   then bst_local_minimum fuel t (right t (smallest (cache t)))
                   else bst_parent t (smallest (cache t)))
          (\<lambda>s. Ret (t\<lparr>cache := (cache t)\<lparr>smallest := s\<rparr>\<rparr>)))
      else if node = largest (cache t) then
        assert_c (right t (largest (cache t)) = nil t)
        (run_bind (if left t (largest (cache t)) \<noteq> nil t
                   then bst_local_maximum fuel t (left t (largest (cache t)))
                   else bst_parent t (largest (cache t)))
          (\<lambda>l. Ret (t\<lparr>cache := (cache t)\<lparr>largest := l\<rparr>\<rparr>)))
      else Ret t)"

definition bst_fl_free :: "('k, 'v) jfs_bst \<Rightarrow> addr \<Rightarrow> ('k, 'v) jfs_bst" where
  "bst_fl_free t node =
     (case jfs_fl_free cell_store (parent_color t) (free_list t) node of
        (pc, fl) \<Rightarrow> t\<lparr>parent_color := pc, free_list := fl\<rparr>)"

text \<open>The second component of the result is what was copied to \<open>*value_out\<close>.\<close>

definition bst_detach_and_delete ::
  "(('k, 'v) jfs_bst \<Rightarrow> addr \<Rightarrow> addr \<times> ('k, 'v) jfs_bst) \<Rightarrow> nat \<Rightarrow> ('k, 'v) jfs_bst \<Rightarrow> addr \<Rightarrow>
   (('k, 'v) jfs_bst \<times> 'v) run" where
  "bst_detach_and_delete detach fuel t node =
     assert_c (root t \<noteq> nil t)
     (run_bind (bst_container_value t node) (\<lambda>node_value.
      case detach t node_value of (detach_value, t) \<Rightarrow>
      if \<not> copy_fits t then Fault else
      let value_out = vals t detach_value in
      if detach_value = node_value then
        run_bind (bst_delete fuel t node) (\<lambda>t.
        run_bind (bst_update_cache_delete fuel t node) (\<lambda>t.
        Ret (bst_fl_free t node, value_out)))
      else
        Ret (bst_fl_free t (bst_container_node t detach_value), value_out)))"

section \<open>The public operations\<close>

definition jfs_bst_make_desc ::
  "size_t \<Rightarrow> size_t \<Rightarrow> size_t \<Rightarrow> jcl_err \<Rightarrow> (jfs_mlg_desc \<times> jcl_err) run" where
  "jfs_bst_make_desc o_size o_align o_count err =
     (let node_desc = \<lparr>dsize = SIZEOF_BST_NODE, align = ALIGNOF_BST_NODE, dcount = 1\<rparr> in
      assert_c (jfs_mlg_valid_desc node_desc)
      (let obj_desc = \<lparr>dsize = o_size, align = o_align, dcount = o_count\<rparr> in
       if \<not> jfs_mlg_valid_desc obj_desc then Ret (\<lparr>dsize = 0, align = 0, dcount = 0\<rparr>, JCL_ERR_ARG)
       else run_bind (jfs_mlg_append node_desc obj_desc) (\<lambda>(node_desc, _). Ret (node_desc, err))))"

text \<open>The argument \<open>nil_addr\<close> is \<open>&tree_init->nil_storage\<close>.\<close>

definition jfs_bst_init ::
  "addr \<Rightarrow> ('k, 'v) jfs_bst \<Rightarrow> ('k, 'v) jfs_bst_conf \<Rightarrow> jcl_err \<Rightarrow> (('k, 'v) jfs_bst \<times> jcl_err) run" where
  "jfs_bst_init nil_addr t conf err =
     (case jfs_fl_init cell_store (parent_color t) (free_list t) (bst_component conf) err of (pc, fl, err) \<Rightarrow>
      let t = t\<lparr>parent_color := pc, free_list := fl\<rparr> in
      if err \<noteq> JCL_OK then Ret (t, err)
      else
        let t = t\<lparr>nil := nil_addr\<rparr>;
            t = t\<lparr>left := (left t)(nil_addr := nil t)\<rparr>;
            t = t\<lparr>right := (right t)(nil_addr := nil t)\<rparr> in
        run_bind (bst_set_parent_color t (nil t) (nil t) BST_BLACK) (\<lambda>t.
        let t = t\<lparr>cache := \<lparr>smallest = nil t, largest = nil t, previous = nil t\<rparr>\<rparr>;
            t = t\<lparr>root := nil t\<rparr> in
        run_bind (jfs_mlg_align_size SIZEOF_BST_NODE (align (desc (bst_component conf)))) (\<lambda>off.
        let t = t\<lparr>value_offset := off\<rparr>;
            t = t\<lparr>value_size := dsize (desc (bst_component conf)) - value_offset t\<rparr>;
            t = t\<lparr>bst_cmp := conf_cmp conf\<rparr> in
        if bst_cmp t = None then Ret (t, JCL_ERR_BAD_CONF) else Ret (t, err))))"

definition jfs_bst_puts ::
  "(('k, 'v) jfs_bst \<Rightarrow> addr \<Rightarrow> addr \<Rightarrow> ('k, 'v) jfs_bst) \<Rightarrow> nat \<Rightarrow> ('k, 'v) jfs_bst \<Rightarrow> 'v \<Rightarrow> 'k \<Rightarrow> jcl_err \<Rightarrow>
   (('k, 'v) jfs_bst \<times> jcl_err) run" where
  "jfs_bst_puts attach fuel t value key err =
     (if fl_count (free_list t) = 0 then Ret (t, JCL_ERR_FULL)
      else case jfs_fl_alloc cell_load (parent_color t) (free_list t) of (node, fl) \<Rightarrow>
        let t = t\<lparr>free_list := fl\<rparr> in
        run_bind (bst_pack_node t node value) (\<lambda>(t, packed_value).
        run_bind (bst_check_cache t key) (\<lambda>cached_node.
        if cached_node \<noteq> nil t then
          run_bind (bst_container_value t cached_node) (\<lambda>cached_value.
          let t = attach t cached_value packed_value
          in Ret (t\<lparr>cache := (cache t)\<lparr>previous := cached_node\<rparr>\<rparr>, err))
        else
          run_bind (bst_find fuel t key) (\<lambda>location.
          run_bind
            (if loc_node location \<noteq> nil t then
               run_bind (bst_container_value t (loc_node location)) (\<lambda>found_value.
               Ret (attach t found_value packed_value))
             else
               run_bind (bst_insert fuel t node location) (\<lambda>t.
               Ret (bst_update_cache_insert t location)))
            (\<lambda>t. Ret (t\<lparr>cache := (cache t)\<lparr>previous := node\<rparr>\<rparr>, err))))))"

text \<open>In the results below \<open>None\<close> says that \<open>*value_out\<close> was not written.\<close>

definition jfs_bst_takes ::
  "(('k, 'v) jfs_bst \<Rightarrow> addr \<Rightarrow> addr \<times> ('k, 'v) jfs_bst) \<Rightarrow> nat \<Rightarrow> ('k, 'v) jfs_bst \<Rightarrow> 'k \<Rightarrow> jcl_err \<Rightarrow>
   (('k, 'v) jfs_bst \<times> 'v option \<times> jcl_err) run" where
  "jfs_bst_takes detach fuel t key err =
     (if root t = nil t then Ret (t, None, JCL_ERR_EMPTY)
      else
        run_bind (bst_check_cache t key) (\<lambda>cached_node.
        if cached_node \<noteq> nil t then
          run_bind (bst_unpack_node t cached_node) (\<lambda>v. Ret (t, Some v, err))
        else
          run_bind (bst_find fuel t key) (\<lambda>location.
          if loc_node location = nil t then Ret (t, None, JCL_ERR_BST_BAD_KEY)
          else run_bind (bst_detach_and_delete detach fuel t (loc_node location)) (\<lambda>(t, v).
               Ret (t, Some v, err)))))"

definition jfs_bst_get_largest ::
  "(('k, 'v) jfs_bst \<Rightarrow> addr \<Rightarrow> addr \<times> ('k, 'v) jfs_bst) \<Rightarrow> nat \<Rightarrow> ('k, 'v) jfs_bst \<Rightarrow> jcl_err \<Rightarrow>
   (('k, 'v) jfs_bst \<times> 'v option \<times> jcl_err) run" where
  "jfs_bst_get_largest detach fuel t err =
     (if largest (cache t) = nil t then Ret (t, None, JCL_ERR_EMPTY)
      else run_bind (bst_detach_and_delete detach fuel t (largest (cache t))) (\<lambda>(t, v). Ret (t, Some v, err)))"

definition jfs_bst_get_smallest ::
  "(('k, 'v) jfs_bst \<Rightarrow> addr \<Rightarrow> addr \<times> ('k, 'v) jfs_bst) \<Rightarrow> nat \<Rightarrow> ('k, 'v) jfs_bst \<Rightarrow> jcl_err \<Rightarrow>
   (('k, 'v) jfs_bst \<times> 'v option \<times> jcl_err) run" where
  "jfs_bst_get_smallest detach fuel t err =
     (if smallest (cache t) = nil t then Ret (t, None, JCL_ERR_EMPTY)
      else run_bind (bst_detach_and_delete detach fuel t (smallest (cache t))) (\<lambda>(t, v). Ret (t, Some v, err)))"

end
