(* ===== verification/Bst_Tree.thy ===== *)
theory Bst_Tree
  imports Jcl_Prelude
begin

text \<open>
  The mathematical side of the red-black tree: coloured trees of node addresses, one-hole contexts
  (the path from a node to the root with the subtrees that hang off it), the red-black invariants,
  and the rebalancing after an insertion as a function on a subtree and its context.  Nothing here
  mentions memory.
\<close>

section \<open>Trees and contexts\<close>

datatype color = Red | Black

datatype ntree = Tip | Nd ntree color addr ntree

text \<open>\<open>LF c a r\<close>: the hole is the left child of \<open>a\<close>; \<open>RF l c a\<close>: it is the right child.\<close>

datatype frame = LF color addr ntree | RF ntree color addr

primrec inorder :: "ntree \<Rightarrow> addr list" where
  "inorder Tip = []"
| "inorder (Nd l c a r) = inorder l @ a # inorder r"

primrec col :: "ntree \<Rightarrow> color" where
  "col Tip = Black"
| "col (Nd l c a r) = c"

fun paint :: "color \<Rightarrow> ntree \<Rightarrow> ntree" where
  "paint c Tip = Tip"
| "paint c (Nd l d a r) = Nd l c a r"

primrec frame_col :: "frame \<Rightarrow> color" where
  "frame_col (LF c a r) = c"
| "frame_col (RF l c a) = c"

primrec frame_addr :: "frame \<Rightarrow> addr" where
  "frame_addr (LF c a r) = a"
| "frame_addr (RF l c a) = a"

fun fill :: "frame \<Rightarrow> ntree \<Rightarrow> ntree" where
  "fill (LF c a r) T = Nd T c a r"
| "fill (RF l c a) T = Nd l c a T"

fun plug :: "frame list \<Rightarrow> ntree \<Rightarrow> ntree" where
  "plug [] T = T"
| "plug (f # k) T = plug k (fill f T)"

fun ctx_left :: "frame list \<Rightarrow> addr list" where
  "ctx_left [] = []"
| "ctx_left (LF c a r # k) = ctx_left k"
| "ctx_left (RF l c a # k) = ctx_left k @ inorder l @ [a]"

fun ctx_right :: "frame list \<Rightarrow> addr list" where
  "ctx_right [] = []"
| "ctx_right (LF c a r # k) = a # inorder r @ ctx_right k"
| "ctx_right (RF l c a # k) = ctx_right k"

lemma inorder_plug: "inorder (plug k T) = ctx_left k @ inorder T @ ctx_right k"
  by (induction k arbitrary: T rule: ctx_left.induct) auto

lemma inorder_paint [simp]: "inorder (paint c T) = inorder T"
  by (cases T) auto

lemma col_paint [simp]: "T \<noteq> Tip \<Longrightarrow> col (paint c T) = c"
  by (cases T) auto

lemma col_paint_Black [simp]: "col (paint Black T) = Black"
  by (cases T) auto

lemma paint_Tip [simp]: "paint c T = Tip \<longleftrightarrow> T = Tip"
  by (cases T) auto

lemma paint_paint [simp]: "paint c (paint d T) = paint c T"
  by (cases T) auto

lemma plug_eq_Tip [simp]: "plug k T = Tip \<longleftrightarrow> k = [] \<and> T = Tip"
proof (induction k arbitrary: T)
  case (Cons f k)
  thus ?case by (cases f) auto
qed simp

section \<open>Red-black invariants\<close>

primrec bh :: "ntree \<Rightarrow> nat" where
  "bh Tip = 0"
| "bh (Nd l c a r) = bh l + (if c = Black then 1 else 0)"

primrec balanced :: "ntree \<Rightarrow> bool" where
  "balanced Tip \<longleftrightarrow> True"
| "balanced (Nd l c a r) \<longleftrightarrow> bh l = bh r \<and> balanced l \<and> balanced r"

primrec redok :: "ntree \<Rightarrow> bool" where
  "redok Tip \<longleftrightarrow> True"
| "redok (Nd l c a r) \<longleftrightarrow> (c = Red \<longrightarrow> col l = Black \<and> col r = Black) \<and> redok l \<and> redok r"

definition rb_tree :: "ntree \<Rightarrow> bool" where
  "rb_tree T \<longleftrightarrow> redok T \<and> balanced T \<and> col T = Black"

text \<open>
  A context that becomes a red-black tree when a balanced tree of black height \<open>b\<close> is plugged in,
  provided that tree's root is black or the innermost frame is.
\<close>

fun ctx_ok :: "frame list \<Rightarrow> nat \<Rightarrow> bool" where
  "ctx_ok [] b \<longleftrightarrow> True"
| "ctx_ok (LF c a r # k) b \<longleftrightarrow> bh r = b \<and> balanced r \<and> redok r
     \<and> (c = Red \<longrightarrow> col r = Black \<and> k \<noteq> [] \<and> frame_col (hd k) = Black) \<and> ctx_ok k (b + (if c = Black then 1 else 0))"
| "ctx_ok (RF l c a # k) b \<longleftrightarrow> bh l = b \<and> balanced l \<and> redok l
     \<and> (c = Red \<longrightarrow> col l = Black \<and> k \<noteq> [] \<and> frame_col (hd k) = Black) \<and> ctx_ok k (b + (if c = Black then 1 else 0))"

definition ctx_takes_red :: "frame list \<Rightarrow> bool" where
  "ctx_takes_red k \<longleftrightarrow> k = [] \<or> frame_col (hd k) = Black"

lemma plug_rb:
  assumes "ctx_ok k b" "redok T" "balanced T" "bh T = b" "col T = Red \<longrightarrow> ctx_takes_red k"
  shows "redok (plug k T) \<and> balanced (plug k T) \<and> (k \<noteq> [] \<longrightarrow> col (plug k T) = Black)"
  using assms
proof (induction k b arbitrary: T rule: ctx_ok.induct)
  case (2 c a r k b)
  have "redok (plug k (Nd T c a r)) \<and> balanced (plug k (Nd T c a r)) \<and> (k \<noteq> [] \<longrightarrow> col (plug k (Nd T c a r)) = Black)"
    using "2.prems" by (intro "2.IH") (auto simp: ctx_takes_red_def intro: color.exhaust)
  thus ?case using "2.prems" by (cases k; cases c) auto
next
  case (3 l c a k b)
  have "redok (plug k (Nd l c a T)) \<and> balanced (plug k (Nd l c a T)) \<and> (k \<noteq> [] \<longrightarrow> col (plug k (Nd l c a T)) = Black)"
    using "3.prems" by (intro "3.IH") (auto simp: ctx_takes_red_def intro: color.exhaust)
  thus ?case using "3.prems" by (cases k; cases c) auto
qed auto

lemma split_rb:
  assumes "redok (plug k T)" "balanced (plug k T)" "col (plug k T) = Black"
  shows "ctx_ok k (bh T) \<and> redok T \<and> balanced T \<and> (col T = Red \<longrightarrow> k \<noteq> [] \<and> frame_col (hd k) = Black)"
  using assms
proof (induction k arbitrary: T)
  case (Cons f k)
  from Cons.IH[of "fill f T"] Cons.prems
  have "ctx_ok k (bh (fill f T)) \<and> redok (fill f T) \<and> balanced (fill f T)
    \<and> (col (fill f T) = Red \<longrightarrow> k \<noteq> [] \<and> frame_col (hd k) = Black)" by simp
  thus ?case by (cases f; cases "frame_col f") auto
qed simp

section \<open>Rebalancing after an insertion\<close>

text \<open>
  The loop of \<open>bst_fixup_insert\<close> on a red subtree and its context.  The result is the whole tree before
  the root is painted black.
\<close>

fun fix_ins :: "frame list \<Rightarrow> ntree \<Rightarrow> ntree" where
  "fix_ins (LF Red p s # LF c g u # k) T =
     (if col u = Red then fix_ins k (Nd (Nd T Black p s) Red g (paint Black u))
      else plug k (Nd T Black p (Nd s Red g u)))"
| "fix_ins (RF s Red p # LF c g u # k) T =
     (if col u = Red then fix_ins k (Nd (Nd s Black p T) Red g (paint Black u))
      else case T of
        Nd a d n b \<Rightarrow> plug k (Nd (Nd s Red p a) Black n (Nd b Red g u))
      | Tip \<Rightarrow> Tip)"
| "fix_ins (RF s Red p # RF u c g # k) T =
     (if col u = Red then fix_ins k (Nd (paint Black u) Red g (Nd s Black p T))
      else plug k (Nd (Nd u Red g s) Black p T))"
| "fix_ins (LF Red p s # RF u c g # k) T =
     (if col u = Red then fix_ins k (Nd (paint Black u) Red g (Nd T Black p s))
      else case T of
        Nd a d n b \<Rightarrow> plug k (Nd (Nd u Red g a) Black n (Nd b Red p s))
      | Tip \<Rightarrow> Tip)"
| "fix_ins k T = plug k T"

definition insert_tree :: "frame list \<Rightarrow> addr \<Rightarrow> ntree" where
  "insert_tree k a = paint Black (fix_ins k (Nd Tip Red a Tip))"

lemma inorder_fix_ins: "T \<noteq> Tip \<Longrightarrow> inorder (fix_ins k T) = inorder (plug k T)"
  by (induction k T rule: fix_ins.induct) (auto simp: inorder_plug split: ntree.splits)

lemma bh_paint_Black: "col T = Red \<Longrightarrow> bh (paint Black T) = Suc (bh T)"
  by (cases T) auto

lemma balanced_paint [simp]: "balanced (paint c T) = balanced T"
  by (cases T) auto

lemma redok_paint_Black: "redok T \<Longrightarrow> redok (paint Black T)"
  by (cases T) auto

lemma not_Black [simp]: "c \<noteq> Black \<longleftrightarrow> c = Red" "Black \<noteq> c \<longleftrightarrow> c = Red"
  "c \<noteq> Red \<longleftrightarrow> c = Black" "Red \<noteq> c \<longleftrightarrow> c = Black"
  by (cases c; simp)+

definition fixed :: "ntree \<Rightarrow> bool" where
  "fixed T \<longleftrightarrow> redok (paint Black T) \<and> balanced T \<and> T \<noteq> Tip"

lemma fixed_plug:
  assumes "ctx_ok k (bh T)" "redok T" "balanced T" "col T = Red \<Longrightarrow> ctx_takes_red k" "T \<noteq> Tip"
  shows "fixed (plug k T)"
  using plug_rb[of k "bh T" T] assms by (auto simp: fixed_def redok_paint_Black)

lemma ctx_one_black: "ctx_ok [f] b \<Longrightarrow> frame_col f = Black"
  by (cases f; cases "frame_col f") auto

lemma fix_ins_fixed:
  assumes "ctx_ok k (bh T)" "redok T" "balanced T" "col T = Red"
  shows "fixed (fix_ins k T)"
  using assms
proof (induction k T rule: fix_ins.induct)
  case (1 p s c g u k T)
  have bhs: "bh s = bh T" "bh u = bh T" "ctx_ok k (Suc (bh T))"
    using "1.prems"(1) by (cases c; simp)+
  show ?case
  proof (cases "col u = Red")
    case True
    have "fixed (fix_ins k (Nd (Nd T Black p s) Red g (paint Black u)))"
      using "1.prems" True bhs by (intro "1.IH") (simp_all add: bh_paint_Black redok_paint_Black)
    thus ?thesis using True by simp
  next
    case False
    have "fixed (plug k (Nd T Black p (Nd s Red g u)))"
      using "1.prems" False bhs by (intro fixed_plug) simp_all
    thus ?thesis using False by simp
  qed
next
  case (2 s p c g u k T)
  have bhs: "bh s = bh T" "bh u = bh T" "ctx_ok k (Suc (bh T))"
    using "2.prems"(1) by (cases c; simp)+
  show ?case
  proof (cases "col u = Red")
    case True
    have "fixed (fix_ins k (Nd (Nd s Black p T) Red g (paint Black u)))"
      using "2.prems" True bhs by (intro "2.IH") (simp_all add: bh_paint_Black redok_paint_Black)
    thus ?thesis using True by simp
  next
    case False
    obtain a n b where T: "T = Nd a Red n b" using "2.prems"(4) by (cases T) auto
    have "fixed (plug k (Nd (Nd s Red p a) Black n (Nd b Red g u)))"
      using "2.prems" False bhs T by (intro fixed_plug) simp_all
    thus ?thesis using False T by simp
  qed
next
  case (3 s p u c g k T)
  have bhs: "bh s = bh T" "bh u = bh T" "ctx_ok k (Suc (bh T))"
    using "3.prems"(1) by (cases c; simp)+
  show ?case
  proof (cases "col u = Red")
    case True
    have "fixed (fix_ins k (Nd (paint Black u) Red g (Nd s Black p T)))"
      using "3.prems" True bhs by (intro "3.IH") (simp_all add: bh_paint_Black redok_paint_Black)
    thus ?thesis using True by simp
  next
    case False
    have "fixed (plug k (Nd (Nd u Red g s) Black p T))"
      using "3.prems" False bhs by (intro fixed_plug) simp_all
    thus ?thesis using False by simp
  qed
next
  case (4 p s u c g k T)
  have bhs: "bh s = bh T" "bh u = bh T" "ctx_ok k (Suc (bh T))"
    using "4.prems"(1) by (cases c; simp)+
  show ?case
  proof (cases "col u = Red")
    case True
    have "fixed (fix_ins k (Nd (paint Black u) Red g (Nd T Black p s)))"
      using "4.prems" True bhs by (intro "4.IH") (simp_all add: bh_paint_Black redok_paint_Black)
    thus ?thesis using True by simp
  next
    case False
    obtain a n b where T: "T = Nd a Red n b" using "4.prems"(4) by (cases T) auto
    have "fixed (plug k (Nd (Nd u Red g a) Black n (Nd b Red p s)))"
      using "4.prems" False bhs T by (intro fixed_plug) simp_all
    thus ?thesis using False T by simp
  qed
qed (unfold fix_ins.simps, (rule fixed_plug; auto simp: ctx_takes_red_def elim: ctx_one_black)+)

lemma insert_tree_rb:
  assumes "ctx_ok k 0"
  shows "rb_tree (insert_tree k a)"
  using fix_ins_fixed[of k "Nd Tip Red a Tip"] assms by (simp add: fixed_def rb_tree_def insert_tree_def)

lemma inorder_insert_tree: "inorder (insert_tree k a) = ctx_left k @ a # ctx_right k"
  by (simp add: insert_tree_def inorder_fix_ins inorder_plug)

end
