(* ===== verification/Bst_Rep.thy ===== *)
theory Bst_Rep
  imports Bst_Code Bst_Tree
begin

unbundle bit_operations_syntax

text \<open>
  The nodes in memory against the trees of \<open>Bst_Tree\<close>: what it means that the pointers of a
  \<open>jfs_bst\<close> represent a tree of node addresses, and that the pointer operations of
  \<open>src/binary_search_tree.c\<close> (colours, parents, rotations) do on the memory what the corresponding
  function does on the tree.
\<close>

section \<open>Parent and colour in one word\<close>

fun cw :: "color \<Rightarrow> 64 word" where
  "cw Red = BST_RED"
| "cw Black = BST_BLACK"

text \<open>A node address: not null, and even, so that the lowest bit is free for the colour.\<close>

definition node_addr :: "addr \<Rightarrow> bool" where
  "node_addr a \<longleftrightarrow> a \<noteq> NULL \<and> a AND 1 = 0"

lemma cw_cases: "cw c = 0 \<or> cw c = 1"
  by (cases c) (simp_all add: BST_RED_def BST_BLACK_def)

lemma cw_eq [simp]: "cw c = cw d \<longleftrightarrow> c = d" "cw c = BST_RED \<longleftrightarrow> c = Red" "cw c = BST_BLACK \<longleftrightarrow> c = Black"
  by (cases c; cases d; simp add: BST_RED_def BST_BLACK_def)+

definition pack :: "addr \<Rightarrow> color \<Rightarrow> addr" where "pack p c = p OR cw c"
definition w_parent :: "addr \<Rightarrow> addr" where "w_parent w = w AND NOT 1"
definition w_color :: "addr \<Rightarrow> 64 word" where "w_color w = w AND 1"

lemma even_and_not_1:
  assumes "p AND 1 = 0"
  shows "p AND NOT 1 = (p :: 64 word)"
proof -
  have "p AND NOT 1 = (p AND NOT 1) OR (p AND 1)" by (simp only: assms or.right_neutral)
  also have "\<dots> = p" by (rule bit_word_eqI) (auto simp: bit_or_iff bit_and_iff bit_not_iff bit_1_iff)
  finally show ?thesis .
qed

lemma cw_and [simp]: "cw c AND 1 = cw c" "cw c AND NOT 1 = 0"
  by (cases c; simp add: BST_RED_def BST_BLACK_def)+

lemma w_color_pack [simp]: "node_addr p \<Longrightarrow> w_color (pack p c) = cw c"
  by (simp add: w_color_def pack_def node_addr_def bit.conj_disj_distrib2)

lemma w_parent_pack [simp]: "node_addr p \<Longrightarrow> w_parent (pack p c) = p"
  unfolding w_parent_def pack_def node_addr_def bit.conj_disj_distrib2
  by (simp only: even_and_not_1 cw_and or.right_neutral)

lemma node_addr_null [simp]: "node_addr a \<Longrightarrow> a \<noteq> NULL" "\<not> node_addr NULL"
  by (simp_all add: node_addr_def)

lemma cw_colors [simp]: "(cw c = BST_RED \<or> cw c = BST_BLACK) = True"
  by (cases c) auto

lemma bst_parent_eq: "bst_parent t a = assert_c (a \<noteq> NULL) (Ret (w_parent (parent_color t a)))"
  by (simp add: bst_parent_def w_parent_def)

lemma bst_color_eq: "bst_color t a = assert_c (a \<noteq> NULL) (Ret (w_color (parent_color t a)))"
  by (simp add: bst_color_def w_color_def)

lemma bst_set_parent_eq:
  assumes "w_color (parent_color t a) = cw c"
  shows "bst_set_parent t a p = assert_c (a \<noteq> NULL) (assert_c (p \<noteq> NULL)
    (Ret (t\<lparr>parent_color := (parent_color t)(a := pack p c)\<rparr>)))"
  using assms by (simp add: bst_set_parent_def w_color_def pack_def)

lemma bst_set_color_eq:
  "bst_set_color t a (cw c) = assert_c (a \<noteq> NULL)
    (Ret (t\<lparr>parent_color := (parent_color t)(a := pack (w_parent (parent_color t a)) c)\<rparr>))"
  unfolding bst_set_color_def w_parent_def pack_def by (simp only: cw_colors assert_c_True)

lemma bst_set_parent_color_eq:
  "bst_set_parent_color t a p (cw c) = assert_c (a \<noteq> NULL) (assert_c (p \<noteq> NULL)
    (Ret (t\<lparr>parent_color := (parent_color t)(a := pack p c)\<rparr>)))"
  unfolding bst_set_parent_color_def pack_def by (simp only: cw_colors assert_c_True)

section \<open>Trees in memory\<close>

fun root_of :: "addr \<Rightarrow> ntree \<Rightarrow> addr" where
  "root_of N Tip = N"
| "root_of N (Nd l c a r) = a"

text \<open>
  \<open>tree_at N pc lf rt par T\<close>: with \<open>N\<close> for the nil node, the maps \<open>pc\<close>, \<open>lf\<close> and \<open>rt\<close> hold the
  tree \<open>T\<close>, whose root has the parent \<open>par\<close>.
\<close>

fun tree_at :: "addr \<Rightarrow> (addr \<Rightarrow> addr) \<Rightarrow> (addr \<Rightarrow> addr) \<Rightarrow> (addr \<Rightarrow> addr) \<Rightarrow> addr \<Rightarrow> ntree \<Rightarrow> bool" where
  "tree_at N pc lf rt par Tip \<longleftrightarrow> True"
| "tree_at N pc lf rt par (Nd l c a r) \<longleftrightarrow>
     node_addr a \<and> a \<noteq> N \<and> pc a = pack par c \<and> lf a = root_of N l \<and> rt a = root_of N r
     \<and> tree_at N pc lf rt a l \<and> tree_at N pc lf rt a r"

fun ctx_parent :: "addr \<Rightarrow> frame list \<Rightarrow> addr" where
  "ctx_parent N [] = N"
| "ctx_parent N (f # k) = frame_addr f"

text \<open>
  \<open>ctx_at N pc lf rt rt' p k\<close>: the path \<open>k\<close> from the node \<open>p\<close> to the root is in memory.  \<open>rp\<close> is
  the root pointer.
\<close>

fun ctx_at :: "addr \<Rightarrow> (addr \<Rightarrow> addr) \<Rightarrow> (addr \<Rightarrow> addr) \<Rightarrow> (addr \<Rightarrow> addr) \<Rightarrow> addr \<Rightarrow> addr \<Rightarrow> frame list \<Rightarrow> bool" where
  "ctx_at N pc lf rt rp p [] \<longleftrightarrow> rp = p"
| "ctx_at N pc lf rt rp p (LF c a r # k) \<longleftrightarrow>
     node_addr a \<and> a \<noteq> N \<and> pc a = pack (ctx_parent N k) c \<and> lf a = p \<and> rt a = root_of N r
     \<and> tree_at N pc lf rt a r \<and> ctx_at N pc lf rt rp a k"
| "ctx_at N pc lf rt rp p (RF l c a # k) \<longleftrightarrow>
     node_addr a \<and> a \<noteq> N \<and> pc a = pack (ctx_parent N k) c \<and> lf a = root_of N l \<and> rt a = p
     \<and> tree_at N pc lf rt a l \<and> ctx_at N pc lf rt rp a k"

fun ctx_nodes :: "frame list \<Rightarrow> addr list" where
  "ctx_nodes [] = []"
| "ctx_nodes (LF c a r # k) = a # inorder r @ ctx_nodes k"
| "ctx_nodes (RF l c a # k) = a # inorder l @ ctx_nodes k"

definition zrep :: "('k, 'v) jfs_bst \<Rightarrow> frame list \<Rightarrow> ntree \<Rightarrow> bool" where
  "zrep t k T \<longleftrightarrow>
     node_addr (nil t) \<and> w_color (parent_color t (nil t)) = BST_BLACK
     \<and> ctx_at (nil t) (parent_color t) (left t) (right t) (root t) (root_of (nil t) T) k
     \<and> tree_at (nil t) (parent_color t) (left t) (right t) (ctx_parent (nil t) k) T
     \<and> distinct (inorder T @ ctx_nodes k)"

lemma tree_at_upd [simp]:
  assumes "a \<notin> set (inorder T)"
  shows "tree_at N (pc(a := v)) lf rt par T = tree_at N pc lf rt par T"
    "tree_at N pc (lf(a := v)) rt par T = tree_at N pc lf rt par T"
    "tree_at N pc lf (rt(a := v)) par T = tree_at N pc lf rt par T"
  using assms by (induction T arbitrary: par) auto

lemma ctx_at_upd [simp]:
  assumes "a \<notin> set (ctx_nodes k)"
  shows "ctx_at N (pc(a := v)) lf rt rp p k = ctx_at N pc lf rt rp p k"
    "ctx_at N pc (lf(a := v)) rt rp p k = ctx_at N pc lf rt rp p k"
    "ctx_at N pc lf (rt(a := v)) rp p k = ctx_at N pc lf rt rp p k"
  using assms by (induction k arbitrary: p rule: ctx_nodes.induct) auto

lemma tree_at_nil [simp]: "tree_at N pc lf rt par T \<Longrightarrow> N \<notin> set (inorder T)"
  by (induction T arbitrary: par) auto

lemma ctx_at_nil [simp]: "ctx_at N pc lf rt rp p k \<Longrightarrow> N \<notin> set (ctx_nodes k)"
  by (induction k arbitrary: p rule: ctx_nodes.induct) auto

lemma zrep_push: "zrep t (f # k) T \<longleftrightarrow> zrep t k (fill f T)"
  by (cases f) (auto simp: zrep_def)

lemma zrep_plug: "zrep t k T \<longleftrightarrow> zrep t [] (plug k T)"
  by (induction k arbitrary: T) (auto simp: zrep_push)

section \<open>What an operation leaves alone\<close>

text \<open>Only the links of the nodes in \<open>S\<close> and the root pointer differ.\<close>

definition same_but :: "addr set \<Rightarrow> ('k, 'v) jfs_bst \<Rightarrow> ('k, 'v) jfs_bst \<Rightarrow> bool" where
  "same_but S t t' \<longleftrightarrow>
     nil t' = nil t \<and> cache t' = cache t \<and> bst_cmp t' = bst_cmp t \<and> value_offset t' = value_offset t
     \<and> value_size t' = value_size t \<and> obj_bytes t' = obj_bytes t \<and> free_list t' = free_list t \<and> node_list t' = node_list t \<and> vals t' = vals t
     \<and> (\<forall>a. a \<notin> S \<longrightarrow> parent_color t' a = parent_color t a \<and> left t' a = left t a \<and> right t' a = right t a)"

definition znodes :: "frame list \<Rightarrow> ntree \<Rightarrow> addr set" where
  "znodes k T = set (inorder T) \<union> set (ctx_nodes k)"

lemma same_but_refl [simp, intro]: "same_but S t t"
  by (simp add: same_but_def)

lemma same_but_trans [trans]: "same_but S t t' \<Longrightarrow> same_but S t' t'' \<Longrightarrow> same_but S t t''"
  by (simp add: same_but_def)

lemma same_but_mono: "same_but S t t' \<Longrightarrow> S \<subseteq> S' \<Longrightarrow> same_but S' t t'"
  by (auto simp: same_but_def)

lemma set_ctx_nodes: "set (ctx_nodes k) = set (ctx_left k) \<union> set (ctx_right k)"
  by (induction k rule: ctx_nodes.induct) auto

lemma znodes_plug: "znodes k T = set (inorder (plug k T))"
  by (auto simp: znodes_def inorder_plug set_ctx_nodes)

section \<open>Rotations\<close>

lemma root_of_neq [simp]:
  "x \<notin> set (inorder T) \<Longrightarrow> x \<noteq> N \<Longrightarrow> root_of N T \<noteq> x" "x \<notin> set (inorder T) \<Longrightarrow> x \<noteq> N \<Longrightarrow> x \<noteq> root_of N T"
  by (cases T; auto)+

lemmas bst_prim_eqs = bst_parent_eq bst_color_eq bst_set_color_eq bst_set_parent_color_eq

lemma rotate_left_zrep:
  assumes "zrep t k (Nd a c x (Nd b d y e))"
  shows "\<exists>t'. bst_rotate_left t x = Ret t' \<and> zrep t' k (Nd (Nd a c x b) d y e)
    \<and> same_but (znodes k (Nd a c x (Nd b d y e))) t t'"
  using assms
  by (cases b; cases k rule: ctx_nodes.cases; simp add: zrep_def; elim conjE;
      simp add: bst_rotate_left_def Let_def same_but_def znodes_def bst_prim_eqs bst_set_parent_eq)

lemma rotate_right_zrep:
  assumes "zrep t k (Nd (Nd a c x b) d y e)"
  shows "\<exists>t'. bst_rotate_right t y = Ret t' \<and> zrep t' k (Nd a c x (Nd b d y e))
    \<and> same_but (znodes k (Nd (Nd a c x b) d y e)) t t'"
  using assms
  by (cases b; cases k rule: ctx_nodes.cases; simp add: zrep_def; elim conjE;
      simp add: bst_rotate_right_def Let_def same_but_def znodes_def bst_prim_eqs bst_set_parent_eq)

lemma set_color_zrep:
  assumes "zrep t k (Nd l c a r)"
  shows "\<exists>t'. bst_set_color t a (cw d) = Ret t' \<and> zrep t' k (Nd l d a r) \<and> same_but (znodes k (Nd l c a r)) t t'"
proof -
  have "node_addr (ctx_parent (nil t) k)"
    using assms by (cases k rule: ctx_nodes.cases) (auto simp: zrep_def)
  thus ?thesis using assms
    by (auto simp: zrep_def bst_prim_eqs same_but_def znodes_def)
qed

end
