(* ===== verification/Bst_Insert.thy ===== *)
theory Bst_Insert
  imports Bst_Rep
begin

text \<open>
  Insertion into the red-black tree of \<open>src/binary_search_tree.c\<close>: \<open>bst_fixup_insert\<close> rebalances
  as the function \<open>fix_ins\<close> on trees does, \<open>bst_find\<close> walks down to the place of a key, and
  \<open>bst_insert\<close> links the node there.
\<close>

section \<open>Reading the memory of a tree\<close>

lemma zrep_parent_node: "zrep t k T \<Longrightarrow> node_addr (ctx_parent (nil t) k)"
  by (cases k rule: ctx_nodes.cases) (auto simp: zrep_def)

lemma zrep_root_addr: "zrep t k T \<Longrightarrow> node_addr (root_of (nil t) T)"
  by (cases T) (auto simp: zrep_def)

lemma zrep_parent: "zrep t k T \<Longrightarrow> T \<noteq> Tip \<Longrightarrow> bst_parent t (root_of (nil t) T) = Ret (ctx_parent (nil t) k)"
  using zrep_parent_node[of t k T] by (cases T) (auto simp: zrep_def bst_prim_eqs)

lemma zrep_color: "zrep t k T \<Longrightarrow> bst_color t (root_of (nil t) T) = Ret (cw (col T))"
  using zrep_parent_node[of t k T] by (cases T) (auto simp: zrep_def bst_prim_eqs)

lemma zrep_links:
  "zrep t k (Nd l c a r) \<Longrightarrow> left t a = root_of (nil t) l \<and> right t a = root_of (nil t) r \<and> a \<noteq> nil t \<and> node_addr a"
  by (simp add: zrep_def)

lemma zrep_root: "zrep t [] T \<Longrightarrow> root t = root_of (nil t) T"
  by (simp add: zrep_def)

lemma zrep_distinct: "zrep t k T \<Longrightarrow> distinct (inorder T @ ctx_nodes k)"
  by (simp add: zrep_def)

lemma zrep_children_neq:
  "zrep t k (Nd l c a r) \<Longrightarrow> l \<noteq> Tip \<or> r \<noteq> Tip \<Longrightarrow> root_of (nil t) l \<noteq> root_of (nil t) r"
  by (cases l; cases r) (auto simp: zrep_def)

lemma root_of_fill [simp]: "root_of N (fill f T) = frame_addr f"
  by (cases f) auto

lemma col_fill [simp]: "col (fill f T) = frame_col f"
  by (cases f) auto

lemma fill_not_Tip [simp]: "fill f T \<noteq> Tip"
  by (cases f) auto

lemma same_but_nil: "same_but S t t' \<Longrightarrow> nil t' = nil t"
  by (simp add: same_but_def)

lemma zrep_paint:
  assumes "zrep t k T" "T \<noteq> Tip"
  shows "\<exists>t'. bst_set_color t (root_of (nil t) T) (cw d) = Ret t' \<and> zrep t' k (paint d T) \<and> same_but (znodes k T) t t'"
  using assms set_color_zrep by (cases T) auto

lemma znodes_push: "znodes (f # k) T = znodes k (fill f T)"
  by (cases f) (auto simp: znodes_def)

section \<open>One round of the rebalancing loop\<close>

lemma step_recolor_left:
  assumes Z: "zrep t (f # LF c g u # k) T" and T: "T \<noteq> Tip" and u: "col u = Red"
  shows "\<exists>t'. bst_fixup_insert_step t (root_of (nil t) T) = Ret (True, t', g)
    \<and> zrep t' k (Nd (paint Black (fill f T)) Red g (paint Black u)) \<and> same_but (znodes (f # LF c g u # k) T) t t'"
proof -
  let ?p = "frame_addr f" and ?P = "fill f T"
  have Zp: "zrep t (LF c g u # k) ?P" and Zg: "zrep t k (Nd ?P c g u)" and Zu: "zrep t (RF ?P c g # k) u"
    using Z by (simp_all add: zrep_push)
  have u': "u \<noteq> Tip" using u by auto
  have reads: "bst_parent t (root_of (nil t) T) = Ret ?p" "bst_parent t ?p = Ret g" "g \<noteq> nil t"
    "left t g = ?p" "right t g = root_of (nil t) u" "bst_color t (root_of (nil t) u) = Ret BST_RED"
    using zrep_parent[OF Z T] zrep_parent[OF Zp] zrep_links[OF Zg] zrep_color[OF Zu] u by auto
  obtain t1 where t1: "bst_set_color t ?p BST_BLACK = Ret t1" "zrep t1 (LF c g u # k) (paint Black ?P)"
    "same_but (znodes (LF c g u # k) ?P) t t1"
    using zrep_paint[OF Zp, of Black] by auto
  have n1: "nil t1 = nil t" using same_but_nil[OF t1(3)] .
  have "zrep t1 (RF (paint Black ?P) c g # k) u" using t1(2) by (simp add: zrep_push)
  from zrep_paint[OF this u', of Black] n1 obtain t2 where
    t2: "bst_set_color t1 (root_of (nil t) u) BST_BLACK = Ret t2" "zrep t2 (RF (paint Black ?P) c g # k) (paint Black u)"
    "same_but (znodes (RF (paint Black ?P) c g # k) u) t1 t2" by auto
  have "zrep t2 k (Nd (paint Black ?P) c g (paint Black u))" using t2(2) by (simp add: zrep_push)
  from set_color_zrep[OF this, of Red] obtain t3 where
    t3: "bst_set_color t2 g BST_RED = Ret t3" "zrep t3 k (Nd (paint Black ?P) Red g (paint Black u))"
    "same_but (znodes k (Nd (paint Black ?P) c g (paint Black u))) t2 t3" by auto
  let ?S = "znodes (f # LF c g u # k) T"
  have "znodes (LF c g u # k) ?P = ?S" "znodes (RF (paint Black ?P) c g # k) u = ?S" "znodes k (Nd (paint Black ?P) c g (paint Black u)) = ?S"
    unfolding znodes_push by (simp_all add: znodes_def)
  hence "same_but ?S t t3" using t1(3) t2(3) t3(3) by (metis same_but_trans)
  thus ?thesis using t1(1) t2(1) t3(1,2) by (simp add: bst_fixup_insert_step_def reads Let_def)
qed

lemma step_recolor_right:
  assumes Z: "zrep t (f # RF u c g # k) T" and T: "T \<noteq> Tip" and u: "col u = Red"
  shows "\<exists>t'. bst_fixup_insert_step t (root_of (nil t) T) = Ret (True, t', g)
    \<and> zrep t' k (Nd (paint Black u) Red g (paint Black (fill f T))) \<and> same_but (znodes (f # RF u c g # k) T) t t'"
proof -
  let ?p = "frame_addr f" and ?P = "fill f T"
  have Zp: "zrep t (RF u c g # k) ?P" and Zg: "zrep t k (Nd u c g ?P)" and Zu: "zrep t (LF c g ?P # k) u"
    using Z by (simp_all add: zrep_push)
  have u': "u \<noteq> Tip" using u by auto
  have "?p \<noteq> root_of (nil t) u" using zrep_children_neq[OF Zg] by auto
  hence reads: "bst_parent t (root_of (nil t) T) = Ret ?p" "bst_parent t ?p = Ret g" "g \<noteq> nil t"
    "?p \<noteq> left t g" "left t g = root_of (nil t) u" "bst_color t (root_of (nil t) u) = Ret BST_RED"
    using zrep_parent[OF Z T] zrep_parent[OF Zp] zrep_links[OF Zg] zrep_color[OF Zu] u by auto
  obtain t1 where t1: "bst_set_color t ?p BST_BLACK = Ret t1" "zrep t1 (RF u c g # k) (paint Black ?P)"
    "same_but (znodes (RF u c g # k) ?P) t t1"
    using zrep_paint[OF Zp, of Black] by auto
  have n1: "nil t1 = nil t" using same_but_nil[OF t1(3)] .
  have "zrep t1 (LF c g (paint Black ?P) # k) u" using t1(2) by (simp add: zrep_push)
  from zrep_paint[OF this u', of Black] n1 obtain t2 where
    t2: "bst_set_color t1 (root_of (nil t) u) BST_BLACK = Ret t2" "zrep t2 (LF c g (paint Black ?P) # k) (paint Black u)"
    "same_but (znodes (LF c g (paint Black ?P) # k) u) t1 t2" by auto
  have "zrep t2 k (Nd (paint Black u) c g (paint Black ?P))" using t2(2) by (simp add: zrep_push)
  from set_color_zrep[OF this, of Red] obtain t3 where
    t3: "bst_set_color t2 g BST_RED = Ret t3" "zrep t3 k (Nd (paint Black u) Red g (paint Black ?P))"
    "same_but (znodes k (Nd (paint Black u) c g (paint Black ?P))) t2 t3" by auto
  let ?S = "znodes (f # RF u c g # k) T"
  have "znodes (RF u c g # k) ?P = ?S" "znodes (LF c g (paint Black ?P) # k) u = ?S" "znodes k (Nd (paint Black u) c g (paint Black ?P)) = ?S"
    unfolding znodes_push by (simp_all add: znodes_def)
  hence "same_but ?S t t3" using t1(3) t2(3) t3(3) by (metis same_but_trans)
  thus ?thesis using t1(1) t2(1) t3(1,2) reads(4)
    by (simp add: bst_fixup_insert_step_def reads(1-3,5,6) Let_def)
qed

lemma finish_left:
  assumes Z: "zrep t (LF c p s # LF c' g u # k) T"
  shows "\<exists>t1 t2 t3. bst_set_color t p BST_BLACK = Ret t1 \<and> bst_set_color t1 g BST_RED = Ret t2
    \<and> bst_rotate_right t2 g = Ret t3 \<and> zrep t3 k (Nd T Black p (Nd s Red g u)) \<and> same_but (znodes (LF c p s # LF c' g u # k) T) t t3"
proof -
  have "zrep t (LF c' g u # k) (Nd T c p s)" using Z by (simp add: zrep_push)
  from set_color_zrep[OF this, of Black] obtain t1 where
    t1: "bst_set_color t p BST_BLACK = Ret t1" "zrep t1 (LF c' g u # k) (Nd T Black p s)"
    "same_but (znodes (LF c' g u # k) (Nd T c p s)) t t1" by auto
  have "zrep t1 k (Nd (Nd T Black p s) c' g u)" using t1(2) by (simp add: zrep_push)
  from set_color_zrep[OF this, of Red] obtain t2 where
    t2: "bst_set_color t1 g BST_RED = Ret t2" "zrep t2 k (Nd (Nd T Black p s) Red g u)"
    "same_but (znodes k (Nd (Nd T Black p s) c' g u)) t1 t2" by auto
  from rotate_right_zrep[OF t2(2)] obtain t3 where
    t3: "bst_rotate_right t2 g = Ret t3" "zrep t3 k (Nd T Black p (Nd s Red g u))" "same_but (znodes k (Nd (Nd T Black p s) Red g u)) t2 t3" by auto
  let ?S = "znodes (LF c p s # LF c' g u # k) T"
  have "znodes (LF c' g u # k) (Nd T c p s) = ?S" "znodes k (Nd (Nd T Black p s) c' g u) = ?S"
    "znodes k (Nd (Nd T Black p s) Red g u) = ?S"
    unfolding znodes_push by (simp_all add: znodes_def)
  hence "same_but ?S t t3" using t1(3) t2(3) t3(3) by (metis same_but_trans)
  thus ?thesis using t1(1) t2(1) t3(1,2) by blast
qed

lemma finish_right:
  assumes Z: "zrep t (RF s c p # RF u c' g # k) T"
  shows "\<exists>t1 t2 t3. bst_set_color t p BST_BLACK = Ret t1 \<and> bst_set_color t1 g BST_RED = Ret t2
    \<and> bst_rotate_left t2 g = Ret t3 \<and> zrep t3 k (Nd (Nd u Red g s) Black p T) \<and> same_but (znodes (RF s c p # RF u c' g # k) T) t t3"
proof -
  have "zrep t (RF u c' g # k) (Nd s c p T)" using Z by (simp add: zrep_push)
  from set_color_zrep[OF this, of Black] obtain t1 where
    t1: "bst_set_color t p BST_BLACK = Ret t1" "zrep t1 (RF u c' g # k) (Nd s Black p T)"
    "same_but (znodes (RF u c' g # k) (Nd s c p T)) t t1" by auto
  have "zrep t1 k (Nd u c' g (Nd s Black p T))" using t1(2) by (simp add: zrep_push)
  from set_color_zrep[OF this, of Red] obtain t2 where
    t2: "bst_set_color t1 g BST_RED = Ret t2" "zrep t2 k (Nd u Red g (Nd s Black p T))"
    "same_but (znodes k (Nd u c' g (Nd s Black p T))) t1 t2" by auto
  from rotate_left_zrep[OF t2(2)] obtain t3 where
    t3: "bst_rotate_left t2 g = Ret t3" "zrep t3 k (Nd (Nd u Red g s) Black p T)" "same_but (znodes k (Nd u Red g (Nd s Black p T))) t2 t3" by auto
  let ?S = "znodes (RF s c p # RF u c' g # k) T"
  have "znodes (RF u c' g # k) (Nd s c p T) = ?S" "znodes k (Nd u c' g (Nd s Black p T)) = ?S"
    "znodes k (Nd u Red g (Nd s Black p T)) = ?S"
    unfolding znodes_push by (simp_all add: znodes_def)
  hence "same_but ?S t t3" using t1(3) t2(3) t3(3) by (metis same_but_trans)
  thus ?thesis using t1(1) t2(1) t3(1,2) by blast
qed

lemma step_outer_left:
  assumes Z: "zrep t (LF d p s # LF c g u # k) T" and T: "T \<noteq> Tip" and u: "col u = Black"
  shows "\<exists>t' n'. bst_fixup_insert_step t (root_of (nil t) T) = Ret (False, t', n')
    \<and> zrep t' k (Nd T Black p (Nd s Red g u)) \<and> same_but (znodes (LF d p s # LF c g u # k) T) t t'"
proof -
  have Zp: "zrep t (LF c g u # k) (Nd T d p s)" and Zg: "zrep t k (Nd (Nd T d p s) c g u)"
    and Zu: "zrep t (RF (Nd T d p s) c g # k) u"
    using Z by (simp_all add: zrep_push)
  have "root_of (nil t) T \<noteq> root_of (nil t) s" using zrep_children_neq[OF Zp] T by simp
  hence reads: "bst_parent t (root_of (nil t) T) = Ret p" "bst_parent t p = Ret g" "g \<noteq> nil t" "left t g = p"
    "right t g = root_of (nil t) u" "bst_color t (root_of (nil t) u) = Ret BST_BLACK" "root_of (nil t) T \<noteq> right t p"
    using zrep_parent[OF Z T] zrep_parent[OF Zp] zrep_links[OF Zg] zrep_links[OF Zp] zrep_color[OF Zu] u by auto
  from finish_left[OF Z] show ?thesis
    by (auto simp: bst_fixup_insert_step_def reads Let_def BST_RED_def BST_BLACK_def)
qed

lemma step_inner_left:
  assumes Z: "zrep t (RF s d p # LF c g u # k) (Nd a e n b)" and u: "col u = Black"
  shows "\<exists>t' n'. bst_fixup_insert_step t n = Ret (False, t', n')
    \<and> zrep t' k (Nd (Nd s d p a) Black n (Nd b Red g u)) \<and> same_but (znodes (RF s d p # LF c g u # k) (Nd a e n b)) t t'"
proof -
  have Zp: "zrep t (LF c g u # k) (Nd s d p (Nd a e n b))" and Zg: "zrep t k (Nd (Nd s d p (Nd a e n b)) c g u)"
    and Zu: "zrep t (RF (Nd s d p (Nd a e n b)) c g # k) u"
    using Z by (simp_all add: zrep_push)
  have reads: "bst_parent t n = Ret p" "bst_parent t p = Ret g" "g \<noteq> nil t" "left t g = p"
    "right t g = root_of (nil t) u" "bst_color t (root_of (nil t) u) = Ret BST_BLACK" "right t p = n"
    using zrep_parent[OF Z] zrep_parent[OF Zp] zrep_links[OF Zg] zrep_links[OF Zp] zrep_color[OF Zu] u by auto
  from rotate_left_zrep[OF Zp] obtain t0 where t0: "bst_rotate_left t p = Ret t0"
    "zrep t0 (LF c g u # k) (Nd (Nd s d p a) e n b)" "same_but (znodes (LF c g u # k) (Nd s d p (Nd a e n b))) t t0" by auto
  have Z0: "zrep t0 (LF e n b # LF c g u # k) (Nd s d p a)" using t0(2) by (simp add: zrep_push)
  have p0: "bst_parent t0 p = Ret n" using zrep_parent[OF Z0] by simp
  let ?S = "znodes (RF s d p # LF c g u # k) (Nd a e n b)"
  have S: "znodes (LF c g u # k) (Nd s d p (Nd a e n b)) = ?S" "znodes (LF e n b # LF c g u # k) (Nd s d p a) = ?S"
    unfolding znodes_push by (auto simp: znodes_def)
  from finish_left[OF Z0, unfolded S(2)] t0(3)[unfolded S(1)] show ?thesis
    by (auto simp: bst_fixup_insert_step_def reads t0(1) p0 Let_def BST_RED_def BST_BLACK_def intro: same_but_trans)
qed

lemma step_outer_right:
  assumes Z: "zrep t (RF s d p # RF u c g # k) T" and T: "T \<noteq> Tip" and u: "col u = Black"
  shows "\<exists>t' n'. bst_fixup_insert_step t (root_of (nil t) T) = Ret (False, t', n')
    \<and> zrep t' k (Nd (Nd u Red g s) Black p T) \<and> same_but (znodes (RF s d p # RF u c g # k) T) t t'"
proof -
  have Zp: "zrep t (RF u c g # k) (Nd s d p T)" and Zg: "zrep t k (Nd u c g (Nd s d p T))"
    and Zu: "zrep t (LF c g (Nd s d p T) # k) u"
    using Z by (simp_all add: zrep_push)
  have "root_of (nil t) T \<noteq> root_of (nil t) s" "p \<noteq> root_of (nil t) u"
    using zrep_children_neq[OF Zp] zrep_children_neq[OF Zg] T by auto
  hence reads: "bst_parent t (root_of (nil t) T) = Ret p" "bst_parent t p = Ret g" "g \<noteq> nil t" "p \<noteq> left t g"
    "left t g = root_of (nil t) u" "bst_color t (root_of (nil t) u) = Ret BST_BLACK" "root_of (nil t) T \<noteq> left t p"
    using zrep_parent[OF Z T] zrep_parent[OF Zp] zrep_links[OF Zg] zrep_links[OF Zp] zrep_color[OF Zu] u by auto
  from finish_right[OF Z] reads(4,7) show ?thesis
    by (auto simp: bst_fixup_insert_step_def reads(1-3,5,6) Let_def BST_RED_def BST_BLACK_def)
qed

lemma step_inner_right:
  assumes Z: "zrep t (LF d p s # RF u c g # k) (Nd a e n b)" and u: "col u = Black"
  shows "\<exists>t' n'. bst_fixup_insert_step t n = Ret (False, t', n')
    \<and> zrep t' k (Nd (Nd u Red g a) Black n (Nd b d p s)) \<and> same_but (znodes (LF d p s # RF u c g # k) (Nd a e n b)) t t'"
proof -
  have Zp: "zrep t (RF u c g # k) (Nd (Nd a e n b) d p s)" and Zg: "zrep t k (Nd u c g (Nd (Nd a e n b) d p s))"
    and Zu: "zrep t (LF c g (Nd (Nd a e n b) d p s) # k) u"
    using Z by (simp_all add: zrep_push)
  have "p \<noteq> root_of (nil t) u" using zrep_children_neq[OF Zg] by auto
  hence reads: "bst_parent t n = Ret p" "bst_parent t p = Ret g" "g \<noteq> nil t" "p \<noteq> left t g"
    "left t g = root_of (nil t) u" "bst_color t (root_of (nil t) u) = Ret BST_BLACK" "left t p = n"
    using zrep_parent[OF Z] zrep_parent[OF Zp] zrep_links[OF Zg] zrep_links[OF Zp] zrep_color[OF Zu] u by auto
  from rotate_right_zrep[OF Zp] obtain t0 where t0: "bst_rotate_right t p = Ret t0"
    "zrep t0 (RF u c g # k) (Nd a e n (Nd b d p s))" "same_but (znodes (RF u c g # k) (Nd (Nd a e n b) d p s)) t t0" by auto
  have Z0: "zrep t0 (RF a e n # RF u c g # k) (Nd b d p s)" using t0(2) by (simp add: zrep_push)
  have p0: "bst_parent t0 p = Ret n" using zrep_parent[OF Z0] by simp
  let ?S = "znodes (LF d p s # RF u c g # k) (Nd a e n b)"
  have S: "znodes (RF u c g # k) (Nd (Nd a e n b) d p s) = ?S" "znodes (RF a e n # RF u c g # k) (Nd b d p s) = ?S"
    unfolding znodes_push by (auto simp: znodes_def)
  from finish_right[OF Z0, unfolded S(2)] t0(3)[unfolded S(1)] reads(4) show ?thesis
    by (auto simp: bst_fixup_insert_step_def reads(1-3,5-7) t0(1) p0 Let_def BST_RED_def BST_BLACK_def intro: same_but_trans)
qed

section \<open>The rebalancing loop\<close>

fun red_has_parent :: "frame list \<Rightarrow> bool" where
  "red_has_parent [] \<longleftrightarrow> True"
| "red_has_parent (f # k) \<longleftrightarrow> (frame_col f = Red \<longrightarrow> k \<noteq> []) \<and> red_has_parent k"

lemma ctx_ok_red_has_parent: "ctx_ok k b \<Longrightarrow> red_has_parent k"
  by (induction k b rule: ctx_ok.induct) auto

lemma loop_reads:
  assumes "zrep t (f # k) T" "T \<noteq> Tip"
  shows "bst_parent t (root_of (nil t) T) = Ret (frame_addr f)" "bst_color t (frame_addr f) = Ret (cw (frame_col f))"
  using zrep_parent[OF assms] zrep_color[of t k "fill f T"] assms(1) by (simp_all add: zrep_push)

definition loop_ok :: "nat \<Rightarrow> ('k, 'v) jfs_bst \<Rightarrow> frame list \<Rightarrow> ntree \<Rightarrow> ntree \<Rightarrow> bool" where
  "loop_ok fuel t k T T' \<longleftrightarrow> (\<exists>t'. bst_fixup_insert_loop fuel t (root_of (nil t) T) = Ret t' \<and> zrep t' [] T'
     \<and> same_but (znodes k T) t t')"

lemma loop_ok_again:
  assumes Z: "zrep (t :: ('k, 'v) jfs_bst) (f # k) T" and T: "T \<noteq> Tip" and red: "frame_col f = Red"
    and step: "\<exists>t1. bst_fixup_insert_step t (root_of (nil t) T) = Ret (True, t1, root_of (nil t) T1) \<and> zrep t1 k1 T1
      \<and> same_but (znodes (f # k) T) t t1"
    and S: "znodes k1 T1 = znodes (f # k) T"
    and IH: "\<And>t1 :: ('k, 'v) jfs_bst. zrep t1 k1 T1 \<Longrightarrow> loop_ok fuel t1 k1 T1 T'"
  shows "loop_ok (Suc fuel) t (f # k) T T'"
proof -
  from step obtain t1 where t1: "bst_fixup_insert_step t (root_of (nil t) T) = Ret (True, t1, root_of (nil t) T1)"
    "zrep t1 k1 T1" "same_but (znodes (f # k) T) t t1" by blast
  from IH[OF t1(2)] same_but_nil[OF t1(3)] obtain t' where
    t': "bst_fixup_insert_loop fuel t1 (root_of (nil t) T1) = Ret t'" "zrep t' [] T'" "same_but (znodes k1 T1) t1 t'"
    by (auto simp: loop_ok_def)
  thus ?thesis using t1 S red loop_reads[OF Z T] by (auto simp: loop_ok_def intro: same_but_trans)
qed

lemma loop_ok_break:
  assumes Z: "zrep t (f # k) T" and T: "T \<noteq> Tip" and red: "frame_col f = Red"
    and step: "\<exists>t' n'. bst_fixup_insert_step t (root_of (nil t) T) = Ret (False, t', n') \<and> zrep t' k1 T1
      \<and> same_but (znodes (f # k) T) t t'"
  shows "loop_ok (Suc fuel) t (f # k) T (plug k1 T1)"
proof -
  from step obtain t' n' where "bst_fixup_insert_step t (root_of (nil t) T) = Ret (False, t', n')" "zrep t' k1 T1"
    "same_but (znodes (f # k) T) t t'" by blast
  thus ?thesis using red loop_reads[OF Z T] zrep_plug[of t' k1 T1] by (auto simp: loop_ok_def)
qed

lemma loop_ok_black:
  assumes Z: "zrep t k T" and T: "T \<noteq> Tip" and black: "ctx_takes_red k"
  shows "loop_ok (Suc fuel) t k T (plug k T)"
proof (cases k)
  case Nil
  have "bst_color t (nil t) = Ret BST_BLACK" using Z by (auto simp: zrep_def bst_color_eq)
  thus ?thesis using Nil zrep_parent[OF Z T] Z
    by (auto simp: loop_ok_def BST_RED_def BST_BLACK_def)
next
  case (Cons f k')
  thus ?thesis using Z T black loop_reads[of t f k' T] zrep_plug[of t k T]
    by (auto simp: loop_ok_def ctx_takes_red_def BST_RED_def BST_BLACK_def)
qed

lemma loop_ok_black_gr: "zrep t k T \<Longrightarrow> T \<noteq> Tip \<Longrightarrow> ctx_takes_red k \<Longrightarrow> length k < fuel \<Longrightarrow> loop_ok fuel t k T (plug k T)"
  using loop_ok_black by (cases fuel) auto

lemma fixup_insert_loop_ok:
  assumes "zrep t k T" "T \<noteq> Tip" "red_has_parent k" "length k < fuel"
  shows "loop_ok fuel t k T (fix_ins k T)"
  using assms
proof (induction k T arbitrary: t fuel rule: fix_ins.induct)
  case (1 p s c g u k T)
  then obtain fl where fl: "fuel = Suc fl" "length k < fl" by (cases fuel) auto
  note Z = "1.prems"(1) and T = "1.prems"(2)
  show ?case
  proof (cases "col u = Red")
    case True
    have "loop_ok (Suc fl) t (LF Red p s # LF c g u # k) T (fix_ins k (Nd (Nd T Black p s) Red g (paint Black u)))"
      by (rule loop_ok_again[OF Z T, where ?k1.0 = k and ?T1.0 = "Nd (Nd T Black p s) Red g (paint Black u)"])
         (use step_recolor_left[OF Z T True] "1.IH"[OF True] "1.prems"(3) fl in \<open>auto simp: znodes_def\<close>)
    thus ?thesis using fl True by simp
  qed (use loop_ok_break[OF Z T _ step_outer_left[OF Z T], of fl] fl in simp)
next
  case (2 s p c g u k T)
  then obtain fl where fl: "fuel = Suc fl" "length k < fl" by (cases fuel) auto
  note Z = "2.prems"(1) and T = "2.prems"(2)
  obtain a e n b where N: "T = Nd a e n b" using T by (cases T) auto
  show ?case
  proof (cases "col u = Red")
    case True
    have "loop_ok (Suc fl) t (RF s Red p # LF c g u # k) T (fix_ins k (Nd (Nd s Black p T) Red g (paint Black u)))"
      by (rule loop_ok_again[OF Z T, where ?k1.0 = k and ?T1.0 = "Nd (Nd s Black p T) Red g (paint Black u)"])
         (use step_recolor_left[OF Z T True] "2.IH"[OF True] "2.prems"(3) fl in \<open>auto simp: znodes_def\<close>)
    thus ?thesis using fl True by simp
  qed (use loop_ok_break[OF Z T, where ?k1.0 = k and ?T1.0 = "Nd (Nd s Red p a) Black n (Nd b Red g u)"]
        step_inner_left[OF Z[unfolded N]] fl N in simp)
next
  case (3 s p u c g k T)
  then obtain fl where fl: "fuel = Suc fl" "length k < fl" by (cases fuel) auto
  note Z = "3.prems"(1) and T = "3.prems"(2)
  show ?case
  proof (cases "col u = Red")
    case True
    have "loop_ok (Suc fl) t (RF s Red p # RF u c g # k) T (fix_ins k (Nd (paint Black u) Red g (Nd s Black p T)))"
      by (rule loop_ok_again[OF Z T, where ?k1.0 = k and ?T1.0 = "Nd (paint Black u) Red g (Nd s Black p T)"])
         (use step_recolor_right[OF Z T True] "3.IH"[OF True] "3.prems"(3) fl in \<open>auto simp: znodes_def\<close>)
    thus ?thesis using fl True by simp
  qed (use loop_ok_break[OF Z T _ step_outer_right[OF Z T], of fl] fl in simp)
next
  case (4 p s u c g k T)
  then obtain fl where fl: "fuel = Suc fl" "length k < fl" by (cases fuel) auto
  note Z = "4.prems"(1) and T = "4.prems"(2)
  obtain a e n b where N: "T = Nd a e n b" using T by (cases T) auto
  show ?case
  proof (cases "col u = Red")
    case True
    have "loop_ok (Suc fl) t (LF Red p s # RF u c g # k) T (fix_ins k (Nd (paint Black u) Red g (Nd T Black p s)))"
      by (rule loop_ok_again[OF Z T, where ?k1.0 = k and ?T1.0 = "Nd (paint Black u) Red g (Nd T Black p s)"])
         (use step_recolor_right[OF Z T True] "4.IH"[OF True] "4.prems"(3) fl in \<open>auto simp: znodes_def\<close>)
    thus ?thesis using fl True by simp
  qed (use loop_ok_break[OF Z T, where ?k1.0 = k and ?T1.0 = "Nd (Nd u Red g a) Black n (Nd b Red p s)"]
        step_inner_right[OF Z[unfolded N]] fl N in simp)
qed (unfold fix_ins.simps, (rule loop_ok_black_gr; auto simp: ctx_takes_red_def)+)

section \<open>Linking a new node\<close>

lemma root_of_plug_nil: "zrep t k T \<Longrightarrow> T \<noteq> Tip \<Longrightarrow> root t \<noteq> nil t"
  unfolding zrep_plug[of t k T] by (cases "plug k T") (auto simp: zrep_def)

lemma fixup_insert_ok:
  assumes Z: "zrep t k T" and col: "col T = Red" and k: "red_has_parent k" and fuel: "length k < fuel"
  shows "\<exists>t'. bst_fixup_insert fuel t (root_of (nil t) T) = Ret t' \<and> zrep t' [] (paint Black (fix_ins k T))
    \<and> same_but (znodes k T) t t'"
proof -
  have T: "T \<noteq> Tip" using col by auto
  obtain t1 where t1: "bst_fixup_insert_loop fuel t (root_of (nil t) T) = Ret t1" "zrep t1 [] (fix_ins k T)"
    "same_but (znodes k T) t t1"
    using fixup_insert_loop_ok[OF Z T k fuel] by (auto simp: loop_ok_def)
  have inord: "inorder (fix_ins k T) = inorder (plug k T)" using inorder_fix_ins[OF T] .
  hence ne: "fix_ins k T \<noteq> Tip" using T by (cases T) (auto simp: inorder_plug)
  obtain t2 where t2: "bst_set_color t1 (root t1) BST_BLACK = Ret t2" "zrep t2 [] (paint Black (fix_ins k T))"
    "same_but (znodes [] (fix_ins k T)) t1 t2"
    using zrep_paint[OF t1(2) ne, of Black] zrep_root[OF t1(2)] by auto
  have "znodes [] (fix_ins k T) = znodes k T" by (simp add: znodes_plug inord)
  hence "same_but (znodes k T) t t2" using t1(3) t2(3) same_but_trans by metis
  moreover have "root_of (nil t) T \<noteq> nil t" using Z T by (cases T) (auto simp: zrep_def)
  ultimately show ?thesis using t1(1) t2(1,2) zrep_color[OF Z] col root_of_plug_nil[OF Z T]
    by (simp add: bst_fixup_insert_def)
qed

fun side_cmp :: "frame list \<Rightarrow> int \<Rightarrow> bool" where
  "side_cmp [] c \<longleftrightarrow> True"
| "side_cmp (LF d a r # k) c \<longleftrightarrow> c = -1"
| "side_cmp (RF l d a # k) c \<longleftrightarrow> c = 1"

lemma bst_set_parent_red:
  "bst_set_parent_color t a p BST_RED = assert_c (a \<noteq> NULL) (assert_c (p \<noteq> NULL)
    (Ret (t\<lparr>parent_color := (parent_color t)(a := pack p Red)\<rparr>)))"
  using bst_set_parent_color_eq[of t a p Red] by simp

lemma insert_ok:
  assumes Z: "zrep t k Tip" and n: "node_addr n" "n \<noteq> nil t" "n \<notin> set (ctx_nodes k)"
    and loc: "loc_node loc = nil t" "loc_parent loc = ctx_parent (nil t) k" "side_cmp k (parent_cmp loc)"
    and k: "red_has_parent k" and fuel: "length k < fuel"
  shows "\<exists>t'. bst_insert fuel t n loc = Ret t' \<and> zrep t' [] (insert_tree k n) \<and> same_but (insert n (set (ctx_nodes k))) t t'"
proof -
  let ?t1 = "t\<lparr>left := (left t)(n := nil t), right := (right t)(n := nil t),
    parent_color := (parent_color t)(n := pack (ctx_parent (nil t) k) Red)\<rparr>"
  let ?t2 = "case k of [] \<Rightarrow> ?t1\<lparr>root := n\<rparr>
     | LF d a r # _ \<Rightarrow> ?t1\<lparr>left := (left ?t1)(a := n)\<rparr> | RF l d a # _ \<Rightarrow> ?t1\<lparr>right := (right ?t1)(a := n)\<rparr>"
  have pc: "ctx_parent (nil t) k \<noteq> NULL" using zrep_parent_node[OF Z] by simp
  have link: "bst_insert fuel t n loc = bst_fixup_insert fuel ?t2 n"
    using Z loc n pc
    by (cases k rule: ctx_nodes.cases) (auto simp: bst_insert_def Let_def zrep_def bst_set_parent_red)
  have Z2: "zrep ?t2 k (Nd Tip Red n Tip)"
    using Z n by (cases k rule: ctx_nodes.cases) (auto simp: zrep_def)
  have nil2: "nil ?t2 = nil t" by (auto split: list.splits frame.splits)
  have same2: "same_but (insert n (set (ctx_nodes k))) t ?t2"
    by (cases k rule: ctx_nodes.cases) (auto simp: same_but_def)
  obtain t' where t': "bst_fixup_insert fuel ?t2 n = Ret t'" "zrep t' [] (insert_tree k n)"
    "same_but (znodes k (Nd Tip Red n Tip)) ?t2 t'"
    using fixup_insert_ok[OF Z2 _ k fuel] by (auto simp: insert_tree_def)
  have "same_but (insert n (set (ctx_nodes k))) t t'"
    using same_but_trans[OF same2] t'(3) by (simp add: znodes_def)
  thus ?thesis using link t' by auto
qed

section \<open>Finding a key\<close>

text \<open>
  The search on a tree, where \<open>f\<close> gives the comparison of the key with each node: the subtree at
  which it ends and its context.
\<close>

fun search :: "(addr \<Rightarrow> int) \<Rightarrow> ntree \<Rightarrow> frame list \<Rightarrow> ntree \<times> frame list" where
  "search f Tip k = (Tip, k)"
| "search f (Nd l c a r) k =
     (if f a = 0 then (Nd l c a r, k) else if f a < 0 then search f l (LF c a r # k) else search f r (RF l c a # k))"

primrec height :: "ntree \<Rightarrow> nat" where
  "height Tip = 0"
| "height (Nd l c a r) = Suc (max (height l) (height r))"

definition ctx_cmp :: "(addr \<Rightarrow> int) \<Rightarrow> frame list \<Rightarrow> int" where
  "ctx_cmp f k = (case k of [] \<Rightarrow> 0 | fr # _ \<Rightarrow> f (frame_addr fr))"

lemma search_plug: "search f T k = (T', k') \<Longrightarrow> plug k' T' = plug k T"
  by (induction T k rule: search.induct) (auto split: if_splits)

lemma search_length: "search f T k = (T', k') \<Longrightarrow> length k' + height T' \<le> length k + height T"
  by (induction T k rule: search.induct) (fastforce split: if_splits)+

lemma find_loop_ok:
  assumes "zrep t k T" "\<And>a. a \<in> set (inorder T) \<Longrightarrow> cmp_node t key a = Ret (f a)" "height T < fuel"
  shows "bst_find_loop fuel t key \<lparr>loc_node = root_of (nil t) T, loc_parent = ctx_parent (nil t) k, parent_cmp = ctx_cmp f k\<rparr>
    = (case search f T k of (T', k') \<Rightarrow>
        Ret \<lparr>loc_node = root_of (nil t) T', loc_parent = ctx_parent (nil t) k', parent_cmp = ctx_cmp f k'\<rparr>)"
  using assms
proof (induction T arbitrary: k fuel)
  case Tip
  thus ?case by (cases fuel) auto
next
  case (Nd l c a r)
  then obtain fl where fl: "fuel = Suc fl" "height l < fl" "height r < fl" by (cases fuel) auto
  have l: "zrep t (LF c a r # k) l" and r: "zrep t (RF l c a # k) r" using Nd.prems(1) by (simp_all add: zrep_push)
  have ca: "cmp_node t key a = Ret (f a)" using Nd.prems(2) by simp
  show ?case
    using Nd.IH(1)[OF l _ fl(2)] Nd.IH(2)[OF r _ fl(3)] Nd.prems(2) zrep_links[OF Nd.prems(1)] fl(1) ca
    by (simp add: ctx_cmp_def)
qed

lemma find_ok:
  assumes "zrep t [] T" "\<And>a. a \<in> set (inorder T) \<Longrightarrow> cmp_node t key a = Ret (f a)" "height T < fuel"
    and "search f T [] = (T', k')"
  shows "bst_find fuel t key = Ret \<lparr>loc_node = root_of (nil t) T', loc_parent = ctx_parent (nil t) k', parent_cmp = ctx_cmp f k'\<rparr>"
  using find_loop_ok[OF assms(1-3)] assms(4) zrep_root[OF assms(1)] by (simp add: bst_find_def ctx_cmp_def)

end
