(* ===== verification/Bst_Put.thy ===== *)
theory Bst_Put
  imports Bst_Insert
begin

text \<open>
  The public insertion \<open>jfs_bst_puts\<close>: the invariant of a tree (red-black, ordered by key, the
  cache of the smallest, largest and last used node, the free list of nodes) and that putting a value
  with a new key keeps it and inserts the value at its place in the order.
\<close>

section \<open>The ends of a tree\<close>

primrec lspine :: "ntree \<Rightarrow> addr list" where
  "lspine Tip = []"
| "lspine (Nd l c a r) = a # lspine l"

primrec rspine :: "ntree \<Rightarrow> addr list" where
  "rspine Tip = []"
| "rspine (Nd l c a r) = a # rspine r"

lemma lspine_plug: "ctx_left k = [] \<Longrightarrow> \<exists>xs. lspine (plug k T) = xs @ map frame_addr (take 1 k) @ lspine T"
proof (induction k arbitrary: T rule: ctx_left.induct)
  case (2 c a r k)
  from "2.IH"[of "Nd T c a r"] "2.prems" obtain xs where
    "lspine (plug k (Nd T c a r)) = xs @ map frame_addr (take 1 k) @ a # lspine T" by auto
  thus ?case by (intro exI[of _ "xs @ map frame_addr (take 1 k)"]) simp
qed auto

lemma rspine_plug: "ctx_right k = [] \<Longrightarrow> \<exists>xs. rspine (plug k T) = xs @ map frame_addr (take 1 k) @ rspine T"
proof (induction k arbitrary: T rule: ctx_right.induct)
  case (3 l c a k)
  from "3.IH"[of "Nd l c a T"] "3.prems" obtain xs where
    "rspine (plug k (Nd l c a T)) = xs @ map frame_addr (take 1 k) @ a # rspine T" by auto
  thus ?case by (intro exI[of _ "xs @ map frame_addr (take 1 k)"]) simp
qed auto

lemma lspine_fix_ins: "ctx_left k = [] \<Longrightarrow> \<exists>xs. lspine (fix_ins k T) = xs @ map frame_addr (take 1 k) @ lspine T"
proof (induction k T rule: fix_ins.induct)
  case (1 p s c g u k T)
  show ?case
  proof (cases "col u = Red")
    case True
    from "1.IH"[OF True] "1.prems" True obtain xs where
      "lspine (fix_ins (LF Red p s # LF c g u # k) T) = xs @ map frame_addr (take 1 k) @ g # p # lspine T" by auto
    thus ?thesis by (intro exI[of _ "xs @ map frame_addr (take 1 k) @ [g]"]) simp
  next
    case False
    obtain xs where "lspine (plug k (Nd T Black p (Nd s Red g u))) = xs @ map frame_addr (take 1 k) @ p # lspine T"
      using lspine_plug[of k "Nd T Black p (Nd s Red g u)"] "1.prems" by auto
    thus ?thesis using False by (intro exI[of _ "xs @ map frame_addr (take 1 k)"]) simp
  qed
qed (unfold fix_ins.simps, (rule lspine_plug, assumption | simp; fail)+)

lemma rspine_fix_ins: "ctx_right k = [] \<Longrightarrow> \<exists>xs. rspine (fix_ins k T) = xs @ map frame_addr (take 1 k) @ rspine T"
proof (induction k T rule: fix_ins.induct)
  case (3 s p u c g k T)
  show ?case
  proof (cases "col u = Red")
    case True
    from "3.IH"[OF True] "3.prems" True obtain xs where
      "rspine (fix_ins (RF s Red p # RF u c g # k) T) = xs @ map frame_addr (take 1 k) @ g # p # rspine T" by auto
    thus ?thesis by (intro exI[of _ "xs @ map frame_addr (take 1 k) @ [g]"]) simp
  next
    case False
    obtain xs where "rspine (plug k (Nd (Nd u Red g s) Black p T)) = xs @ map frame_addr (take 1 k) @ p # rspine T"
      using rspine_plug[of k "Nd (Nd u Red g s) Black p T"] "3.prems" by auto
    thus ?thesis using False by (intro exI[of _ "xs @ map frame_addr (take 1 k)"]) simp
  qed
qed (unfold fix_ins.simps, (rule rspine_plug, assumption | simp; fail)+)

lemma spine_paint [simp]: "lspine (paint c T) = lspine T" "rspine (paint c T) = rspine T"
  by (cases T; simp)+

lemma zrep_lspine: "zrep t k T \<Longrightarrow> lspine T = xs @ [a, n] \<Longrightarrow> left t a = n"
proof (induction T arbitrary: k xs)
  case (Nd l c b r)
  have l: "zrep t (LF c b r # k) l" using Nd.prems(1) by (simp add: zrep_push)
  show ?case
  proof (cases xs)
    case Nil
    hence "lspine l = [n]" "a = b" using Nd.prems(2) by auto
    thus ?thesis using zrep_links[OF Nd.prems(1)] by (cases l) auto
  next
    case (Cons x ys)
    thus ?thesis using Nd.IH(1)[OF l, of ys] Nd.prems(2) by simp
  qed
qed simp

lemma zrep_rspine: "zrep t k T \<Longrightarrow> rspine T = xs @ [a, n] \<Longrightarrow> right t a = n"
proof (induction T arbitrary: k xs)
  case (Nd l c b r)
  have r: "zrep t (RF l c b # k) r" using Nd.prems(1) by (simp add: zrep_push)
  show ?case
  proof (cases xs)
    case Nil
    hence "rspine r = [n]" "a = b" using Nd.prems(2) by auto
    thus ?thesis using zrep_links[OF Nd.prems(1)] by (cases r) auto
  next
    case (Cons x ys)
    thus ?thesis using Nd.IH(2)[OF r, of ys] Nd.prems(2) by simp
  qed
qed simp

section \<open>The invariant of a tree\<close>

definition val_at :: "('k, 'v) jfs_bst \<Rightarrow> addr \<Rightarrow> 'v" where
  "val_at t a = vals t (a + value_offset t)"

text \<open>
  What the tree needs of the comparison function: it orders a key against the key of a stored value
  and answers with exactly -1, 0 or 1.
\<close>

definition three_way :: "('k :: linorder \<Rightarrow> 'v \<Rightarrow> int) \<Rightarrow> ('v \<Rightarrow> 'k) \<Rightarrow> bool" where
  "three_way cmp key_of \<longleftrightarrow>
     (\<forall>key v. cmp key v = (if key < key_of v then -1 else if key_of v < key then 1 else 0))"

definition cache_ok :: "('k, 'v) jfs_bst \<Rightarrow> addr list \<Rightarrow> bool" where
  "cache_ok t xs \<longleftrightarrow>
     previous (cache t) \<in> insert (nil t) (set xs)
     \<and> smallest (cache t) = (if xs = [] then nil t else hd xs)
     \<and> largest (cache t) = (if xs = [] then nil t else last xs)"

definition bst_inv :: "('v \<Rightarrow> 'k :: linorder) \<Rightarrow> ('k, 'v) jfs_bst \<Rightarrow> ntree \<Rightarrow> addr list \<Rightarrow> bool" where
  "bst_inv key_of t T free \<longleftrightarrow>
     zrep t [] T \<and> rb_tree T \<and> sorted_wrt (<) (map (key_of \<circ> val_at t) (inorder T)) \<and> cache_ok t (inorder T)
     \<and> (\<exists>cmp. bst_cmp t = Some cmp \<and> three_way cmp key_of) \<and> value_offset t > 0 \<and> copy_fits t
     \<and> fl_rep (parent_color t) (free_list t) free \<and> set free \<inter> set (inorder T) = {}
     \<and> nil t \<notin> set free \<and> (\<forall>a\<in>set free. node_addr a)"

lemma zrep_other_fields [simp]:
  "zrep (t\<lparr>free_list := x\<rparr>) k T = zrep t k T" "zrep (t\<lparr>vals := y\<rparr>) k T = zrep t k T"
  "zrep (t\<lparr>cache := z\<rparr>) k T = zrep t k T"
  by (simp_all add: zrep_def)

lemma container_value_off: "value_offset t > 0 \<Longrightarrow> bst_container_value t a = Ret (a + value_offset t)"
  by (simp add: bst_container_value_def jfs_mlg_apply_offset_def)

lemma cmp_node_val:
  "value_offset t > 0 \<Longrightarrow> bst_cmp t = Some cmp \<Longrightarrow> cmp_node t key a = Ret (cmp key (val_at t a))"
  by (simp add: cmp_node_def container_value_off call_cmp_def val_at_def)

section \<open>The search in an ordered tree\<close>

lemma search_absent: "\<forall>a\<in>set (inorder T). f a \<noteq> 0 \<Longrightarrow> fst (search f T k) = Tip"
  by (induction T k rule: search.induct) auto

lemma search_sides:
  assumes "sorted_wrt (\<lambda>a b. f b \<le> f a) (inorder T)" "search f T k = (T', k')"
    and "\<forall>a\<in>set (ctx_left k). 0 < f a" "\<forall>a\<in>set (ctx_right k). f a < 0"
  shows "(\<forall>a\<in>set (ctx_left k'). 0 < f a) \<and> (\<forall>a\<in>set (ctx_right k'). f a < 0)"
  using assms
proof (induction f T k rule: search.induct)
  case (2 f l c a r k)
  show ?case
  proof (cases "f a" "0 :: int" rule: linorder_cases)
    case less
    have "\<forall>b\<in>set (inorder r). f b < 0" using "2.prems"(1) less by (fastforce simp: sorted_wrt_append)
    thus ?thesis using "2.IH"(1) "2.prems" less by (auto simp: sorted_wrt_append)
  next
    case greater
    have "\<forall>b\<in>set (inorder l). 0 < f b" using "2.prems"(1) greater by (fastforce simp: sorted_wrt_append)
    thus ?thesis using "2.IH"(2) "2.prems" greater by (auto simp: sorted_wrt_append)
  qed (use "2.prems" in auto)
qed auto

lemma sides_side_cmp:
  assumes "\<forall>a\<in>set (ctx_left k). 0 < f a" "\<forall>a\<in>set (ctx_right k). f a < 0" "\<forall>a. f a \<in> {-1, 0, 1}"
  shows "side_cmp k (ctx_cmp f k)"
  using assms(1,2) assms(3)[THEN spec, of "ctx_parent 0 k"]
  by (cases k rule: ctx_nodes.cases) (auto simp: ctx_cmp_def)

lemma three_way_range: "three_way cmp key_of \<Longrightarrow> cmp key v \<in> {-1, 0, 1}"
  by (simp add: three_way_def)

lemma three_way_zero: "three_way cmp key_of \<Longrightarrow> cmp key v = 0 \<longleftrightarrow> key = key_of v"
  by (auto simp: three_way_def)

lemma three_way_pos: "three_way cmp key_of \<Longrightarrow> 0 < cmp key v \<longleftrightarrow> key_of v < key"
  by (auto simp: three_way_def)

lemma three_way_neg: "three_way cmp key_of \<Longrightarrow> cmp key v < 0 \<longleftrightarrow> key < key_of v"
  by (auto simp: three_way_def)

lemma three_way_mono: "three_way cmp key_of \<Longrightarrow> key_of v < key_of w \<Longrightarrow> cmp key w \<le> cmp key v"
  by (auto simp: three_way_def)

text \<open>The place of a new key: its context splits the nodes into those with smaller and with larger keys.\<close>

lemma search_place:
  assumes tw: "three_way cmp key_of" and so: "sorted_wrt (<) (map (key_of \<circ> val) (inorder T))"
    and new: "key \<notin> (key_of \<circ> val) ` set (inorder T)"
  obtains k where "search (\<lambda>a. cmp key (val a)) T [] = (Tip, k)" "plug k Tip = T"
    "inorder T = ctx_left k @ ctx_right k" "\<forall>a\<in>set (ctx_left k). key_of (val a) < key"
    "\<forall>a\<in>set (ctx_right k). key < key_of (val a)" "side_cmp k (ctx_cmp (\<lambda>a. cmp key (val a)) k)" "length k \<le> height T"
proof -
  let ?f = "\<lambda>a. cmp key (val a)"
  obtain T' k where s: "search ?f T [] = (T', k)" by fastforce
  have "fst (search ?f T []) = Tip" using new three_way_zero[OF tw] by (intro search_absent) auto
  hence T': "T' = Tip" using s by simp
  have "sorted_wrt (\<lambda>a b. ?f b \<le> ?f a) (inorder T)"
    using so three_way_mono[OF tw] unfolding sorted_wrt_map comp_def by (rule sorted_wrt_mono_rel[rotated]) simp
  from search_sides[OF this s] have sides: "\<forall>a\<in>set (ctx_left k). 0 < ?f a" "\<forall>a\<in>set (ctx_right k). ?f a < 0" by auto
  have p: "plug k Tip = T" using search_plug[OF s] T' by simp
  have "inorder T = ctx_left k @ ctx_right k" using inorder_plug[of k Tip] p by simp
  moreover have "side_cmp k (ctx_cmp ?f k)"
    using three_way_range[OF tw] by (intro sides_side_cmp sides) blast
  ultimately show ?thesis
    using that s T' p sides three_way_pos[OF tw] three_way_neg[OF tw] search_length[OF s] by simp
qed

section \<open>The invariant without the last used node\<close>

text \<open>
  \<open>cache.previous\<close> may also be a node of a list of equal keys, and a deletion may leave it on the deleted node:
  what holds without this field.
\<close>

definition ends_ok :: "('k, 'v) jfs_bst \<Rightarrow> addr list \<Rightarrow> bool" where
  "ends_ok t xs \<longleftrightarrow> smallest (cache t) = (if xs = [] then nil t else hd xs)
     \<and> largest (cache t) = (if xs = [] then nil t else last xs)"

definition bst_core :: "('v \<Rightarrow> 'k :: linorder) \<Rightarrow> ('k, 'v) jfs_bst \<Rightarrow> ntree \<Rightarrow> addr list \<Rightarrow> bool" where
  "bst_core key_of t T free \<longleftrightarrow>
     zrep t [] T \<and> rb_tree T \<and> sorted_wrt (<) (map (key_of \<circ> val_at t) (inorder T)) \<and> ends_ok t (inorder T)
     \<and> (\<exists>cmp. bst_cmp t = Some cmp \<and> three_way cmp key_of) \<and> value_offset t > 0 \<and> copy_fits t
     \<and> fl_rep (parent_color t) (free_list t) free \<and> set free \<inter> set (inorder T) = {}
     \<and> nil t \<notin> set free \<and> (\<forall>a\<in>set free. node_addr a)"

lemma bst_inv_core: "bst_inv key_of t T free \<longleftrightarrow> bst_core key_of t T free \<and> previous (cache t) \<in> insert (nil t) (set (inorder T))"
  by (auto simp: bst_inv_def bst_core_def cache_ok_def ends_ok_def)

section \<open>The cache after an insertion\<close>

lemma left_of_successor:
  assumes "zrep t [] (insert_tree (LF d a r # k) n)" "ctx_left k = []"
  shows "left t a = n"
proof -
  obtain xs where "lspine (insert_tree (LF d a r # k) n) = xs @ [a, n]"
    using lspine_fix_ins[of "LF d a r # k" "Nd Tip Red n Tip"] assms(2) by (auto simp: insert_tree_def)
  thus ?thesis using zrep_lspine[OF assms(1)] by simp
qed

lemma right_of_predecessor:
  assumes "zrep t [] (insert_tree (RF l d a # k) n)" "ctx_right k = []"
  shows "right t a = n"
proof -
  obtain xs where "rspine (insert_tree (RF l d a # k) n) = xs @ [a, n]"
    using rspine_fix_ins[of "RF l d a # k" "Nd Tip Red n Tip"] assms(2) by (auto simp: insert_tree_def)
  thus ?thesis using zrep_rspine[OF assms(1)] by simp
qed

lemma cache_both:
  "smallest (cache t) = x \<Longrightarrow> largest (cache t) = y \<Longrightarrow> t\<lparr>cache := (cache t)\<lparr>smallest := x, largest := y\<rparr>\<rparr> = t"
  "largest (cache t) = y \<Longrightarrow> t\<lparr>cache := (cache t)\<lparr>smallest := x, largest := y\<rparr>\<rparr> = t\<lparr>cache := (cache t)\<lparr>smallest := x\<rparr>\<rparr>"
  "smallest (cache t) = x \<Longrightarrow> t\<lparr>cache := (cache t)\<lparr>smallest := x, largest := y\<rparr>\<rparr> = t\<lparr>cache := (cache t)\<lparr>largest := y\<rparr>\<rparr>"
  by auto

lemma update_cache_insert_ok:
  assumes Z: "zrep t [] (insert_tree k n)" and c: "ends_ok t (ctx_left k @ ctx_right k)"
    and loc: "loc_parent loc = ctx_parent (nil t) k" "side_cmp k (parent_cmp loc)" "k = [] \<Longrightarrow> parent_cmp loc = 0"
    and d: "distinct (ctx_left k @ ctx_right k)" "nil t \<notin> set (ctx_left k @ ctx_right k)"
  shows "bst_update_cache_insert t loc =
    t\<lparr>cache := (cache t)\<lparr>smallest := hd (ctx_left k @ n # ctx_right k), largest := last (ctx_left k @ n # ctx_right k)\<rparr>\<rparr>"
proof (cases k rule: ctx_nodes.cases)
  case 1
  have "root t = n" using zrep_root[OF Z] 1 by (simp add: insert_tree_def)
  thus ?thesis using 1 c loc(3) by (simp add: bst_update_cache_insert_def ends_ok_def)
next
  case (2 cc a r k')
  have la: "largest (cache t) = last (ctx_left k @ n # ctx_right k)" using 2 c by (simp add: ends_ok_def last_append)
  show ?thesis
  proof (cases "ctx_left k' = []")
    case True
    have "smallest (cache t) = a" using c 2 True by (simp add: ends_ok_def)
    moreover have "left t a = n" using left_of_successor[OF Z[unfolded 2] True] .
    ultimately have "bst_update_cache_insert t loc = t\<lparr>cache := (cache t)\<lparr>smallest := n\<rparr>\<rparr>"
      using 2 loc(1,2) by (simp add: bst_update_cache_insert_def)
    thus ?thesis using cache_both(2)[OF la] 2 True by simp
  next
    case False
    have sm: "smallest (cache t) = hd (ctx_left k @ n # ctx_right k)" using False 2 c by (simp add: ends_ok_def)
    hence "smallest (cache t) \<noteq> a" using hd_in_set[OF False] 2 d False by auto
    moreover have "largest (cache t) \<noteq> nil t"
      using c 2 d(2) last_in_set[of "ctx_left k @ ctx_right k"] by (auto simp: ends_ok_def simp del: last_append)
    ultimately have "bst_update_cache_insert t loc = t" using 2 loc(1,2) by (simp add: bst_update_cache_insert_def)
    thus ?thesis using cache_both(1)[OF sm la] by simp
  qed
next
  case (3 l cc a k')
  have sm: "smallest (cache t) = hd (ctx_left k @ n # ctx_right k)" using 3 c by (simp add: ends_ok_def hd_append)
  show ?thesis
  proof (cases "ctx_right k' = []")
    case True
    have "largest (cache t) = a" using c 3 True by (simp add: ends_ok_def)
    moreover have "right t a = n" using right_of_predecessor[OF Z[unfolded 3] True] .
    ultimately have "bst_update_cache_insert t loc = t\<lparr>cache := (cache t)\<lparr>largest := n\<rparr>\<rparr>"
      using 3 loc(1,2) by (simp add: bst_update_cache_insert_def)
    thus ?thesis using cache_both(3)[OF sm] 3 True by simp
  next
    case False
    have la: "largest (cache t) = last (ctx_left k @ n # ctx_right k)" using False 3 c by (simp add: ends_ok_def last_append)
    hence "largest (cache t) \<noteq> a" using last_in_set[OF False] 3 d False by auto
    moreover have "last (ctx_right k') \<noteq> nil t" using last_in_set[OF False] d(2) 3 by force
    hence "largest (cache t) \<noteq> nil t" using la 3 False by simp
    ultimately have "bst_update_cache_insert t loc = t" using 3 loc(1,2) by (simp add: bst_update_cache_insert_def)
    thus ?thesis using cache_both(1)[OF sm la] by simp
  qed
qed

section \<open>Putting a value with a new key\<close>

lemma check_cache_miss:
  assumes "value_offset t > 0" "bst_cmp t = Some cmp" "three_way cmp key_of" "ends_ok t xs"
    and "key \<notin> (key_of \<circ> val_at t) ` set xs" "previous (cache t) \<noteq> nil t \<longrightarrow> key_of (val_at t (previous (cache t))) \<noteq> key"
  shows "bst_check_cache t key = Ret (nil t)"
proof -
  have eq: "cmp key (val_at t a) = 0 \<longleftrightarrow> key_of (val_at t a) = key" for a using three_way_zero[OF assms(3)] by auto
  have "x = nil t \<or> x \<in> set xs" if "x = smallest (cache t) \<or> x = largest (cache t)" for x
    using that assms(4) by (auto simp: ends_ok_def split: if_splits)
  hence "x = nil t \<or> cmp key (val_at t x) \<noteq> 0" if "x \<in> {smallest (cache t), largest (cache t), previous (cache t)}" for x
    using that assms(5,6) by (auto simp: eq)
  thus ?thesis using cmp_node_val[OF assms(1,2)] by (auto simp: bst_check_cache_def)
qed

lemma previous_other_key:
  assumes "previous (cache t) \<in> insert (nil t) (set xs)" "key \<notin> (key_of \<circ> val_at t) ` set xs"
  shows "previous (cache t) \<noteq> nil t \<longrightarrow> key_of (val_at t (previous (cache t))) \<noteq> key"
proof (intro impI notI)
  assume "previous (cache t) \<noteq> nil t" and k: "key_of (val_at t (previous (cache t))) = key"
  hence "previous (cache t) \<in> set xs" using assms(1) by simp
  hence "(key_of \<circ> val_at t) (previous (cache t)) \<in> (key_of \<circ> val_at t) ` set xs" by (rule imageI)
  thus False using assms(2) k by simp
qed

lemma inv_cache_miss:
  assumes "bst_inv key_of t T free" "key \<notin> (key_of \<circ> val_at t) ` set (inorder T)"
  shows "bst_check_cache t key = Ret (nil t)"
proof -
  obtain cmp where cmp: "bst_cmp t = Some cmp" "three_way cmp key_of" using assms(1) by (auto simp: bst_inv_def)
  have "value_offset t > 0" "ends_ok t (inorder T)" "previous (cache t) \<in> insert (nil t) (set (inorder T))"
    using assms(1) by (simp_all add: bst_inv_core bst_core_def)
  thus ?thesis using check_cache_miss[OF _ cmp _ assms(2)] previous_other_key[OF _ assms(2)] by blast
qed

lemma sorted_insert_mid:
  assumes "sorted_wrt (<) (map f (xs @ ys))" "\<forall>a\<in>set xs. f a < f n" "\<forall>a\<in>set ys. f n < (f a :: 'k :: linorder)"
  shows "sorted_wrt (<) (map f (xs @ n # ys))"
  using assms by (auto simp: sorted_wrt_append)

lemma zrep_nil_notin: "zrep t [] T \<Longrightarrow> nil t \<notin> set (inorder T)"
  by (auto simp: zrep_def)

text \<open>The state after the value has been copied into the allocated node.\<close>

definition packed :: "('k, 'v) jfs_bst \<Rightarrow> jfs_fl \<Rightarrow> addr \<Rightarrow> 'v \<Rightarrow> ('k, 'v) jfs_bst" where
  "packed t fl n v = t\<lparr>free_list := fl, vals := (vals t)(n + value_offset t := v)\<rparr>"

lemma val_at_packed: "val_at (packed t fl n v) a = (if a = n then v else val_at t a)"
  by (simp add: val_at_def packed_def)

lemma packed_simps [simp]:
  "zrep (packed t fl n v) k T = zrep t k T" "nil (packed t fl n v) = nil t" "bst_cmp (packed t fl n v) = bst_cmp t"
  "value_offset (packed t fl n v) = value_offset t" "cache (packed t fl n v) = cache t"
  "parent_color (packed t fl n v) = parent_color t" "free_list (packed t fl n v) = fl"
  "copy_fits (packed t fl n v) = copy_fits t"
  by (simp_all add: packed_def copy_fits_def)

lemma copy_fits_other_fields [simp]:
  "copy_fits (t\<lparr>free_list := x\<rparr>) = copy_fits t" "copy_fits (t\<lparr>vals := y\<rparr>) = copy_fits t"
  "copy_fits (t\<lparr>cache := z\<rparr>) = copy_fits t" "copy_fits (t\<lparr>node_list := u\<rparr>) = copy_fits t"
  "copy_fits (t\<lparr>parent_color := w\<rparr>) = copy_fits t"
  by (simp_all add: copy_fits_def)

lemma same_but_copy_fits: "same_but S t t' \<Longrightarrow> copy_fits t' = copy_fits t"
  by (simp add: same_but_def copy_fits_def)

lemma puts_new_insert:
  assumes inv: "bst_core key_of t T (n # free)" and new: "key_of v \<notin> (key_of \<circ> val_at t) ` set (inorder T)"
    and prev: "previous (cache t) \<noteq> nil t \<longrightarrow> previous (cache t) \<noteq> n \<and> key_of (val_at t (previous (cache t))) \<noteq> key_of v"
    and fuel: "height T < fuel"
  obtains k fl t2 where "T = plug k Tip" "fl_rep (parent_color t) fl free"
    "zrep t2 [] (insert_tree k n)" "same_but (insert n (set (inorder T))) (packed t fl n v) t2"
    "inorder T = ctx_left k @ ctx_right k"
    "\<forall>a\<in>set (ctx_left k). key_of (val_at t a) < key_of v" "\<forall>a\<in>set (ctx_right k). key_of v < key_of (val_at t a)"
    "jfs_bst_puts attach fuel t v (key_of v) err =
       Ret (t2\<lparr>cache := \<lparr>smallest = hd (ctx_left k @ n # ctx_right k), largest = last (ctx_left k @ n # ctx_right k), previous = n\<rparr>\<rparr>, err)"
proof -
  have Z: "zrep t [] T" and rb: "rb_tree T" and so: "sorted_wrt (<) (map (key_of \<circ> val_at t) (inorder T))"
    and ca: "ends_ok t (inorder T)" and off: "value_offset t > 0" "copy_fits t" and fr: "fl_rep (parent_color t) (free_list t) (n # free)"
    and dj: "set (n # free) \<inter> set (inorder T) = {}" "nil t \<notin> set (n # free)" "\<forall>a\<in>set (n # free). node_addr a"
    using inv by (simp_all add: bst_core_def)
  obtain cmp where cmp: "bst_cmp t = Some cmp" "three_way cmp key_of" using inv by (auto simp: bst_core_def)
  obtain fl where fl: "jfs_fl_alloc cell_load (parent_color t) (free_list t) = (n, fl)" "fl_rep (parent_color t) fl free"
    using alloc_rep[OF fr] by blast
  have cnt: "fl_count (free_list t) \<noteq> 0" using fr by (auto simp: fl_rep_def)
  let ?t1 = "packed t fl n v"
  have vals: "val_at ?t1 a = val_at t a" if "a \<in> set (inorder T)" for a using that dj(1) by (auto simp: val_at_packed)
  obtain k where k: "search (\<lambda>a. cmp (key_of v) (val_at t a)) T [] = (Tip, k)" "plug k Tip = T"
    "inorder T = ctx_left k @ ctx_right k" "\<forall>a\<in>set (ctx_left k). key_of (val_at t a) < key_of v"
    "\<forall>a\<in>set (ctx_right k). key_of v < key_of (val_at t a)"
    "side_cmp k (ctx_cmp (\<lambda>a. cmp (key_of v) (val_at t a)) k)" "length k \<le> height T"
    using search_place[OF cmp(2) so new] by blast
  let ?loc = "\<lparr>loc_node = nil t, loc_parent = ctx_parent (nil t) k, parent_cmp = ctx_cmp (\<lambda>a. cmp (key_of v) (val_at t a)) k\<rparr>"
  have Z1: "zrep ?t1 [] T" using Z by simp
  have find: "bst_find fuel ?t1 (key_of v) = Ret ?loc"
    using find_ok[OF Z1 _ fuel k(1)] cmp_node_val[of ?t1 cmp] vals off cmp(1) by simp
  have miss: "bst_check_cache ?t1 (key_of v) = Ret (nil t)"
    using check_cache_miss[of ?t1 cmp key_of "inorder T" "key_of v"] cmp off ca new vals prev
    by (auto simp: ends_ok_def val_at_packed)
  have nodes: "set (ctx_nodes k) = set (inorder T)" using k(3) by (simp add: set_ctx_nodes)
  have "ctx_ok k 0" using split_rb[of k Tip] rb k(2) by (simp add: rb_tree_def)
  from insert_ok[of ?t1 k n ?loc, OF _ _ _ _ _ _ _ ctx_ok_red_has_parent[OF this], of fuel] Z k dj fuel nodes zrep_plug[of t k Tip]
  obtain t2 where t2: "bst_insert fuel ?t1 n ?loc = Ret t2" "zrep t2 [] (insert_tree k n)"
    "same_but (insert n (set (inorder T))) ?t1 t2" by auto
  have upd: "bst_update_cache_insert t2 ?loc =
      t2\<lparr>cache := (cache t2)\<lparr>smallest := hd (ctx_left k @ n # ctx_right k), largest := last (ctx_left k @ n # ctx_right k)\<rparr>\<rparr>"
    using t2(3) ca k zrep_distinct[OF Z] zrep_nil_notin[OF Z]
    by (intro update_cache_insert_ok[OF t2(2)]) (auto simp: same_but_def ends_ok_def ctx_cmp_def)
  have "jfs_bst_puts attach fuel t v (key_of v) err = run_bind (bst_insert fuel ?t1 n ?loc)
     (\<lambda>t. Ret (bst_update_cache_insert t ?loc\<lparr>cache := (cache (bst_update_cache_insert t ?loc))\<lparr>previous := n\<rparr>\<rparr>, err))"
    using cnt fl(1) off miss find unfolding packed_def
    by (simp add: jfs_bst_puts_def bst_pack_node_def container_value_off run_simps)
  thus ?thesis using that[of k fl t2] k fl t2 upd by simp
qed

end
