(* ===== verification/Bst_Map.thy ===== *)
theory Bst_Map
  imports Bst_Put
begin

text \<open>
  The properties of the search tree of \<open>src/binary_search_tree.c\<close> as a container: initialisation,
  insertion of a new key, search, the bound on the height, and the behaviours of \<open>jfs_bst_takes\<close> and
  \<open>jfs_bst_get_largest\<close> that follow from the cache.
\<close>

section \<open>Insertion\<close>

lemma insort_key_mid:
  assumes "\<forall>x\<in>set xs. f x < f v" "\<forall>y\<in>set ys. f v < (f y :: 'k :: linorder)"
  shows "insort_key f v (xs @ ys) = xs @ v # ys"
  using assms
proof (induction xs)
  case Nil
  thus ?case by (cases ys) auto
qed auto

lemma puts_new_core:
  assumes inv: "bst_core key_of t T (n # free)" and new: "key_of v \<notin> (key_of \<circ> val_at t) ` set (inorder T)"
    and prev: "previous (cache t) \<noteq> nil t \<longrightarrow> previous (cache t) \<noteq> n \<and> key_of (val_at t (previous (cache t))) \<noteq> key_of v"
    and fuel: "height T < fuel"
  shows "\<exists>t' T'. jfs_bst_puts attach fuel t v (key_of v) err = Ret (t', err) \<and> bst_core key_of t' T' free
    \<and> set (inorder T') = insert n (set (inorder T))
    \<and> map (val_at t') (inorder T') = insort_key key_of v (map (val_at t) (inorder T))
    \<and> node_list t' = node_list t \<and> nil t' = nil t \<and> previous (cache t') = n \<and> (\<forall>a. val_at t' a = (if a = n then v else val_at t a))"
proof -
  obtain k fl t2 where T: "T = plug k Tip" and fr: "fl_rep (parent_color t) fl free" and Z2: "zrep t2 [] (insert_tree k n)"
    and same: "same_but (insert n (set (inorder T))) (packed t fl n v) t2" and io: "inorder T = ctx_left k @ ctx_right k"
    and lt: "\<forall>a\<in>set (ctx_left k). key_of (val_at t a) < key_of v" and gt: "\<forall>a\<in>set (ctx_right k). key_of v < key_of (val_at t a)"
    and run: "jfs_bst_puts attach fuel t v (key_of v) err = Ret (t2\<lparr>cache := \<lparr>smallest = hd (ctx_left k @ n # ctx_right k),
      largest = last (ctx_left k @ n # ctx_right k), previous = n\<rparr>\<rparr>, err)"
    by (rule puts_new_insert[OF assms])
  let ?T' = "insert_tree k n"
  define t' where "t' = t2\<lparr>cache := \<lparr>smallest = hd (ctx_left k @ n # ctx_right k), largest = last (ctx_left k @ n # ctx_right k), previous = n\<rparr>\<rparr>"
  have io': "inorder ?T' = ctx_left k @ n # ctx_right k" by (rule inorder_insert_tree)
  have n: "n \<notin> set (inorder T)" "n \<notin> set free" using inv by (auto simp: bst_core_def fl_rep_def)
  have "val_at t' a = val_at (packed t fl n v) a" for a using same by (simp add: same_but_def val_at_def t'_def)
  hence val: "val_at t' a = (if a = n then v else val_at t a)" for a by (simp add: val_at_packed)
  have kv: "key_of (val_at t' a) = key_of (val_at t a)" if "a \<in> set (inorder T)" for a using that n val by auto
  have so: "sorted_wrt (<) (map (key_of \<circ> val_at t') (inorder ?T'))"
    unfolding io'
  proof (rule sorted_insert_mid)
    show "sorted_wrt (<) (map (key_of \<circ> val_at t') (ctx_left k @ ctx_right k))"
      using inv kv unfolding bst_core_def io by (metis (mono_tags, lifting) comp_apply map_eq_conv)
  qed (use lt gt kv val io in auto)
  have "rb_tree ?T'" using split_rb[of k Tip] inv T by (intro insert_tree_rb) (simp add: bst_core_def rb_tree_def)
  moreover have "ends_ok t' (inorder ?T')" by (simp add: ends_ok_def io' t'_def)
  moreover have "fl_rep (parent_color t2) fl free"
    using same n(2) inv by (intro fl_rep_frame[OF _ fr]) (auto simp: same_but_def bst_core_def)
  ultimately have "bst_core key_of t' ?T' free"
    using Z2 so inv same n io io' same_but_copy_fits[OF same] by (auto simp: bst_core_def same_but_def t'_def)
  moreover have "map (val_at t') (inorder ?T') = insort_key key_of v (map (val_at t) (inorder T))"
    using insort_key_mid[of "map (val_at t) (ctx_left k)" key_of v "map (val_at t) (ctx_right k)"] lt gt n(1) io
    by (simp add: io' val cong: map_cong)
  moreover have "node_list t' = node_list t \<and> nil t' = nil t \<and> previous (cache t') = n"
    using same by (simp add: same_but_def t'_def packed_def)
  moreover have "jfs_bst_puts attach fuel t v (key_of v) err = Ret (t', err)" using run by (simp add: t'_def)
  ultimately show ?thesis using io io' val by (intro exI[of _ t'] exI[of _ ?T']) simp
qed

lemma puts_new:
  assumes inv: "bst_inv key_of t T (n # free)" and new: "key_of v \<notin> (key_of \<circ> val_at t) ` set (inorder T)"
    and fuel: "height T < fuel"
  shows "\<exists>t' T'. jfs_bst_puts attach fuel t v (key_of v) err = Ret (t', err) \<and> bst_inv key_of t' T' free
    \<and> set (inorder T') = insert n (set (inorder T))
    \<and> map (val_at t') (inorder T') = insort_key key_of v (map (val_at t) (inorder T)) \<and> node_list t' = node_list t"
proof -
  have core: "bst_core key_of t T (n # free)" and p: "previous (cache t) \<in> insert (nil t) (set (inorder T))"
    using inv by (simp_all add: bst_inv_core)
  have "n \<notin> set (inorder T)" using core by (auto simp: bst_core_def)
  hence prev: "previous (cache t) \<noteq> nil t \<longrightarrow> previous (cache t) \<noteq> n \<and> key_of (val_at t (previous (cache t))) \<noteq> key_of v"
    using p previous_other_key[OF p new] by auto
  obtain t' T' where "jfs_bst_puts attach fuel t v (key_of v) err = Ret (t', err)" "bst_core key_of t' T' free"
    "set (inorder T') = insert n (set (inorder T))" "map (val_at t') (inorder T') = insort_key key_of v (map (val_at t) (inorder T))"
    "node_list t' = node_list t" "previous (cache t') = n"
    using puts_new_core[OF core new prev fuel] by blast
  thus ?thesis by (intro exI[of _ t'] exI[of _ T']) (simp add: bst_inv_core)
qed

section \<open>Height\<close>

lemma balanced_size: "balanced T \<Longrightarrow> 2 ^ bh T \<le> Suc (length (inorder T))"
  by (induction T) auto

lemma red_height: "redok T \<Longrightarrow> balanced T \<Longrightarrow> height T \<le> 2 * bh T + (if col T = Red then 1 else 0)"
  by (induction T) (auto split: if_splits)

lemma rb_height: "rb_tree T \<Longrightarrow> 2 ^ height T \<le> (Suc (length (inorder T)))\<^sup>2"
proof -
  assume rb: "rb_tree T"
  have "2 ^ height T \<le> (2 :: nat) ^ (2 * bh T)"
    using red_height[of T] rb by (intro power_increasing) (auto simp: rb_tree_def)
  also have "\<dots> = (2 ^ bh T)\<^sup>2" by (simp add: power_mult mult.commute)
  also have "\<dots> \<le> (Suc (length (inorder T)))\<^sup>2" using balanced_size[of T] rb by (intro power_mono) (auto simp: rb_tree_def)
  finally show ?thesis .
qed

section \<open>A fresh tree\<close>

lemma even_and_one: "(a :: 64 word) AND 1 = 0 \<longleftrightarrow> even a"
  by (simp add: and_one_eq even_iff_mod_2_eq_zero)

lemma comp_objs_node_addr:
  assumes "jfs_mlg_valid_component c" "unat (ptr c) + extent (desc c) \<le> 2 ^ 64" "even (ptr c)" "even (dsize (desc c))"
    and "a \<in> set (comp_objs c)"
  shows "node_addr a"
proof -
  obtain i where i: "i < unat (dcount (desc c))" "a = ptr c + of_nat (i * unat (dsize (desc c)))"
    using assms(5) by (auto simp: comp_objs_def simp del: of_nat_mult)
  have "unat a = unat (ptr c) + i * unat (dsize (desc c))" unfolding i(2) by (rule comp_objs_inj(2)[OF assms(1,2) i(1)])
  moreover have "0 < unat (ptr c)" using assms(1) by (simp add: jfs_mlg_valid_component_def unat_gt_0)
  ultimately have "a \<noteq> NULL" by auto
  moreover have "even a" using assms(3,4) i(2) by simp
  ultimately show ?thesis by (simp add: node_addr_def even_and_one)
qed

lemma value_offset_pos:
  assumes "jfs_mlg_valid_align a"
  shows "\<exists>off. jfs_mlg_align_size SIZEOF_BST_NODE a = Ret off \<and> off > 0 \<and> unat off = align_up (unat a) (unat SIZEOF_BST_NODE)"
proof -
  obtain k where k: "k < 64" "a = 2 ^ k" using assms valid_align_word by (auto simp: jfs_mlg_valid_align_def)
  have "unat a \<le> 2 ^ 63" using k power_increasing[of k 63 "2::nat"] by (simp add: unat_pow2_64)
  hence "unat SIZEOF_BST_NODE + unat a - 1 < 2 ^ 64" by (simp add: SIZEOF_BST_NODE_def)
  then obtain r where r: "jfs_mlg_align_size SIZEOF_BST_NODE a = Ret r" "unat r = align_up (unat a) (unat SIZEOF_BST_NODE)"
    using align_size_Ret[OF assms, of SIZEOF_BST_NODE] by (auto simp: SIZEOF_BST_NODE_def)
  have "0 < unat r" unfolding r(2) using valid_align_pos[OF assms] by (intro align_up_pos) (simp_all add: SIZEOF_BST_NODE_def)
  thus ?thesis using r by (auto simp: word_less_nat_alt)
qed

lemma bst_set_parent_black:
  "bst_set_parent_color t a p BST_BLACK = assert_c (a \<noteq> NULL) (assert_c (p \<noteq> NULL)
    (Ret (t\<lparr>parent_color := (parent_color t)(a := pack p Black)\<rparr>)))"
  using bst_set_parent_color_eq[of t a p Black] by simp

text \<open>
  What \<open>jfs_bst_init\<close> makes, whatever the sizes; the tree is a good one when the copies of \<open>value_size\<close>
  bytes stay inside the objects of the caller.
\<close>

lemma init_run:
  assumes v: "jfs_mlg_valid_component (bst_component conf)" and fit: "unat (ptr (bst_component conf)) + extent (desc (bst_component conf)) \<le> 2 ^ 64"
    and nodes: "\<forall>a\<in>set (comp_objs (bst_component conf)). node_addr a"
    and nl: "node_addr nl" "nl \<notin> set (comp_objs (bst_component conf))"
    and cmp: "conf_cmp conf = Some cmp" "three_way cmp key_of"
    and off: "jfs_mlg_align_size SIZEOF_BST_NODE (align (desc (bst_component conf))) = Ret off" "off > 0"
  shows "\<exists>t'. jfs_bst_init nl t conf JCL_OK = Ret (t', JCL_OK)
    \<and> (copy_fits t' \<longrightarrow> bst_inv key_of t' Tip (rev (comp_objs (bst_component conf))))
    \<and> fl_rep (parent_color t') (free_list t') (rev (comp_objs (bst_component conf)))
    \<and> value_size t' = dsize (desc (bst_component conf)) - off \<and> value_offset t' = off
    \<and> obj_bytes t' = obj_bytes t \<and> node_list t' = node_list t"
proof -
  let ?c = "bst_component conf"
  obtain nxt fl where fl: "jfs_fl_init cell_store (parent_color t) (free_list t) ?c JCL_OK = (nxt, fl, JCL_OK)" "fl_rep nxt fl (rev (comp_objs ?c))"
    using init_rep[OF v fit] by blast
  have rep: "fl_rep (nxt(nl := x)) fl (rev (comp_objs ?c))" for x using nl(2) by (intro fl_rep_frame[OF _ fl(2)]) auto
  show ?thesis using nl nodes off rep cmp(2)
    by (auto simp: jfs_bst_init_def fl(1) bst_set_parent_black Let_def cmp(1) bst_inv_def zrep_def rb_tree_def cache_ok_def)
qed

text \<open>
  The memory of a tree: a component of aligned nodes that have room for the header of a node and for a
  value, where a value is at most as large as the \<open>b\<close> bytes of the objects that callers pass; and a nil
  node outside this component.
\<close>

definition bst_memory :: "('k, 'v) jfs_bst_conf \<Rightarrow> addr \<Rightarrow> nat \<Rightarrow> bool" where
  "bst_memory conf nl b \<longleftrightarrow>
     (let c = bst_component conf; off = align_up (unat (align (desc c))) (unat SIZEOF_BST_NODE) in
      jfs_mlg_valid_component c \<and> unat (ptr c) + extent (desc c) \<le> 2 ^ 64
      \<and> 8 dvd unat (ptr c) \<and> 8 dvd unat (dsize (desc c))
      \<and> off \<le> unat (dsize (desc c)) \<and> unat (dsize (desc c)) \<le> off + b
      \<and> nl \<noteq> NULL \<and> 8 dvd unat nl
      \<and> (unat nl + unat SIZEOF_BST_NODE \<le> unat (ptr c) \<or> unat (ptr c) + extent (desc c) \<le> unat nl))"

lemma even_unat_addr: "even (unat (a :: addr)) \<longleftrightarrow> even a"
  by transfer (simp add: even_nat_iff)

lemma dvd8_even: "8 dvd unat (a :: addr) \<Longrightarrow> even a"
  using dvd_trans[of 2 8 "unat a"] even_unat_addr[of a] by simp

lemma bst_memory_init:
  assumes mem: "bst_memory conf nl (obj_bytes t)" and cmp: "conf_cmp conf = Some cmp" "three_way cmp key_of"
  shows "\<exists>t'. jfs_bst_init nl t conf JCL_OK = Ret (t', JCL_OK) \<and> bst_inv key_of t' Tip (rev (comp_objs (bst_component conf)))
    \<and> node_list t' = node_list t"
proof -
  let ?c = "bst_component conf" and ?off = "align_up (unat (align (desc (bst_component conf)))) (unat SIZEOF_BST_NODE)"
  have v: "jfs_mlg_valid_component ?c" "unat (ptr ?c) + extent (desc ?c) \<le> 2 ^ 64"
    and al: "8 dvd unat (ptr ?c)" "8 dvd unat (dsize (desc ?c))"
    and sz: "?off \<le> unat (dsize (desc ?c))" "unat (dsize (desc ?c)) \<le> ?off + obj_bytes t"
    and nl: "nl \<noteq> NULL" "8 dvd unat nl"
      "unat nl + unat SIZEOF_BST_NODE \<le> unat (ptr ?c) \<or> unat (ptr ?c) + extent (desc ?c) \<le> unat nl"
    using mem by (simp_all add: bst_memory_def Let_def)
  have nodes: "\<forall>a\<in>set (comp_objs ?c). node_addr a"
    using comp_objs_node_addr[OF v dvd8_even[OF al(1)] dvd8_even[OF al(2)]] by blast
  have "0 < unat (dsize (desc ?c))" using sz(1) align_up_pos[of "unat (align (desc ?c))" 32] v(1) valid_align_pos
    by (auto simp: jfs_mlg_valid_component_def jfs_mlg_valid_desc_def SIZEOF_BST_NODE_def)
  hence out: "nl \<notin> set (comp_objs ?c)" using comp_objs_bounds[OF v, of nl] nl(3) by (auto simp: SIZEOF_BST_NODE_def)
  have na: "node_addr nl" using nl(1) dvd8_even[OF nl(2)] by (simp add: node_addr_def even_and_one)
  obtain off where off: "jfs_mlg_align_size SIZEOF_BST_NODE (align (desc ?c)) = Ret off" "off > 0" "unat off = ?off"
    using value_offset_pos v(1) by (auto simp: jfs_mlg_valid_component_def jfs_mlg_valid_desc_def)
  have "unat (dsize (desc ?c) - off) = unat (dsize (desc ?c)) - ?off"
    unfolding off(3)[symmetric] using sz(1) off(3) by (intro unat_sub) (simp add: word_le_nat_alt)
  thus ?thesis using init_run[OF v nodes na out cmp off(1,2), of t] sz(2) by (auto simp: copy_fits_def)
qed

text \<open>Without a free node a put is refused and leaves the tree as it was.\<close>

lemma puts_full: "bst_inv key_of t T [] \<Longrightarrow> jfs_bst_puts attach fuel t v key err = Ret (t, JCL_ERR_FULL)"
  by (simp add: jfs_bst_puts_def bst_inv_def fl_rep_def unat_eq_0)

section \<open>Filling a tree\<close>

text \<open>A client that puts the values of a list one after the other, as long as it gets no error.\<close>

fun put_all ::
  "(('k, 'v) jfs_bst \<Rightarrow> addr \<Rightarrow> addr \<Rightarrow> ('k, 'v) jfs_bst) \<Rightarrow> nat \<Rightarrow> ('v \<Rightarrow> 'k) \<Rightarrow> ('k, 'v) jfs_bst \<Rightarrow> 'v list \<Rightarrow>
   (('k, 'v) jfs_bst \<times> jcl_err) run" where
  "put_all attach fuel key_of t [] = Ret (t, JCL_OK)"
| "put_all attach fuel key_of t (v # vs) =
     run_bind (jfs_bst_puts attach fuel t v (key_of v) JCL_OK) (\<lambda>(t, err).
     if err = JCL_OK then put_all attach fuel key_of t vs else Ret (t, err))"

lemma height_le_size: "height T \<le> length (inorder T)"
  by (induction T) auto

lemma put_all_new:
  assumes "bst_inv key_of t T free" "distinct (map key_of vs)"
    and "set (map key_of vs) \<inter> set (map (key_of \<circ> val_at t) (inorder T)) = {}"
    and "length vs \<le> length free" "length (inorder T) + length vs < fuel"
  shows "\<exists>t' T'. put_all attach fuel key_of t vs = Ret (t', JCL_OK) \<and> bst_inv key_of t' T' (drop (length vs) free)
    \<and> map (val_at t') (inorder T') = fold (insort_key key_of) vs (map (val_at t) (inorder T))
    \<and> node_list t' = node_list t \<and> set (inorder T') \<subseteq> set (inorder T) \<union> set free"
  using assms
proof (induction vs arbitrary: t T free)
  case (Cons v vs)
  then obtain n ns where fr: "free = n # ns" by (cases free) auto
  have new: "key_of v \<notin> (key_of \<circ> val_at t) ` set (inorder T)" using Cons.prems(3) by auto
  have h: "height T < fuel" using height_le_size[of T] Cons.prems(5) by simp
  obtain t1 T1 where t1: "jfs_bst_puts attach fuel t v (key_of v) JCL_OK = Ret (t1, JCL_OK)" "bst_inv key_of t1 T1 ns"
    "map (val_at t1) (inorder T1) = insort_key key_of v (map (val_at t) (inorder T))"
    "node_list t1 = node_list t" "set (inorder T1) = insert n (set (inorder T))"
    using puts_new[OF Cons.prems(1)[unfolded fr] new h] by blast
  have len: "length (inorder T1) = Suc (length (inorder T))"
    using arg_cong[OF t1(3), of length] by simp
  have keys: "set (map (key_of \<circ> val_at t1) (inorder T1)) = insert (key_of v) (set (map (key_of \<circ> val_at t) (inorder T)))"
    using arg_cong[OF t1(3), of "\<lambda>xs. key_of ` set xs"] by (simp add: set_insort_key image_image)
  have "\<exists>t' T'. put_all attach fuel key_of t1 vs = Ret (t', JCL_OK) \<and> bst_inv key_of t' T' (drop (length vs) ns)
      \<and> map (val_at t') (inorder T') = fold (insort_key key_of) vs (map (val_at t1) (inorder T1))
      \<and> node_list t' = node_list t1 \<and> set (inorder T') \<subseteq> set (inorder T1) \<union> set ns"
    using Cons.prems(2-5) fr len keys by (intro Cons.IH[OF t1(2)]) auto
  thus ?case using t1(1,3-5) fr by simp
qed auto

section \<open>Searching\<close>

lemma search_present:
  assumes "sorted_wrt (<) (map (key_of \<circ> val) (inorder T))" "three_way cmp key_of" "a \<in> set (inorder T)"
  shows "\<exists>l c r k'. search (\<lambda>b. cmp (key_of (val a)) (val b)) T k = (Nd l c a r, k')"
  using assms
proof (induction T arbitrary: k)
  case (Nd l c b r)
  note so = Nd.prems(1) and tw = Nd.prems(2)
  consider "a = b" | "a \<in> set (inorder l)" | "a \<in> set (inorder r)" using Nd.prems(3) by auto
  thus ?case
  proof cases
    case 1
    thus ?thesis using three_way_zero[OF tw] by simp
  next
    case 2
    hence "key_of (val a) < key_of (val b)" using so by (auto simp: sorted_wrt_append)
    hence "cmp (key_of (val a)) (val b) < 0" using three_way_neg[OF tw] by simp
    thus ?thesis using Nd.IH(1)[OF _ tw 2] so by (simp add: sorted_wrt_append)
  next
    case 3
    hence "key_of (val b) < key_of (val a)" using so by (auto simp: sorted_wrt_append)
    hence "0 < cmp (key_of (val a)) (val b)" using three_way_pos[OF tw] by simp
    thus ?thesis using Nd.IH(2)[OF _ tw 3] so by (simp add: sorted_wrt_append)
  qed
qed simp

lemma find_present_core:
  assumes inv: "bst_core key_of t T free" and a: "a \<in> set (inorder T)" and fuel: "height T < fuel"
  shows "\<exists>loc. bst_find fuel t (key_of (val_at t a)) = Ret loc \<and> loc_node loc = a"
proof -
  have Z: "zrep t [] T" and off: "value_offset t > 0" using inv by (simp_all add: bst_core_def)
  obtain cmp where cmp: "bst_cmp t = Some cmp" "three_way cmp key_of" using inv by (auto simp: bst_core_def)
  obtain l c r k' where "search (\<lambda>b. cmp (key_of (val_at t a)) (val_at t b)) T [] = (Nd l c a r, k')"
    using search_present[OF _ cmp(2) a, of "val_at t"] inv unfolding bst_core_def by blast
  from find_ok[OF Z _ fuel this] cmp_node_val[OF off cmp(1)] show ?thesis by simp
qed

lemma find_present:
  "bst_inv key_of t T free \<Longrightarrow> a \<in> set (inorder T) \<Longrightarrow> height T < fuel \<Longrightarrow>
   \<exists>loc. bst_find fuel t (key_of (val_at t a)) = Ret loc \<and> loc_node loc = a"
  using find_present_core[of key_of t T free a fuel] by (simp add: bst_inv_core)

lemma find_absent_core:
  assumes core: "bst_core key_of t T free" and new: "key \<notin> (key_of \<circ> val_at t) ` set (inorder T)" and fuel: "height T < fuel"
  shows "\<exists>loc. bst_find fuel t key = Ret loc \<and> loc_node loc = nil t"
proof -
  have Z: "zrep t [] T" and off: "value_offset t > 0" using core by (simp_all add: bst_core_def)
  obtain cmp where cmp: "bst_cmp t = Some cmp" "three_way cmp key_of" using core by (auto simp: bst_core_def)
  obtain k where "search (\<lambda>a. cmp key (val_at t a)) T [] = (Tip, k)"
    using search_place[OF cmp(2) _ new] core by (auto simp: bst_core_def)
  from find_ok[OF Z _ fuel this] cmp_node_val[OF off cmp(1)] show ?thesis by simp
qed

lemma find_absent:
  "bst_inv key_of t T free \<Longrightarrow> key \<notin> (key_of \<circ> val_at t) ` set (inorder T) \<Longrightarrow> height T < fuel \<Longrightarrow>
   \<exists>loc. bst_find fuel t key = Ret loc \<and> loc_node loc = nil t"
  unfolding bst_inv_core using find_absent_core[of key_of t T free key fuel] by blast

section \<open>Taking values out\<close>

lemma check_cache_hit:
  assumes inv: "bst_inv key_of t T free"
    and a: "a \<in> {previous (cache t), largest (cache t), smallest (cache t)}" "a \<noteq> nil t"
  shows "bst_check_cache t (key_of (val_at t a)) = Ret a"
proof -
  obtain cmp where cmp: "bst_cmp t = Some cmp" "three_way cmp key_of" and off: "value_offset t > 0"
    and so: "sorted_wrt (<) (map (key_of \<circ> val_at t) (inorder T))" and ca: "cache_ok t (inorder T)"
    using inv by (auto simp: bst_inv_def)
  have mem: "x = nil t \<or> x \<in> set (inorder T)" if "x \<in> {previous (cache t), largest (cache t), smallest (cache t)}" for x
    using that ca by (auto simp: cache_ok_def split: if_splits)
  have "distinct (map (key_of \<circ> val_at t) (inorder T))" using so strict_sorted_iff by blast
  hence "inj_on (key_of \<circ> val_at t) (set (inorder T))" by (simp add: distinct_map)
  hence eq: "cmp (key_of (val_at t a)) (val_at t x) = 0 \<longleftrightarrow> x = a"
    if "x \<in> {previous (cache t), largest (cache t), smallest (cache t)}" "x \<noteq> nil t" for x
    using mem[OF that(1)] mem[OF a(1)] that(2) a(2) three_way_zero[OF cmp(2)]
      inj_on_eq_iff[of "key_of \<circ> val_at t" "set (inorder T)" x a] by auto
  show ?thesis using a eq cmp_node_val[OF off cmp(1)] by (auto simp: bst_check_cache_def)
qed

lemma unpack_val: "value_offset t > 0 \<Longrightarrow> copy_fits t \<Longrightarrow> bst_unpack_node t a = Ret (val_at t a)"
  by (simp add: bst_unpack_node_def container_value_off val_at_def)

lemma inv_root_nil: "bst_inv key_of t T free \<Longrightarrow> root t = nil t \<longleftrightarrow> T = Tip"
  by (cases T) (auto simp: bst_inv_def zrep_def)

lemma bst_set_parent_black_eq:
  assumes "w_color (parent_color t a) = BST_BLACK"
  shows "bst_set_parent t a p = assert_c (a \<noteq> NULL) (assert_c (p \<noteq> NULL)
    (Ret (t\<lparr>parent_color := (parent_color t)(a := pack p Black)\<rparr>)))"
  using assms by (intro bst_set_parent_eq) simp

lemma delete_single:
  assumes Z: "zrep t [] (Nd Tip Black n Tip)" and fuel: "0 < fuel"
  shows "\<exists>t'. bst_delete fuel t n = Ret t' \<and> root t' = nil t' \<and> nil t' = nil t \<and> cache t' = cache t"
proof -
  obtain fl where fl: "fuel = Suc fl" using fuel by (cases fuel) auto
  show ?thesis using Z fl
    by (auto simp: zrep_def bst_delete_def Let_def bst_transplant_def bst_fixup_delete_def bst_prim_eqs
        bst_set_parent_black_eq bst_set_color_def)
qed

section \<open>An example tree\<close>

definition blank_tree :: "(int, int) jfs_bst" where
  "blank_tree = \<lparr>root = 0, nil = 0, cache = \<lparr>smallest = 0, largest = 0, previous = 0\<rparr>, bst_cmp = None, value_offset = 0,
     value_size = 0, free_list = \<lparr>fl_list = 0, fl_count = 0\<rparr>, parent_color = (\<lambda>_. 0), right = (\<lambda>_. 0), left = (\<lambda>_. 0),
     node_list = (\<lambda>_. 0), vals = (\<lambda>_. 0), obj_bytes = 16\<rparr>"

definition bst_demo_conf :: "(int, int) jfs_bst_conf" where
  "bst_demo_conf = \<lparr>bst_component = \<lparr>ptr = 4096, desc = \<lparr>dsize = 48, align = 8, dcount = 4\<rparr>\<rparr>, conf_cmp = Some (\<lambda>k v. sgn (k - v))\<rparr>"

lemma demo_three_way: "three_way (\<lambda>k v :: int. sgn (k - v)) (\<lambda>v. v)"
  by (auto simp: three_way_def sgn_if)

lemma bst_demo_conf_ok: "bst_memory bst_demo_conf 64 (obj_bytes blank_tree)" "conf_cmp bst_demo_conf = Some (\<lambda>k v. sgn (k - v))"
  by (simp_all add: bst_memory_def bst_demo_conf_def blank_tree_def jfs_mlg_valid_component_def jfs_mlg_valid_desc_def
      jfs_mlg_valid_align_def extent_def align_up_def SIZEOF_BST_NODE_def)

lemma demo_inv:
  assumes "distinct vs" "length vs \<le> 4"
  shows "\<exists>t0 t T. jfs_bst_init 64 blank_tree bst_demo_conf JCL_OK = Ret (t0, JCL_OK)
    \<and> put_all attach_nodes 20 (\<lambda>v. v) t0 vs = Ret (t, JCL_OK)
    \<and> bst_inv (\<lambda>v. v) t T (drop (length vs) (rev (comp_objs (bst_component bst_demo_conf))))
    \<and> map (val_at t) (inorder T) = fold insort vs [] \<and> node_list t = (\<lambda>_. 0)"
proof -
  let ?fr = "rev (comp_objs (bst_component bst_demo_conf))"
  have len: "length ?fr = 4" by (simp add: bst_demo_conf_def)
  obtain t0 where t0: "jfs_bst_init 64 blank_tree bst_demo_conf JCL_OK = Ret (t0, JCL_OK)" "bst_inv (\<lambda>v. v) t0 Tip ?fr"
    "node_list t0 = (\<lambda>_. 0)"
    using bst_memory_init[OF bst_demo_conf_ok demo_three_way] by (auto simp: blank_tree_def)
  from put_all_new[OF t0(2), of vs 20 attach_nodes] assms len
  obtain t T where "put_all attach_nodes 20 (\<lambda>v. v) t0 vs = Ret (t, JCL_OK)" "bst_inv (\<lambda>v. v) t T (drop (length vs) ?fr)"
    "map (val_at t) (inorder T) = fold insort vs []" "node_list t = node_list t0" by auto
  thus ?thesis using t0(1,3) by auto
qed

lemma example_values: "distinct [5, 3, 8 :: int]" "length [5, 3, 8 :: int] = 3" "3 \<le> (4 :: nat)"
  by simp_all

lemma demo_tree:
  obtains t :: "(int, int) jfs_bst" and T where "bst_inv (\<lambda>v. v) t T [4096]" "map (val_at t) (inorder T) = [3, 5, 8]"
    "val_at t ` set (inorder T) = {3, 5, 8}" "length (inorder T) = 3" "height T < 20" "node_list t = (\<lambda>_. 0)"
proof -
  have fr: "drop 3 (rev (comp_objs (bst_component bst_demo_conf))) = [4096]"
    by (simp add: comp_objs_def bst_demo_conf_def upt_rec)
  have so: "fold insort [5, 3, 8 :: int] [] = [3, 5, 8]" by simp
  obtain t0 t T where t: "bst_inv (\<lambda>v. v) t T [4096]" "map (val_at t) (inorder T) = [3, 5, 8 :: int]"
      "node_list t = (\<lambda>_. 0)"
    using demo_inv[OF example_values(1)] unfolding so example_values(2) fr using example_values(3) by metis
  have len: "length (inorder T) = 3" using arg_cong[OF t(2), of length] by simp
  have h: "height T < 20" using height_le_size[of T] len by simp
  have "val_at t ` set (inorder T) = {3, 5, 8}" using arg_cong[OF t(2), of set] by simp
  from that[OF t(1,2) this len h t(3)] show ?thesis .
qed

section \<open>Properties\<close>

text \<open>
  C1. A tree that is initialised on a component of nodes that have room for the header and the value, and
  then given any values with pairwise different keys, no more than the component has nodes, accepts all of
  them; it ends as a red-black tree whose values, read in order, are the given values sorted by key, and the
  cache names the nodes of the smallest and the largest key.
\<close>

theorem bst_filled_sorted:
  assumes "bst_memory conf nl (obj_bytes t_init)" "conf_cmp conf = Some cmp" "three_way cmp key_of"
    and "distinct (map key_of vs)" "length vs \<le> unat (dcount (desc (bst_component conf)))" "length vs < fuel"
  shows "\<exists>t0 t T. jfs_bst_init nl t_init conf JCL_OK = Ret (t0, JCL_OK) \<and> put_all attach fuel key_of t0 vs = Ret (t, JCL_OK)
    \<and> zrep t [] T \<and> rb_tree T \<and> cache_ok t (inorder T) \<and> map (val_at t) (inorder T) = sort_key key_of vs"
proof -
  obtain t0 where t0: "jfs_bst_init nl t_init conf JCL_OK = Ret (t0, JCL_OK)" "bst_inv key_of t0 Tip (rev (comp_objs (bst_component conf)))"
    using bst_memory_init[OF assms(1-3)] by blast
  have "sort_key key_of vs = fold (insort_key key_of) vs []"
    using assms(4) by (intro sort_key_conv_fold) (simp add: distinct_map)
  thus ?thesis using put_all_new[OF t0(2) assms(4), of fuel attach] t0(1) assms(5,6) by (auto simp: bst_inv_def)
qed

theorem bst_filled_sorted_witness:
  "\<exists>t0 t T. jfs_bst_init 64 blank_tree bst_demo_conf JCL_OK = Ret (t0, JCL_OK)
     \<and> put_all attach_nodes 20 (\<lambda>v. v) t0 [5, 3, 8, 1] = Ret (t, JCL_OK)
     \<and> rb_tree T \<and> zrep t [] T \<and> map (val_at t) (inorder T) = [1, 3, 5, 8]"
proof -
  have so: "sort_key (\<lambda>v. v) [5, 3, 8, 1 :: int] = [1, 3, 5, 8]" by simp
  have "distinct (map (\<lambda>v. v) [5, 3, 8, 1 :: int])" "length [5, 3, 8, 1 :: int] \<le> unat (dcount (desc (bst_component bst_demo_conf)))"
    "length [5, 3, 8, 1 :: int] < 20" by (simp_all add: bst_demo_conf_def)
  from bst_filled_sorted[OF bst_demo_conf_ok demo_three_way this, of attach_nodes] show ?thesis
    unfolding so by metis
qed

text \<open>
  C2. Putting a value with a new key into a tree with a free node succeeds without an error, keeps
  the invariant of the tree (red-black, ordered by key, cache, free list), uses up one free node, and
  inserts the value at its place in the order while every other value stays.
\<close>

theorem bst_puts_new_key:
  assumes "bst_inv key_of t T (n # free)" and "key_of v \<notin> (key_of \<circ> val_at t) ` set (inorder T)" and "height T < fuel"
  shows "\<exists>t' T'. jfs_bst_puts attach fuel t v (key_of v) err = Ret (t', err) \<and> bst_inv key_of t' T' free
    \<and> set (inorder T') = insert n (set (inorder T))
    \<and> map (val_at t') (inorder T') = insort_key key_of v (map (val_at t) (inorder T))"
  using puts_new[OF assms] by blast

theorem bst_puts_new_key_witness:
  "\<exists>(t :: (int, int) jfs_bst) T t' T'. map (val_at t) (inorder T) = [3, 5, 8]
     \<and> jfs_bst_puts attach_nodes 20 t 4 4 JCL_OK = Ret (t', JCL_OK) \<and> map (val_at t') (inorder T') = [3, 4, 5, 8]"
proof -
  obtain t :: "(int, int) jfs_bst" and T where t: "bst_inv (\<lambda>v. v) t T [4096]" "map (val_at t) (inorder T) = [3, 5, 8]"
    "val_at t ` set (inorder T) = {3, 5, 8}" "height T < 20" by (rule demo_tree)
  have "4 \<notin> ((\<lambda>v. v) \<circ> val_at t) ` set (inorder T)" using t(3) by (simp add: comp_def)
  from bst_puts_new_key[OF t(1) this t(4), of attach_nodes JCL_OK] obtain t' T' where
    "jfs_bst_puts attach_nodes 20 t 4 4 JCL_OK = Ret (t', JCL_OK)" "map (val_at t') (inorder T') = insort 4 [3, 5, 8]"
    unfolding t(2) by blast
  thus ?thesis using t(2) by (intro exI[of _ t] exI[of _ T] exI[of _ t'] exI[of _ T']) simp
qed

text \<open>
  C17. \<open>bst_find\<close> ends within one more round than the height of the tree and is correct: it returns
  the node with the key if there is one, and the nil node otherwise.
\<close>

theorem bst_find_correct:
  assumes "bst_inv key_of t T free" and "height T < fuel"
  shows "\<exists>loc. bst_find fuel t key = Ret loc
    \<and> (if key \<in> (key_of \<circ> val_at t) ` set (inorder T)
       then loc_node loc \<in> set (inorder T) \<and> key_of (val_at t (loc_node loc)) = key
       else loc_node loc = nil t)"
proof (cases "key \<in> (key_of \<circ> val_at t) ` set (inorder T)")
  case True
  then obtain a where "a \<in> set (inorder T)" "key = key_of (val_at t a)" by auto
  thus ?thesis using find_present[OF assms(1) _ assms(2), of a] True by auto
qed (use find_absent[OF assms(1) _ assms(2), of key] in auto)

theorem bst_find_correct_witness:
  "\<exists>(t :: (int, int) jfs_bst) T loc. map (val_at t) (inorder T) = [3, 5, 8] \<and> bst_find 20 t 8 = Ret loc \<and> val_at t (loc_node loc) = 8"
proof -
  obtain t :: "(int, int) jfs_bst" and T where t: "bst_inv (\<lambda>v. v) t T [4096]" "map (val_at t) (inorder T) = [3, 5, 8]"
    "val_at t ` set (inorder T) = {3, 5, 8}" "height T < 20" by (rule demo_tree)
  have "8 \<in> ((\<lambda>v. v) \<circ> val_at t) ` set (inorder T)" using t(3) by (simp add: comp_def)
  with bst_find_correct[OF t(1,4), of 8] obtain loc where "bst_find 20 t 8 = Ret loc" "val_at t (loc_node loc) = 8" by auto
  thus ?thesis using t(2) by metis
qed

text \<open>
  C35. \<open>jfs_bst_takes\<close> does not remove a cached node: when the key is that of the smallest, the largest
  or the last used node, it copies the value out and returns without an error, and the tree is
  unchanged, so that the same call can be repeated for ever.
\<close>

theorem bst_takes_keeps_cached:
  assumes inv: "bst_inv key_of t T free"
    and a: "a \<in> {previous (cache t), largest (cache t), smallest (cache t)}" "a \<noteq> nil t"
  shows "jfs_bst_takes detach fuel t (key_of (val_at t a)) err = Ret (t, Some (val_at t a), err)"
proof -
  have "root t \<noteq> nil t"
    using inv a inv_root_nil[OF inv] by (auto simp: bst_inv_def cache_ok_def)
  thus ?thesis using check_cache_hit[OF assms] a(2) unpack_val[of t a] inv
    by (simp add: jfs_bst_takes_def bst_inv_def)
qed

theorem bst_takes_keeps_cached_witness:
  "\<exists>(t :: (int, int) jfs_bst) T. map (val_at t) (inorder T) = [3, 5, 8] \<and> jfs_bst_takes detach_nodes 20 t 8 JCL_OK = Ret (t, Some 8, JCL_OK)"
proof -
  obtain t :: "(int, int) jfs_bst" and T where t: "bst_inv (\<lambda>v. v) t T [4096]" "map (val_at t) (inorder T) = [3, 5, 8]"
    by (rule demo_tree)
  have ne: "inorder T \<noteq> []" using t(2) by auto
  have "val_at t (last (inorder T)) = 8" using arg_cong[OF t(2), of last] ne by (simp add: last_map)
  moreover have l: "largest (cache t) = last (inorder T)" using t(1) ne by (simp add: bst_inv_def cache_ok_def)
  moreover have "last (inorder T) \<noteq> nil t" using t(1) zrep_nil_notin[of t T] last_in_set[OF ne] by (auto simp: bst_inv_def)
  ultimately have "jfs_bst_takes detach_nodes 20 t 8 JCL_OK = Ret (t, Some 8, JCL_OK)"
    using bst_takes_keeps_cached[OF t(1), of "last (inorder T)" detach_nodes 20 JCL_OK] by simp
  thus ?thesis using t(2) by metis
qed



text \<open>
  C34. The last node cannot be taken out: \<open>bst_update_cache_delete\<close> asserts that the deleted node is
  the root, but runs after the root pointer has been moved to the nil node, so \<open>jfs_bst_get_largest\<close>
  and \<open>jfs_bst_get_smallest\<close> abort on every tree of one node that has no attached duplicates.
\<close>

theorem bst_last_node_aborts:
  assumes inv: "bst_inv key_of t (Nd Tip Black n Tip) free" and fuel: "0 < fuel"
    and det: "detach t (n + value_offset t) = (n + value_offset t, t)"
  shows "jfs_bst_get_largest detach fuel t err = Abort \<and> jfs_bst_get_smallest detach fuel t err = Abort"
proof -
  have Z: "zrep t [] (Nd Tip Black n Tip)" and off: "value_offset t > 0" "copy_fits t"
    and c: "largest (cache t) = n" "smallest (cache t) = n" using inv by (auto simp: bst_inv_def cache_ok_def)
  have n: "n \<noteq> nil t" "root t = n" using zrep_links[OF Z] zrep_root[OF Z] by auto
  obtain t' where t': "bst_delete fuel t n = Ret t'" "root t' = nil t'" "nil t' = nil t" "cache t' = cache t"
    using delete_single[OF Z fuel] by blast
  have "bst_detach_and_delete detach fuel t n = Abort"
    using n t' c det by (simp add: bst_detach_and_delete_def container_value_off[OF off(1)] off(2) bst_update_cache_delete_def)
  thus ?thesis using c n by (simp add: jfs_bst_get_largest_def jfs_bst_get_smallest_def)
qed

theorem bst_last_node_aborts_witness:
  "\<exists>t0 t. jfs_bst_init 64 blank_tree bst_demo_conf JCL_OK = Ret (t0, JCL_OK)
     \<and> put_all attach_nodes 20 (\<lambda>v. v) t0 [7] = Ret (t, JCL_OK) \<and> jfs_bst_get_largest (\<lambda>t v. (v, t)) 20 t JCL_OK = Abort"
proof -
  obtain t0 t T free where t: "jfs_bst_init 64 blank_tree bst_demo_conf JCL_OK = Ret (t0, JCL_OK)"
    "put_all attach_nodes 20 (\<lambda>v. v) t0 [7] = Ret (t, JCL_OK)" "bst_inv (\<lambda>v. v) t T free" "map (val_at t) (inorder T) = [7]"
    using demo_inv[of "[7]"] by (auto simp del: put_all.simps)
  have "length (inorder T) = 1" using arg_cong[OF t(4), of length] by simp
  then obtain c n where T: "T = Nd Tip c n Tip" by (cases T; cases "inorder T") (auto, (metis inorder.simps append_is_Nil_conv list.distinct(1) ntree.exhaust)+)
  have "c = Black" using t(3) T by (simp add: bst_inv_def rb_tree_def)
  hence "jfs_bst_get_largest (\<lambda>t v. (v, t)) 20 t JCL_OK = Abort"
    using bst_last_node_aborts[of "\<lambda>v. v" t n free 20 "\<lambda>t v. (v, t)" JCL_OK] t(3) T by simp
  thus ?thesis using t(1,2) by blast
qed

lemma make_desc_eq:
  assumes "jfs_mlg_valid_desc \<lparr>dsize = s, align = a, dcount = n\<rparr>"
  shows "\<exists>r. jfs_bst_make_desc s a n err = Ret (\<lparr>dsize = r + s * n, align = max 8 a, dcount = 1\<rparr>, err)
    \<and> jfs_mlg_append \<lparr>dsize = SIZEOF_BST_NODE, align = ALIGNOF_BST_NODE, dcount = 1\<rparr> \<lparr>dsize = s, align = a, dcount = n\<rparr>
        = Ret (\<lparr>dsize = r + s * n, align = max 8 a, dcount = 1\<rparr>, r)
    \<and> jfs_mlg_align_size SIZEOF_BST_NODE (max 8 a) = Ret r \<and> unat r = align_up (unat a) (unat SIZEOF_BST_NODE)"
proof -
  have va: "jfs_mlg_valid_align a" using assms by (simp add: jfs_mlg_valid_desc_def)
  have node: "jfs_mlg_valid_desc \<lparr>dsize = SIZEOF_BST_NODE, align = ALIGNOF_BST_NODE, dcount = 1\<rparr>"
    by (simp add: jfs_mlg_valid_desc_def jfs_mlg_valid_align_def SIZEOF_BST_NODE_def ALIGNOF_BST_NODE_def)
  obtain k where k: "k < 64" "a = 2 ^ k" using va valid_align_word by (auto simp: jfs_mlg_valid_align_def)
  have small: "jfs_mlg_align_size SIZEOF_BST_NODE a = jfs_mlg_align_size SIZEOF_BST_NODE 8" if "a < 8"
  proof -
    have "2 ^ k < (2 :: nat) ^ 3" using that k unat_pow2_64[of k] by (simp add: word_less_nat_alt)
    hence "k < 3" by (rule power_less_imp_less_exp[rotated]) simp
    hence "k = 0 \<or> k = 1 \<or> k = 2" by auto
    thus ?thesis using k(2) by (auto simp: jfs_mlg_align_size_def SIZEOF_BST_NODE_def jfs_mlg_valid_align_def)
  qed
  obtain r where r: "jfs_mlg_align_size SIZEOF_BST_NODE a = Ret r" "unat r = align_up (unat a) (unat SIZEOF_BST_NODE)" using value_offset_pos[OF va] by blast
  let ?d = "\<lparr>dsize = r + s * n, align = max 8 a, dcount = 1\<rparr>"
  have ap: "jfs_mlg_append \<lparr>dsize = SIZEOF_BST_NODE, align = ALIGNOF_BST_NODE, dcount = 1\<rparr> \<lparr>dsize = s, align = a, dcount = n\<rparr> = Ret (?d, r)"
    using node assms r by (auto simp: jfs_mlg_append_def Let_def ALIGNOF_BST_NODE_def max_def)
  have "jfs_bst_make_desc s a n err = Ret (?d, err)"
    using node assms ap by (simp add: jfs_bst_make_desc_def Let_def)
  moreover have "jfs_mlg_align_size SIZEOF_BST_NODE (max 8 a) = Ret r" using small r by (auto simp: max_def)
  ultimately show ?thesis using ap r(2) by blast
qed

text \<open>
  For every valid description of the values, \<open>jfs_bst_make_desc\<close> returns a description with the
  count 1 whatever count was asked for, and the offset that \<open>jfs_bst_init\<close> recovers from it is the
  offset at which \<open>jfs_mlg_append\<close> placed the value behind the node.
\<close>

theorem bst_make_desc_offset:
  assumes "jfs_mlg_valid_desc \<lparr>dsize = s, align = a, dcount = n\<rparr>"
  shows "\<exists>d off. jfs_bst_make_desc s a n err = Ret (d, err) \<and> dcount d = 1
    \<and> jfs_mlg_append \<lparr>dsize = SIZEOF_BST_NODE, align = ALIGNOF_BST_NODE, dcount = 1\<rparr> \<lparr>dsize = s, align = a, dcount = n\<rparr> = Ret (d, off)
    \<and> jfs_mlg_align_size SIZEOF_BST_NODE (align d) = Ret off \<and> align d = max 8 a"
  using make_desc_eq[OF assms, of err] by auto

theorem bst_make_desc_offset_witness:
  "\<exists>d off. jfs_bst_make_desc 4 4 100 JCL_OK = Ret (d, JCL_OK) \<and> dcount d = 1 \<and> jfs_mlg_align_size SIZEOF_BST_NODE (align d) = Ret off"
proof -
  have "jfs_mlg_valid_desc \<lparr>dsize = 4, align = 4, dcount = 100\<rparr>" by (simp add: jfs_mlg_valid_desc_def jfs_mlg_valid_align_def)
  from bst_make_desc_offset[OF this, of JCL_OK] show ?thesis by blast
qed

text \<open>
  The parent and the colour of a node share one word: setting one reads back as set and leaves
  the other unchanged, for every even node address.
\<close>

theorem bst_parent_color_roundtrip:
  assumes "node \<noteq> NULL" "node_addr p" "node_addr q" "c \<in> {BST_RED, BST_BLACK}" "d \<in> {BST_RED, BST_BLACK}"
  shows "\<exists>t1 t2 t3. bst_set_parent_color t node p c = Ret t1 \<and> bst_parent t1 node = Ret p \<and> bst_color t1 node = Ret c
    \<and> bst_set_parent t1 node q = Ret t2 \<and> bst_parent t2 node = Ret q \<and> bst_color t2 node = Ret c
    \<and> bst_set_color t2 node d = Ret t3 \<and> bst_parent t3 node = Ret q \<and> bst_color t3 node = Ret d"
proof -
  obtain c' d' where cd: "c = cw c'" "d = cw d'" using assms(4,5) by (metis cw.simps insert_iff singletonD)
  show ?thesis unfolding cd using assms(1-3)
    by (simp add: bst_prim_eqs bst_set_parent_eq[where c = c'])
qed

theorem bst_parent_color_roundtrip_witness:
  "\<exists>t1. bst_set_parent_color blank_tree 96 128 BST_BLACK = Ret t1 \<and> bst_parent t1 96 = Ret 128 \<and> bst_color t1 96 = Ret BST_BLACK"
  using bst_parent_color_roundtrip[of 96 128 160 BST_BLACK BST_RED blank_tree]
  by (auto simp: node_addr_def even_and_one)

text \<open>
  \<open>bst_find\<close> accepts any negative result of the comparison function, but \<open>bst_insert\<close> links to the
  left only for exactly -1.  With the usual comparison by subtraction, 3 put after 5 becomes the right
  child of 5, and a later search for 3 ends at the nil node.
\<close>

definition put_one :: "(int, int) jfs_bst \<Rightarrow> int \<Rightarrow> (int, int) jfs_bst run" where
  "put_one t v = run_bind (jfs_bst_puts attach_nodes 9 t v v JCL_OK) (\<lambda>(t, err). if err = JCL_OK then Ret t else Fault)"

definition subtracting_conf :: "(int, int) jfs_bst_conf" where
  "subtracting_conf = bst_demo_conf\<lparr>conf_cmp := Some (\<lambda>k v. k - v)\<rparr>"

theorem bst_insert_misplaces_on_minus_two:
  "run_bind (jfs_bst_init 64 blank_tree subtracting_conf JCL_OK) (\<lambda>(t, _).
   run_bind (put_one t 5) (\<lambda>t. run_bind (put_one t 3) (\<lambda>t. run_bind (bst_find 9 t 3) (\<lambda>loc.
   Ret (left t (root t) = nil t, vals t (right t (root t) + value_offset t), loc_node loc = nil t)))))
   = Ret (True, 3, True)"
  by code_simp

end
