(* ===== verification/Shared_Block.thy ===== *)
theory Shared_Block
  imports Lru_Cache Bst_Map
begin

text \<open>
  Components that share one allocation: \<open>jfs_mlg_memory_init\<close> cuts a block into components, and free
  lists, caches and trees are initialised on them.  The theorems run the operations of several of them in
  any order over the same memory and show that they do not disturb each other.
\<close>

section \<open>Free lists\<close>

text \<open>Initialising a list on each of several components, over the same bytes of memory.\<close>

fun fls_init :: "mem \<Rightarrow> jfs_mlg_component list \<Rightarrow> mem \<times> jfs_fl list" where
  "fls_init m [] = (m, [])"
| "fls_init m (c # cs) =
     (case jfs_fl_init store_ptr m \<lparr>fl_list = NULL, fl_count = 0\<rparr> c JCL_OK of (m, fl, _) \<Rightarrow>
      case fls_init m cs of (m, fls) \<Rightarrow> (m, fl # fls))"

text \<open>
  Clients of these lists, in any order of their calls: they allocate, write any byte of an object that they
  hold, and free.  The last argument has for each list the objects that its client holds.
\<close>

inductive pools_reach :: "jfs_mlg_component list \<Rightarrow> mem \<Rightarrow> jfs_fl list \<Rightarrow> addr set list \<Rightarrow> bool" for cs where
  pools_init: "fls_init m0 cs = (m, fls) \<Longrightarrow> pools_reach cs m fls (replicate (length cs) {})"
| pools_alloc: "pools_reach cs m fls held \<Longrightarrow> i < length cs \<Longrightarrow> jfs_fl_alloc load_ptr m (fls ! i) = (p, fl') \<Longrightarrow> p \<noteq> NULL \<Longrightarrow>
     pools_reach cs m (fls[i := fl']) (held[i := insert p (held ! i)])"
| pools_write: "pools_reach cs m fls held \<Longrightarrow> i < length cs \<Longrightarrow> p \<in> held ! i \<Longrightarrow> j < unat (dsize (desc (cs ! i))) \<Longrightarrow>
     pools_reach cs (m(p + of_nat j := b)) fls held"
| pools_free: "pools_reach cs m fls held \<Longrightarrow> i < length cs \<Longrightarrow> p \<in> held ! i \<Longrightarrow> jfs_fl_free store_ptr m (fls ! i) p = (m', fl') \<Longrightarrow>
     pools_reach cs m' (fls[i := fl']) (held[i := held ! i - {p}])"

text \<open>What a block is cut into: components that are valid, inside the address space and ordered.\<close>

definition comps_ok :: "jfs_mlg_component list \<Rightarrow> bool" where
  "comps_ok cs \<longleftrightarrow> (\<forall>c\<in>set cs. jfs_mlg_valid_component c \<and> unat (ptr c) + extent (desc c) \<le> 2 ^ 64)
     \<and> sorted_wrt (\<lambda>c c'. unat (ptr c) + extent (desc c) \<le> unat (ptr c')) cs"

lemma comps_ok_Cons:
  "comps_ok (c # cs) \<longleftrightarrow> jfs_mlg_valid_component c \<and> unat (ptr c) + extent (desc c) \<le> 2 ^ 64
     \<and> (\<forall>c'\<in>set cs. unat (ptr c) + extent (desc c) \<le> unat (ptr c')) \<and> comps_ok cs"
  by (auto simp: comps_ok_def)

lemma comps_ok_nth:
  assumes "comps_ok cs" "i < length cs"
  shows "jfs_mlg_valid_component (cs ! i)" "unat (ptr (cs ! i)) + extent (desc (cs ! i)) \<le> 2 ^ 64"
  using assms by (auto simp: comps_ok_def)

lemma objs_apart:
  assumes "comps_ok cs" "i < j" "j < length cs" "p \<in> set (comp_objs (cs ! i))" "q \<in> set (comp_objs (cs ! j))"
  shows "unat p + unat (dsize (desc (cs ! i))) \<le> unat q"
proof -
  have "unat (ptr (cs ! i)) + extent (desc (cs ! i)) \<le> unat (ptr (cs ! j))"
    using assms(1-3) by (auto simp: comps_ok_def sorted_wrt_iff_nth_less)
  moreover have "i < length cs" using assms(2,3) by simp
  ultimately show ?thesis
    using comp_objs_bounds(2)[OF comps_ok_nth[OF assms(1)] assms(4)] comp_objs_bounds(1)[OF comps_ok_nth[OF assms(1,3)] assms(5)]
    by linarith
qed

lemma comp_bytes_disjoint:
  assumes "comps_ok cs" "i < length cs" "j < length cs" "i \<noteq> j"
  shows "comp_bytes (cs ! i) \<inter> comp_bytes (cs ! j) = {}"
proof -
  have no: "comp_bytes (cs ! i) \<inter> comp_bytes (cs ! j) = {}" if "i < j" "j < length cs" for i j
  proof -
    have "unat (ptr (cs ! i)) + extent (desc (cs ! i)) \<le> unat (ptr (cs ! j))"
      using assms(1) that by (auto simp: comps_ok_def sorted_wrt_iff_nth_less)
    thus ?thesis by (auto simp: comp_bytes_def)
  qed
  consider "i < j" | "j < i" using assms(4) by linarith
  thus ?thesis using no[of i j] no[of j i] assms(2,3) by cases blast+
qed

text \<open>What is done to one component leaves the lists of the others alone.\<close>

definition all_pools :: "jfs_mlg_component list \<Rightarrow> mem \<Rightarrow> jfs_fl list \<Rightarrow> addr set list \<Rightarrow> bool" where
  "all_pools cs m fls held \<longleftrightarrow> length fls = length cs \<and> length held = length cs
     \<and> (\<forall>i<length cs. pool_inv (cs ! i) m (fls ! i) (held ! i))"

lemma all_pools_step:
  assumes ok: "comps_ok cs" and big: "\<forall>c\<in>set cs. pool_comp c" and inv: "all_pools cs m fls held" and i: "i < length cs"
    and only: "only_comp (cs ! i) m m'" and step: "pool_inv (cs ! i) m' fl' h'"
  shows "all_pools cs m' (fls[i := fl']) (held[i := h'])"
proof -
  have "pool_inv (cs ! k) m' (fls ! k) (held ! k)" if k: "k < length cs" "k \<noteq> i" for k
  proof (rule pool_inv_frame)
    show "pool_comp (cs ! k)" using big k(1) by simp
    show "\<forall>a\<in>comp_bytes (cs ! k). m' a = m a"
      using comp_bytes_disjoint[OF ok k(1) i k(2)] only by (auto simp: only_comp_def)
    show "pool_inv (cs ! k) m (fls ! k) (held ! k)" using inv k(1) by (simp add: all_pools_def)
  qed
  thus ?thesis using inv step i by (auto simp: all_pools_def nth_list_update)
qed

lemma only_comp_refl [simp]: "only_comp c m m"
  by (simp add: only_comp_def)

lemma all_less_Suc_eq0: "(\<forall>i<Suc n. P i) \<longleftrightarrow> P 0 \<and> (\<forall>i<n. P (Suc i))"
  by (metis Suc_less_eq gr0_implies_Suc less_Suc_eq_0_disj)

lemma fls_init_ok:
  assumes "comps_ok cs" "\<forall>c\<in>set cs. pool_comp c"
  shows "\<exists>m' fls. fls_init m cs = (m', fls) \<and> all_pools cs m' fls (replicate (length cs) {})
    \<and> (\<forall>a. (\<forall>c\<in>set cs. a \<notin> comp_bytes c) \<longrightarrow> m' a = m a)"
  using assms
proof (induction cs arbitrary: m)
  case (Cons c cs)
  have c: "pool_comp c" and cs: "comps_ok cs" "\<forall>c\<in>set cs. pool_comp c" using Cons.prems by (simp_all add: comps_ok_Cons)
  obtain m1 fl where fl: "jfs_fl_init store_ptr m \<lparr>fl_list = NULL, fl_count = 0\<rparr> c JCL_OK = (m1, fl, JCL_OK)"
    using bytes_init[OF c] by blast
  obtain m2 fls where fls: "fls_init m1 cs = (m2, fls)" "all_pools cs m2 fls (replicate (length cs) {})"
    "\<forall>a. (\<forall>c\<in>set cs. a \<notin> comp_bytes c) \<longrightarrow> m2 a = m1 a"
    using Cons.IH[OF cs, of m1] by (elim exE conjE)
  have "comp_bytes c \<inter> comp_bytes c' = {}" if c': "c' \<in> set cs" for c'
  proof -
    obtain i where "i < length cs" "c' = cs ! i" using c' by (auto simp: in_set_conv_nth)
    thus ?thesis using comp_bytes_disjoint[OF Cons.prems(1), of 0 "Suc i"] by simp
  qed
  hence "\<forall>a\<in>comp_bytes c. m2 a = m1 a" using fls(3) by blast
  hence "pool_inv c m2 fl {}" by (rule pool_inv_frame[OF c]) (rule pool_inv_init[OF c fl])
  hence "all_pools (c # cs) m2 (fl # fls) (replicate (length (c # cs)) {})"
    using fls(2) by (simp add: all_pools_def all_less_Suc_eq0)
  moreover have "\<forall>a. (\<forall>c\<in>set (c # cs). a \<notin> comp_bytes c) \<longrightarrow> m2 a = m a"
    using fls(3) init_only_comp[OF c fl] by (simp add: only_comp_def)
  ultimately show ?case using fl fls(1) by (intro exI[of _ m2] exI[of _ "fl # fls"]) simp
qed (simp add: all_pools_def)

text \<open>The invariant: every list owns the objects of its component, whatever the others do.\<close>

lemma pools_reach_inv:
  assumes "pools_reach cs m fls held" and ok: "comps_ok cs" and big: "\<forall>c\<in>set cs. pool_comp c"
  shows "all_pools cs m fls held"
  using assms(1)
proof (induction rule: pools_reach.induct)
  case (pools_init m0 m fls)
  thus ?case using fls_init_ok[OF ok big, of m0] by auto
next
  case (pools_alloc m fls held i p fl')
  have "pool_inv (cs ! i) m (fls ! i) (held ! i)" using pools_alloc.IH pools_alloc.hyps(2) by (simp add: all_pools_def)
  from all_pools_step[OF ok big pools_alloc.IH pools_alloc.hyps(2) only_comp_refl pool_inv_alloc[OF this pools_alloc.hyps(3,4)]]
  show ?case .
next
  case (pools_write m fls held i p j b)
  have c: "pool_comp (cs ! i)" using big pools_write.hyps(2) by simp
  have inv: "pool_inv (cs ! i) m (fls ! i) (held ! i)" using pools_write.IH pools_write.hyps(2) by (simp add: all_pools_def)
  note w = pool_inv_write[OF c inv pools_write.hyps(3,4)]
  have "only_comp (cs ! i) m (m(p + of_nat j := b))" using w(2) by (auto simp: only_comp_def)
  from all_pools_step[OF ok big pools_write.IH pools_write.hyps(2) this w(1)] show ?case by (simp only: list_update_id)
next
  case (pools_free m fls held i p m' fl')
  have c: "pool_comp (cs ! i)" using big pools_free.hyps(2) by simp
  have inv: "pool_inv (cs ! i) m (fls ! i) (held ! i)" using pools_free.IH pools_free.hyps(2) by (simp add: all_pools_def)
  from all_pools_step[OF ok big pools_free.IH pools_free.hyps(2) free_only_comp[OF c inv pools_free.hyps(3,4)]
      pool_inv_free[OF c inv pools_free.hyps(3,4)]] show ?case .
qed

lemma memory_init_comps_ok:
  assumes "layout_ok lay" "memalign_contract pm"
    and "malloc (SIZEOF_UINTPTR * descriptions_count lay) \<notin> live" "\<forall>a s. snd (pm a s) \<noteq> malloc (SIZEOF_UINTPTR * descriptions_count lay)"
    and "jfs_mlg_memory_init malloc pm lay live JCL_OK = Ret ((p, Some (mem, cs)), live', err)"
  shows "comps_ok cs"
  using memory_init_components(2,3)[where malloc = malloc and live = live, OF assms] by (simp add: comps_ok_def)

lemma memory_init_pool_comps:
  assumes "layout_ok lay" "memalign_contract pm"
    and "malloc (SIZEOF_UINTPTR * descriptions_count lay) \<notin> live" "\<forall>a s. snd (pm a s) \<noteq> malloc (SIZEOF_UINTPTR * descriptions_count lay)"
    and "jfs_mlg_memory_init malloc pm lay live JCL_OK = Ret ((p, Some (mem, cs)), live', err)"
    and big: "\<forall>d\<in>set (descriptions lay). 8 \<le> unat (dsize d)" and c: "c \<in> set cs"
  shows "pool_comp c"
proof -
  note comps = memory_init_components[where malloc = malloc and live = live, OF assms(1-5)]
  have "desc c \<in> set (descriptions lay)" unfolding comps(1)[symmetric] using c by simp
  thus ?thesis using comps(3)[OF c] big by (simp add: pool_comp_def)
qed

text \<open>
  C11. Free lists on the components of one block, all of them for objects of 8 bytes or more, do not disturb each
  other.  In every state that the clients of all lists can reach, in any order of their calls and of their
  writes to the objects they hold, over the same bytes of memory, an allocation from a list fails only when its
  client holds all objects of the component, and otherwise returns an object of the component that overlaps no
  object held by any client of any list.
\<close>

theorem pools_share_block:
  assumes "layout_ok lay" "memalign_contract pm"
    and "malloc (SIZEOF_UINTPTR * descriptions_count lay) \<notin> live" "\<forall>a s. snd (pm a s) \<noteq> malloc (SIZEOF_UINTPTR * descriptions_count lay)"
    and "jfs_mlg_memory_init malloc pm lay live JCL_OK = Ret ((b, Some (mem, cs)), live', err)"
    and big: "\<forall>d\<in>set (descriptions lay). 8 \<le> unat (dsize d)"
    and reach: "pools_reach cs m fls held" and i: "i < length cs" and al: "jfs_fl_alloc load_ptr m (fls ! i) = (p, fl')"
  shows "(p = NULL \<longleftrightarrow> held ! i = set (comp_objs (cs ! i))) \<and> (p \<noteq> NULL \<longrightarrow> p \<in> set (comp_objs (cs ! i)) - held ! i
    \<and> (\<forall>j<length cs. \<forall>q\<in>held ! j.
          unat p + unat (dsize (desc (cs ! i))) \<le> unat q \<or> unat q + unat (dsize (desc (cs ! j))) \<le> unat p))"
proof -
  have ok: "comps_ok cs" using memory_init_comps_ok[where malloc = malloc and live = live, OF assms(1-5)] .
  have comp: "\<forall>c\<in>set cs. pool_comp c" using memory_init_pool_comps[where malloc = malloc and live = live, OF assms(1-6)] by blast
  have inv: "pool_inv (cs ! j) m (fls ! j) (held ! j)" if "j < length cs" for j
    using pools_reach_inv[OF reach ok comp] that by (simp add: all_pools_def)
  hence sub: "held ! j \<subseteq> set (comp_objs (cs ! j))" if "j < length cs" for j using that pool_inv_held by blast
  have ci: "pool_comp (cs ! i)" using comp i by simp
  note ans = pool_inv_answer[OF ci inv[OF i] al]
  have "unat p + unat (dsize (desc (cs ! i))) \<le> unat q \<or> unat q + unat (dsize (desc (cs ! j))) \<le> unat p"
    if "p \<in> set (comp_objs (cs ! i)) - held ! i" "j < length cs" "q \<in> held ! j" for j q
  proof -
    have q: "q \<in> set (comp_objs (cs ! j))" using sub that(2,3) by blast
    consider "i = j" | "i < j" | "j < i" by linarith
    thus ?thesis
    proof cases
      case 1
      thus ?thesis using comp_objs_spaced[OF comps_ok_nth[OF ok i], of p q] q that by auto
    qed (use objs_apart[OF ok] i that(1,2) q in auto)
  qed
  thus ?thesis using ans by blast
qed

text \<open>A block for two lists, of objects of 8 and of 24 bytes.\<close>

definition pools_layout :: jfs_mlg_layout where
  "pools_layout = \<lparr>descriptions = [\<lparr>dsize = 8, align = 8, dcount = 4\<rparr>, \<lparr>dsize = 24, align = 64, dcount = 5\<rparr>],
     descriptions_count = 2, header_desc = \<lparr>dsize = 8, align = 8, dcount = 1\<rparr>\<rparr>"

lemma pools_layout_ok: "layout_ok pools_layout"
  by (simp add: layout_ok_def pools_layout_def layout_descs_def jfs_mlg_valid_desc_def jfs_mlg_valid_align_def
      append_end_def append_off_def align_up_def extent_def ALIGNOF_COMPONENT_def)

lemma pools_layout_run:
  "\<exists>mem cs. jfs_mlg_memory_init (\<lambda>_. 4096) example_memalign pools_layout {} JCL_OK = Ret ((65536, Some (mem, cs)), {65536}, JCL_OK)"
  by (rule example_block) code_simp

theorem pools_share_block_witness:
  "\<exists>mem cs m fls p fl' q fl''. jfs_mlg_memory_init (\<lambda>_. 4096) example_memalign pools_layout {} JCL_OK = Ret ((65536, Some (mem, cs)), {65536}, JCL_OK)
     \<and> jfs_fl_alloc load_ptr m (fls ! 1) = (p, fl') \<and> pools_reach cs m (fls[1 := fl']) [{}, {p}]
     \<and> jfs_fl_alloc load_ptr m (fls ! 0) = (q, fl'') \<and> q \<in> set (comp_objs (cs ! 0)) \<and> (unat q + 8 \<le> unat p \<or> unat p + 24 \<le> unat q)"
proof -
  obtain mem cs where ran: "jfs_mlg_memory_init (\<lambda>_. 4096) example_memalign pools_layout {} JCL_OK = Ret ((65536, Some (mem, cs)), {65536}, JCL_OK)"
    using pools_layout_run by blast
  have mal: "(4096 :: addr) \<notin> {}" by simp
  have big: "\<forall>d\<in>set (descriptions pools_layout). 8 \<le> unat (dsize d)" by (simp add: pools_layout_def)
  have ds: "map desc cs = descriptions pools_layout"
    using memory_init_components(1)[where malloc = "\<lambda>_. 4096", OF pools_layout_ok example_memalign_contract mal example_fresh ran] .
  have len: "length cs = 2" using arg_cong[OF ds, of length] by (simp add: pools_layout_def)
  have d: "desc (cs ! 0) = \<lparr>dsize = 8, align = 8, dcount = 4\<rparr>" "desc (cs ! 1) = \<lparr>dsize = 24, align = 64, dcount = 5\<rparr>"
    using arg_cong[OF ds, of "\<lambda>xs. xs ! 0"] arg_cong[OF ds, of "\<lambda>xs. xs ! 1"] len by (simp_all add: pools_layout_def)
  have ne: "set (comp_objs (cs ! 0)) \<noteq> {}" "set (comp_objs (cs ! 1)) \<noteq> {}" using d by (simp_all add: comp_objs_def)
  note safe = pools_share_block[where malloc = "\<lambda>_. 4096", OF pools_layout_ok example_memalign_contract mal example_fresh ran big]
  obtain m fls where "fls_init (\<lambda>_. 0) cs = (m, fls)" by fastforce
  hence reach: "pools_reach cs m fls [{}, {}]" using pools_init[of "\<lambda>_. 0" cs] len by (simp add: numeral_2_eq_2)
  obtain p fl' where al: "jfs_fl_alloc load_ptr m (fls ! 1) = (p, fl')" by fastforce
  have "p \<noteq> NULL" using safe[OF reach _ al] len ne by auto
  from pools_alloc[OF reach _ al this] have reach1: "pools_reach cs m (fls[1 := fl']) [{}, {p}]" using len by simp
  obtain q fl'' where al1: "jfs_fl_alloc load_ptr m (fls ! 0) = (q, fl'')" by fastforce
  have sizes: "unat (dsize (desc (cs ! 0))) = 8" "unat (dsize (desc (cs ! 1))) = 24" using d by simp_all
  have al1': "jfs_fl_alloc load_ptr m (fls[1 := fl'] ! 0) = (q, fl'')" using al1 by simp
  note ans = safe[OF reach1 _ al1', unfolded len]
  have q: "q \<noteq> NULL" using ans ne(1) by auto
  hence "unat q + unat (dsize (desc (cs ! 0))) \<le> unat p \<or> unat p + unat (dsize (desc (cs ! 1))) \<le> unat q"
    using ans by (metis (no_types, lifting) One_nat_def insertI1 lessI nth_Cons_0 nth_Cons_Suc numeral_2_eq_2 zero_less_Suc)
  hence "q \<in> set (comp_objs (cs ! 0)) \<and> (unat q + 8 \<le> unat p \<or> unat p + 24 \<le> unat q)"
    using ans q unfolding sizes by auto
  thus ?thesis using ran al reach1 al1 by blast
qed

section \<open>Caches\<close>

text \<open>Accesses to several caches over the same memory; each one names the cache, the key and the context.\<close>

fun caches_run ::
  "mem \<Rightarrow> ('k, 'u, 'e) jfs_lru list \<Rightarrow> (nat \<times> 'k \<times> 'u) list \<Rightarrow> (mem \<times> ('k, 'u, 'e) jfs_lru list) run" where
  "caches_run m ls [] = Ret (m, ls)"
| "caches_run m ls ((i, key, u) # rest) =
     run_bind (jfs_lru_access m (ls ! i) key u) (\<lambda>(m, l, _). caches_run m (ls[i := l]) rest)"

text \<open>The keys that were asked of the cache \<open>i\<close>, in order.\<close>

definition keys_at :: "nat \<Rightarrow> (nat \<times> 'k \<times> 'u) list \<Rightarrow> 'k list" where
  "keys_at i accs = map (fst \<circ> snd) (filter (\<lambda>a. fst a = i) accs)"

lemma keys_at_simps [simp]:
  "keys_at i [] = []" "keys_at i ((j, k, u) # accs) = (if j = i then k # keys_at i accs else keys_at i accs)"
  by (simp_all add: keys_at_def)

text \<open>The caches are well-formed, on disjoint blocks, and each holds the keys that its history asks for.\<close>

definition caches_inv ::
  "(nat \<Rightarrow> byte list \<Rightarrow> 'k) \<Rightarrow> ('u \<Rightarrow> 'k) \<Rightarrow> mem \<Rightarrow> ('k, 'u, 'e) jfs_lru list \<Rightarrow> (nat \<Rightarrow> 'k list) \<Rightarrow> bool" where
  "caches_inv key_of key_of_ctx m ls hist \<longleftrightarrow>
     (\<forall>i<length ls. lru_wf (ls ! i) \<and> keyed (unat (obj_size (mb (ls ! i)))) (key_of i) key_of_ctx (fn (ls ! i))
        \<and> map (key_of i) (cached m (ls ! i)) = take (unat (capacity (mb (ls ! i)))) (recency (hist i)))
     \<and> (\<forall>i<length ls. \<forall>j<length ls. i \<noteq> j \<longrightarrow> block_bytes (mb (ls ! i)) \<inter> block_bytes (mb (ls ! j)) = {})"

lemma caches_step:
  assumes inv: "caches_inv key_of key_of_ctx m ls hist" and i: "i < length ls" and u: "key_of_ctx u = k"
  shows "\<exists>m' l u'. jfs_lru_access m (ls ! i) k u = Ret (m', l, u') \<and> mb l = mb (ls ! i)
    \<and> caches_inv key_of key_of_ctx m' (ls[i := l]) (hist(i := hist i @ [k]))"
proof -
  have li: "lru_wf (ls ! i)" "keyed (unat (obj_size (mb (ls ! i)))) (key_of i) key_of_ctx (fn (ls ! i))"
    "map (key_of i) (cached m (ls ! i)) = take (unat (capacity (mb (ls ! i)))) (recency (hist i))"
    using inv i by (auto simp: caches_inv_def)
  obtain m' l u' where acc: "jfs_lru_access m (ls ! i) k u = Ret (m', l, u')" "lru_wf l" "mb l = mb (ls ! i)" "fn l = fn (ls ! i)"
    and only: "only_block (mb (ls ! i)) m m'"
    and keys: "map (key_of i) (cached m' l) = take (unat (capacity (mb (ls ! i)))) (recency (hist i @ [k]))"
    using access_keys[OF li(1,2) u li(3)] by blast
  have "cached m' (ls ! j) = cached m (ls ! j)" if "j < length ls" "j \<noteq> i" for j
  proof -
    have "mb_wf (mb (ls ! j))" "block_bytes (mb (ls ! i)) \<inter> block_bytes (mb (ls ! j)) = {}"
      using inv i that by (auto simp: caches_inv_def lru_wf_def)
    thus ?thesis unfolding cached_def using slots_frame only by metis
  qed
  hence "caches_inv key_of key_of_ctx m' (ls[i := l]) (hist(i := hist i @ [k]))"
    using inv acc(2-4) keys li(2) i unfolding caches_inv_def by (auto simp: nth_list_update)
  thus ?thesis using acc(1,3) by blast
qed

lemma caches_run_inv:
  assumes "caches_inv key_of key_of_ctx m ls hist" "\<forall>(i, k, u)\<in>set accs. i < length ls \<and> key_of_ctx u = k"
  shows "\<exists>m' ls'. caches_run m ls accs = Ret (m', ls') \<and> map mb ls' = map mb ls
    \<and> caches_inv key_of key_of_ctx m' ls' (\<lambda>i. hist i @ keys_at i accs)"
  using assms
proof (induction accs arbitrary: m ls hist)
  case (Cons a accs)
  obtain i k u where a: "a = (i, k, u)" by (metis prod.collapse)
  hence i: "i < length ls" "key_of_ctx u = k" using Cons.prems(2) by auto
  obtain m1 l u1 where st: "jfs_lru_access m (ls ! i) k u = Ret (m1, l, u1)" "mb l = mb (ls ! i)"
    "caches_inv key_of key_of_ctx m1 (ls[i := l]) (hist(i := hist i @ [k]))"
    using caches_step[OF Cons.prems(1) i] by blast
  have "\<forall>(i', k, u)\<in>set accs. i' < length (ls[i := l]) \<and> key_of_ctx u = k" using Cons.prems(2) by auto
  from Cons.IH[OF st(3) this] obtain m' ls' where run: "caches_run m1 (ls[i := l]) accs = Ret (m', ls')"
    "map mb ls' = map mb (ls[i := l])"
    "caches_inv key_of key_of_ctx m' ls' (\<lambda>j. (hist(i := hist i @ [k])) j @ keys_at j accs)" by blast
  have "(\<lambda>j. (hist(i := hist i @ [k])) j @ keys_at j accs) = (\<lambda>j. hist j @ keys_at j (a # accs))"
    by (auto simp: a)
  moreover have "map mb (ls[i := l]) = map mb ls" using st(2) i(1) by (simp add: map_update list_update_same_conv)
  ultimately show ?case using run st(1) a by simp
qed simp

text \<open>The bytes of a cache lie inside its component.\<close>

definition comp_mb :: "jfs_mlg_component \<Rightarrow> jfs_mb" where
  "comp_mb c = \<lparr>base_ptr = ptr c, obj_size = dsize (desc c), capacity = dcount (desc c)\<rparr>"

lemma comp_mb_bytes:
  assumes "unat (ptr c) + extent (desc c) \<le> 2 ^ 64" "a \<in> block_bytes (comp_mb c)"
  shows "unat (ptr c) \<le> unat a \<and> unat a < unat (ptr c) + extent (desc c)"
proof -
  have lt: "unat (a - ptr c) < extent (desc c)" using assms(2) by (simp add: block_bytes_def comp_mb_def extent_def)
  hence "unat (ptr c + (a - ptr c)) = unat (ptr c) + unat (a - ptr c)" using assms(1) by (intro unat_offset) linarith
  thus ?thesis using lt by simp
qed

lemma comp_mb_disjoint:
  assumes ok: "comps_ok cs" and ij: "i < length cs" "j < length cs" "i \<noteq> j"
  shows "block_bytes (comp_mb (cs ! i)) \<inter> block_bytes (comp_mb (cs ! j)) = {}"
proof -
  have ord: "unat (ptr (cs ! i)) + extent (desc (cs ! i)) \<le> unat (ptr (cs ! j))" if "i < j" "j < length cs" for i j
    using ok that by (auto simp: comps_ok_def sorted_wrt_iff_nth_less)
  have in_comp: "unat (ptr (cs ! k)) \<le> unat a \<and> unat a < unat (ptr (cs ! k)) + extent (desc (cs ! k))"
    if "k < length cs" "a \<in> block_bytes (comp_mb (cs ! k))" for k a
    using comp_mb_bytes[OF comps_ok_nth(2)[OF ok that(1)] that(2)] .
  have False if "a \<in> block_bytes (comp_mb (cs ! i))" "a \<in> block_bytes (comp_mb (cs ! j))" for a
    using in_comp[OF ij(1) that(1)] in_comp[OF ij(2) that(2)] ord[of i j] ord[of j i] ij by linarith
  thus ?thesis by blast
qed

lemma caches_init_inv:
  assumes ok: "comps_ok cs" and len: "length confs = length cs"
    and conf: "\<forall>i<length cs. conf_component (confs ! i) = cs ! i \<and> fn_ok (unat (dsize (desc (cs ! i)))) (conf_fn (confs ! i))
      \<and> keyed (unat (dsize (desc (cs ! i)))) (key_of i) key_of_ctx (conf_fn (confs ! i))"
  shows "\<exists>ls. length ls = length cs \<and> (\<forall>i<length cs. jfs_lru_init blank (confs ! i) JCL_OK = (ls ! i, JCL_OK))
    \<and> map mb ls = map comp_mb cs \<and> caches_inv key_of key_of_ctx m ls (\<lambda>_. [])"
proof -
  let ?l = "\<lambda>i. fst (jfs_lru_init blank (confs ! i) JCL_OK)"
  have one: "jfs_lru_init blank (confs ! i) JCL_OK = (?l i, JCL_OK) \<and> lru_wf (?l i) \<and> lru_count (?l i) = 0
      \<and> fn (?l i) = conf_fn (confs ! i) \<and> mb (?l i) = comp_mb (cs ! i)" if i: "i < length cs" for i
  proof -
    have c: "conf_component (confs ! i) = cs ! i" "fn_ok (unat (dsize (desc (cs ! i)))) (conf_fn (confs ! i))" using conf i by auto
    note v = comps_ok_nth[OF ok i]
    have "extent (desc (cs ! i)) \<le> 2 ^ 64" using v(2) by linarith
    from lru_init_ok[of "confs ! i" blank, unfolded c(1), OF v(1) this c(2)] show ?thesis by (auto simp: comp_mb_def)
  qed
  let ?ls = "map ?l [0..<length cs]"
  have "map mb ?ls = map comp_mb cs" using one by (intro nth_equalityI) auto
  moreover have "caches_inv key_of key_of_ctx m ?ls (\<lambda>_. [])"
    using one conf comp_mb_disjoint[OF ok] by (simp add: caches_inv_def cached_def recency_def comp_mb_def)
  ultimately show ?thesis using one by (intro exI[of _ ?ls]) simp
qed

text \<open>
  C10. Caches on the components of one block do not disturb each other.  Each of them can be initialised on
  its component, and after any sequence of accesses, interleaved between the caches in any way, every call
  has returned and each cache holds the most recently used of its own keys, as many as its component has
  objects.
\<close>

theorem caches_share_block:
  assumes "layout_ok lay" "memalign_contract pm" "malloc (SIZEOF_UINTPTR * descriptions_count lay) \<noteq> NULL"
    and "malloc (SIZEOF_UINTPTR * descriptions_count lay) \<notin> live" "\<forall>a s. snd (pm a s) \<noteq> malloc (SIZEOF_UINTPTR * descriptions_count lay)"
    and "jfs_mlg_memory_init malloc pm lay live JCL_OK = Ret ((b, Some (mem, cs)), live', err)"
    and len: "length confs = length cs"
    and conf: "\<forall>i<length cs. conf_component (confs ! i) = cs ! i \<and> fn_ok (unat (dsize (desc (cs ! i)))) (conf_fn (confs ! i))
      \<and> keyed (unat (dsize (desc (cs ! i)))) (key_of i) key_of_ctx (conf_fn (confs ! i))"
    and accs: "\<forall>(i, k, u)\<in>set accs. i < length cs \<and> key_of_ctx u = k"
  shows "\<exists>ls m' ls'. length ls = length cs \<and> (\<forall>i<length cs. jfs_lru_init blank (confs ! i) JCL_OK = (ls ! i, JCL_OK))
    \<and> caches_run m ls accs = Ret (m', ls')
    \<and> (\<forall>i<length cs. map (key_of i) (cached m' (ls' ! i)) = take (unat (dcount (desc (cs ! i)))) (recency (keys_at i accs)))"
proof -
  have ok: "comps_ok cs" using memory_init_comps_ok[where malloc = malloc and live = live, OF assms(1,2,4-6)] .
  obtain ls where ls: "length ls = length cs" "\<forall>i<length cs. jfs_lru_init blank (confs ! i) JCL_OK = (ls ! i, JCL_OK)"
    "map mb ls = map comp_mb cs" "caches_inv key_of key_of_ctx m ls (\<lambda>_. [])"
    using caches_init_inv[OF ok len conf] by blast
  obtain m' ls' where run: "caches_run m ls accs = Ret (m', ls')" "map mb ls' = map mb ls"
    "caches_inv key_of key_of_ctx m' ls' (\<lambda>i. keys_at i accs)"
    using caches_run_inv[OF ls(4), of accs, unfolded ls(1), OF accs] by auto
  have mbs: "length ls' = length cs" "mb (ls' ! i) = comp_mb (cs ! i)" if "i < length cs" for i
    using run(2) ls(3) that by (metis length_map, metis length_map nth_map)
  have "map (key_of i) (cached m' (ls' ! i)) = take (unat (dcount (desc (cs ! i)))) (recency (keys_at i accs))"
    if "i < length cs" for i
    using run(3) mbs[OF that] that by (simp add: caches_inv_def comp_mb_def)
  thus ?thesis using ls(1,2) run(1) by blast
qed

text \<open>Two caches of one-byte objects for the witness.\<close>

definition twin_layout :: jfs_mlg_layout where
  "twin_layout = \<lparr>descriptions = [\<lparr>dsize = 1, align = 1, dcount = 2\<rparr>, \<lparr>dsize = 1, align = 1, dcount = 3\<rparr>],
     descriptions_count = 2, header_desc = \<lparr>dsize = 8, align = 8, dcount = 1\<rparr>\<rparr>"

lemma twin_layout_ok: "layout_ok twin_layout"
  by (simp add: layout_ok_def twin_layout_def layout_descs_def jfs_mlg_valid_desc_def jfs_mlg_valid_align_def
      append_end_def append_off_def align_up_def extent_def ALIGNOF_COMPONENT_def)

lemma twin_run:
  "\<exists>mem cs. jfs_mlg_memory_init (\<lambda>_. 4096) example_memalign twin_layout {} JCL_OK = Ret ((65536, Some (mem, cs)), {65536}, JCL_OK)"
  by (rule example_block) code_simp

theorem caches_share_block_witness:
  "\<exists>mem cs (ls :: (byte, byte, byte list list) jfs_lru list) m' ls'. jfs_mlg_memory_init (\<lambda>_. 4096) example_memalign twin_layout {} JCL_OK = Ret ((65536, Some (mem, cs)), {65536}, JCL_OK)
     \<and> caches_run (\<lambda>_. 0) ls [(0, 1, 1), (1, 7, 7), (0, 2, 2), (1, 8, 8), (0, 3, 3), (1, 7, 7)] = Ret (m', ls')
     \<and> map hd (cached m' (ls' ! 0)) = [3, 2] \<and> map hd (cached m' (ls' ! 1)) = [7, 8]"
proof -
  obtain mem cs where ran: "jfs_mlg_memory_init (\<lambda>_. 4096) example_memalign twin_layout {} JCL_OK = Ret ((65536, Some (mem, cs)), {65536}, JCL_OK)"
    using twin_run by blast
  have mal: "(4096 :: addr) \<noteq> NULL" "(4096 :: addr) \<notin> {}" by simp_all
  have ds: "map desc cs = descriptions twin_layout"
    using memory_init_components(1)[where malloc = "\<lambda>_. 4096", OF twin_layout_ok example_memalign_contract mal(2) example_fresh ran] .
  have len: "length cs = 2" using arg_cong[OF ds, of length] by (simp add: twin_layout_def)
  have d: "desc (cs ! 0) = \<lparr>dsize = 1, align = 1, dcount = 2\<rparr>" "desc (cs ! 1) = \<lparr>dsize = 1, align = 1, dcount = 3\<rparr>"
    using arg_cong[OF ds, of "\<lambda>xs. xs ! 0"] arg_cong[OF ds, of "\<lambda>xs. xs ! 1"] len by (simp_all add: twin_layout_def)
  let ?confs = "map (\<lambda>c. \<lparr>conf_component = c, conf_fn = demo_fn, conf_evict_ctx = []\<rparr>) cs"
  let ?accs = "[(0, 1, 1), (1, 7, 7), (0, 2, 2), (1, 8, 8), (0, 3, 3), (1, 7, 7)] :: (nat \<times> byte \<times> byte) list"
  have conf: "\<forall>i<length cs. conf_component (?confs ! i) = cs ! i \<and> fn_ok (unat (dsize (desc (cs ! i)))) (conf_fn (?confs ! i))
      \<and> keyed (unat (dsize (desc (cs ! i)))) hd (\<lambda>u. u) (conf_fn (?confs ! i))"
    using d len demo_fn_ok demo_keyed by (auto simp: less_2_cases_iff)
  have accs: "\<forall>(i, k, u)\<in>set ?accs. i < length cs \<and> u = k" using len by simp
  obtain ls :: "(byte, byte, byte list list) jfs_lru list" and m' ls' where r: "caches_run (\<lambda>_. 0) ls ?accs = Ret (m', ls')"
    "\<forall>i<length cs. map hd (cached m' (ls' ! i)) = take (unat (dcount (desc (cs ! i)))) (recency (keys_at i ?accs))"
    using caches_share_block[where malloc = "\<lambda>_. 4096" and key_of = "\<lambda>_. hd" and m = "\<lambda>_. 0" and accs = ?accs and blank = demo_lru,
        OF twin_layout_ok example_memalign_contract mal example_fresh ran length_map conf accs] by blast
  have "map hd (cached m' (ls' ! 0)) = [3, 2]" "map hd (cached m' (ls' ! 1)) = [7, 8]"
    using r(2)[rule_format, of 0] r(2)[rule_format, of 1] d len by (simp_all add: recency_def)
  thus ?thesis using ran r(1)
    by (intro exI[of _ mem] exI[of _ cs] exI[of _ ls] exI[of _ m'] exI[of _ ls'] conjI)
qed

section \<open>A search tree\<close>

lemma make_desc_ok:
  assumes "jfs_bst_make_desc s a n JCL_OK = Ret (d, JCL_OK)"
  shows "\<exists>r. dcount d = 1 \<and> jfs_mlg_valid_align a \<and> align d = max 8 a \<and> dsize d = r + s * n \<and> s \<noteq> 0 \<and> n \<noteq> 0
    \<and> jfs_mlg_align_size SIZEOF_BST_NODE (align d) = Ret r \<and> unat r = align_up (unat a) (unat SIZEOF_BST_NODE)"
proof -
  have v: "jfs_mlg_valid_desc \<lparr>dsize = s, align = a, dcount = n\<rparr>"
    using assms by (auto simp: jfs_bst_make_desc_def Let_def assert_c_def split: if_splits)
  have va: "jfs_mlg_valid_align a" "s \<noteq> 0" "n \<noteq> 0" using v by (auto simp: jfs_mlg_valid_desc_def)
  show ?thesis using make_desc_eq[OF v, of JCL_OK] va assms by auto
qed

lemma valid_align_8: "jfs_mlg_valid_align 8"
  by (simp add: jfs_mlg_valid_align_def)

text \<open>
  C28. A tree whose memory is described by \<open>jfs_bst_make_desc\<close> for \<open>n\<close> objects of \<open>s\<close> bytes and laid out by
  \<open>jfs_mlg_memory_init\<close> is no container for \<open>n\<close> objects.  \<open>jfs_bst_init\<close> succeeds, and \<open>value_size\<close> is the size of
  all \<open>n\<close> objects.  For \<open>n = 1\<close> the tree takes one value and refuses every further put with \<open>JCL_ERR_FULL\<close>.  For
  \<open>n > 1\<close> the first put already copies \<open>s * n\<close> bytes from a value of \<open>s\<close> bytes and reads behind its end.
\<close>

theorem bst_made_holds_one:
  assumes "layout_ok lay" "memalign_contract pm"
    and "malloc (SIZEOF_UINTPTR * descriptions_count lay) \<notin> live" "\<forall>a s. snd (pm a s) \<noteq> malloc (SIZEOF_UINTPTR * descriptions_count lay)"
    and "jfs_mlg_memory_init malloc pm lay live JCL_OK = Ret ((b, Some (mem, cs)), live', err)"
    and mk: "jfs_bst_make_desc s a n JCL_OK = Ret (d, JCL_OK)" and i: "i < length cs" "descriptions lay ! i = d"
    and small: "align_up (unat a) (unat SIZEOF_BST_NODE) + unat s * unat n < 2 ^ 64" and obj: "obj_bytes start = unat s"
    and conf: "bst_component conf = cs ! i" "conf_cmp conf = Some order" "three_way order key_of"
    and nl: "node_addr nl" "nl \<noteq> ptr (cs ! i)"
  shows "\<exists>t. jfs_bst_init nl start conf JCL_OK = Ret (t, JCL_OK) \<and> unat (value_size t) = unat s * unat n
    \<and> (if n = 1 then \<exists>t1. jfs_bst_puts attach 1 t v (key_of v) JCL_OK = Ret (t1, JCL_OK)
          \<and> (\<forall>w k fuel. jfs_bst_puts attach fuel t1 w k JCL_OK = Ret (t1, JCL_ERR_FULL))
       else \<forall>w k fuel. jfs_bst_puts attach fuel t w k JCL_OK = Fault)"
proof -
  note comps = memory_init_components[where malloc = malloc and live = live, OF assms(1-5)]
  have d: "desc (cs ! i) = d" using i comps(1) by (metis nth_map)
  have v: "jfs_mlg_valid_component (cs ! i)" "unat (ptr (cs ! i)) + extent (desc (cs ! i)) \<le> 2 ^ 64"
    and al: "unat (align d) dvd unat (ptr (cs ! i))" using comps(3)[of "cs ! i"] i(1) d by auto
  obtain r where mk': "dcount d = 1" "jfs_mlg_valid_align a" "align d = max 8 a" "dsize d = r + s * n" "s \<noteq> 0" "n \<noteq> 0"
    "jfs_mlg_align_size SIZEOF_BST_NODE (align d) = Ret r" "unat r = align_up (unat a) (unat SIZEOF_BST_NODE)"
    using make_desc_ok[OF mk] by blast
  have objs: "comp_objs (cs ! i) = [ptr (cs ! i)]" using mk'(1) d by (simp add: comp_objs_def)
  have "unat (8 :: size_t) dvd unat (max 8 a)"
    using mk'(2) valid_align_8 by (intro valid_align_dvd) (auto simp: max_def)
  hence "8 dvd unat (ptr (cs ! i))" using al mk'(3) by (auto intro: dvd_trans)
  hence na: "node_addr (ptr (cs ! i))"
    using v(1) dvd8_even by (simp add: node_addr_def even_and_one jfs_mlg_valid_component_def)
  have r0: "r > 0" using mk'(8) align_up_pos[of "unat a" 32] valid_align_pos[OF mk'(2)] by (simp add: SIZEOF_BST_NODE_def word_less_nat_alt)
  obtain t where t: "jfs_bst_init nl start conf JCL_OK = Ret (t, JCL_OK)" "copy_fits t \<longrightarrow> bst_inv key_of t Tip [ptr (cs ! i)]"
    "fl_rep (parent_color t) (free_list t) [ptr (cs ! i)]" "value_size t = dsize d - r" "value_offset t = r" "obj_bytes t = unat s"
    using init_run[of conf nl order key_of r start] v na nl conf objs mk'(7) r0 d obj by auto
  have "unat (s * n) = unat s * unat n" using small unat_mult_lem[of s n] by simp
  hence vs: "unat (value_size t) = unat s * unat n" using t(4) mk'(4) by simp
  show ?thesis
  proof (cases "n = 1")
    case True
    hence "bst_inv key_of t Tip [ptr (cs ! i)]" using t(2,6) vs by (simp add: copy_fits_def)
    from puts_new[OF this, of v 1 attach JCL_OK] obtain t1 T1 where
      p: "jfs_bst_puts attach 1 t v (key_of v) JCL_OK = Ret (t1, JCL_OK)" "bst_inv key_of t1 T1 []" by auto
    show ?thesis using t(1) vs p(1) puts_full[OF p(2)] True by auto
  next
    case False
    hence "1 < unat n" using mk'(6) by (metis less_one linorder_neqE_nat unat_1 unat_0 word_unat_eq_iff)
    hence "\<not> copy_fits t" using vs t(6) mk'(5) by (simp add: copy_fits_def unat_gt_0)
    moreover obtain fl where "jfs_fl_alloc cell_load (parent_color t) (free_list t) = (ptr (cs ! i), fl)" using alloc_rep[OF t(3)] by blast
    moreover have "fl_count (free_list t) \<noteq> 0" using t(3) by (auto simp: fl_rep_def)
    ultimately have "jfs_bst_puts attach fuel t w k JCL_OK = Fault" for w k fuel
      using t(5) r0 by (simp add: jfs_bst_puts_def bst_pack_node_def container_value_off)
    thus ?thesis using t(1) vs False by auto
  qed
qed

definition tree_layout :: jfs_mlg_layout where
  "tree_layout = \<lparr>descriptions = [\<lparr>dsize = 40, align = 8, dcount = 1\<rparr>, \<lparr>dsize = 832, align = 8, dcount = 1\<rparr>],
     descriptions_count = 2, header_desc = \<lparr>dsize = 8, align = 8, dcount = 1\<rparr>\<rparr>"

lemma tree_layout_ok: "layout_ok tree_layout"
  by (simp add: layout_ok_def tree_layout_def layout_descs_def jfs_mlg_valid_desc_def jfs_mlg_valid_align_def
      append_end_def append_off_def align_up_def extent_def ALIGNOF_COMPONENT_def)

lemma tree_run:
  "\<exists>mem cs. jfs_mlg_memory_init (\<lambda>_. 4096) example_memalign tree_layout {} JCL_OK = Ret ((65536, Some (mem, cs)), {65536}, JCL_OK)"
  by (rule example_block) code_simp

theorem bst_made_holds_one_witness:
  "\<exists>mem c t t1. jfs_bst_make_desc 8 8 1 JCL_OK = Ret (descriptions tree_layout ! 0, JCL_OK)
     \<and> jfs_bst_make_desc 8 8 100 JCL_OK = Ret (descriptions tree_layout ! 1, JCL_OK)
     \<and> jfs_mlg_memory_init (\<lambda>_. 4096) example_memalign tree_layout {} JCL_OK = Ret ((65536, Some (mem, c)), {65536}, JCL_OK)
     \<and> jfs_bst_init 64 (blank_tree\<lparr>obj_bytes := 8\<rparr>) \<lparr>bst_component = c ! 0, conf_cmp = conf_cmp bst_demo_conf\<rparr> JCL_OK = Ret (t, JCL_OK)
     \<and> jfs_bst_puts attach_nodes 1 t 5 5 JCL_OK = Ret (t1, JCL_OK) \<and> jfs_bst_puts attach_nodes 9 t1 6 6 JCL_OK = Ret (t1, JCL_ERR_FULL)
     \<and> run_bind (jfs_bst_init 64 (blank_tree\<lparr>obj_bytes := 8\<rparr>) \<lparr>bst_component = c ! 1, conf_cmp = conf_cmp bst_demo_conf\<rparr> JCL_OK)
         (\<lambda>(t, _). jfs_bst_puts attach_nodes 9 t 5 5 JCL_OK) = Fault"
proof -
  let ?start = "blank_tree\<lparr>obj_bytes := 8\<rparr>"
  obtain mem cs where ran: "jfs_mlg_memory_init (\<lambda>_. 4096) example_memalign tree_layout {} JCL_OK = Ret ((65536, Some (mem, cs)), {65536}, JCL_OK)"
    using tree_run by blast
  have mal: "(4096 :: addr) \<notin> {}" by simp
  note comps = memory_init_components[where malloc = "\<lambda>_. 4096", OF tree_layout_ok example_memalign_contract mal example_fresh ran]
  have len: "length cs = 2" using arg_cong[OF comps(1), of length] by (simp add: tree_layout_def)
  have mk: "jfs_bst_make_desc 8 8 1 JCL_OK = Ret (descriptions tree_layout ! 0, JCL_OK)"
    "jfs_bst_make_desc 8 8 100 JCL_OK = Ret (descriptions tree_layout ! 1, JCL_OK)" by code_simp+
  have nl: "node_addr 64" "64 \<noteq> ptr (cs ! 0)" "64 \<noteq> ptr (cs ! 1)"
    using comps(4)[of "cs ! 0"] comps(4)[of "cs ! 1"] len by (auto simp: node_addr_def)
  let ?conf = "\<lambda>i. \<lparr>bst_component = cs ! i, conf_cmp = conf_cmp bst_demo_conf\<rparr>"
  have conf: "bst_component (?conf i) = cs ! i" "conf_cmp (?conf i) = Some (\<lambda>k v. sgn (k - v))" for i by (simp_all add: bst_demo_conf_ok)
  have i: "0 < length cs" "1 < length cs" using len by simp_all
  have small: "align_up (unat (8 :: size_t)) (unat SIZEOF_BST_NODE) + unat (8 :: size_t) * unat (1 :: size_t) < 2 ^ 64"
    "align_up (unat (8 :: size_t)) (unat SIZEOF_BST_NODE) + unat (8 :: size_t) * unat (100 :: size_t) < 2 ^ 64"
    "obj_bytes ?start = unat (8 :: size_t)" by (simp_all add: align_up_def SIZEOF_BST_NODE_def)
  note made = bst_made_holds_one[where malloc = "\<lambda>_. 4096" and attach = attach_nodes and v = 5 and start = ?start,
        OF tree_layout_ok example_memalign_contract mal example_fresh ran]
  from made[OF mk(1) i(1) refl small(1,3) conf demo_three_way nl(1,2)] obtain t t1 where one: "jfs_bst_init 64 ?start (?conf 0) JCL_OK = Ret (t, JCL_OK)"
    "jfs_bst_puts attach_nodes 1 t 5 5 JCL_OK = Ret (t1, JCL_OK)" "jfs_bst_puts attach_nodes 9 t1 6 6 JCL_OK = Ret (t1, JCL_ERR_FULL)" by auto
  from made[OF mk(2) i(2) refl small(2,3) conf demo_three_way nl(1,3)] obtain t2 where "jfs_bst_init 64 ?start (?conf 1) JCL_OK = Ret (t2, JCL_OK)"
    "jfs_bst_puts attach_nodes 9 t2 5 5 JCL_OK = Fault" by auto
  thus ?thesis using ran mk one by (intro exI[of _ mem] exI[of _ cs] exI[of _ t] exI[of _ t1]) simp
qed

end
