(* ===== verification/Bst_Del_Tree.thy ===== *)
theory Bst_Del_Tree
  imports Bst_Tree
begin

text \<open>
  The mathematical side of a deletion from the red-black tree: the loop of \<open>bst_fixup_delete\<close> as a
  function on a subtree that is one black node short and its context, and the removal of a node with
  \<open>del_node\<close>.  The result of a deletion is a red-black tree with the same nodes in the same order but for
  the one that was removed.  Nothing here mentions memory.
\<close>

section \<open>Rebalancing after a deletion\<close>

text \<open>
  The last case of a round, which ends the loop: the sibling \<open>s\<close> of the short subtree \<open>T\<close> is black and has
  a red child; \<open>p\<close> is the parent and \<open>c\<close> its colour.
\<close>

definition fin_left :: "color \<Rightarrow> addr \<Rightarrow> ntree \<Rightarrow> ntree \<Rightarrow> ntree" where
  "fin_left c p T s =
     (case s of Tip \<Rightarrow> Tip
      | Nd l d q r \<Rightarrow>
        if col r = Black then (case l of Tip \<Rightarrow> Tip | Nd a e n b \<Rightarrow> Nd (Nd T Black p a) c n (Nd b Black q r))
        else Nd (Nd T Black p l) c q (paint Black r))"

definition fin_right :: "color \<Rightarrow> addr \<Rightarrow> ntree \<Rightarrow> ntree \<Rightarrow> ntree" where
  "fin_right c p T s =
     (case s of Tip \<Rightarrow> Tip
      | Nd l d q r \<Rightarrow>
        if col l = Black then (case r of Tip \<Rightarrow> Tip | Nd a e n b \<Rightarrow> Nd (Nd l Black q a) c n (Nd b Black p T))
        else Nd (paint Black l) c q (Nd r Black p T))"

definition black_kids :: "ntree \<Rightarrow> bool" where
  "black_kids s \<longleftrightarrow> (case s of Tip \<Rightarrow> True | Nd l c a r \<Rightarrow> col l = Black \<and> col r = Black)"

fun fix_del :: "frame list \<Rightarrow> ntree \<Rightarrow> ntree" where
  "fix_del [] T = paint Black T"
| "fix_del (LF c p s # k) T =
     (if col T = Red then plug (LF c p s # k) (paint Black T)
      else case s of Tip \<Rightarrow> Tip
      | Nd a d q b \<Rightarrow>
        if d = Red then
          (if black_kids a then plug (LF Black q b # k) (Nd T Black p (paint Red a))
           else paint Black (plug (LF Black q b # k) (fin_left Red p T a)))
        else if black_kids s then fix_del k (Nd T c p (paint Red s))
        else paint Black (plug k (fin_left c p T s)))"
| "fix_del (RF s c p # k) T =
     (if col T = Red then plug (RF s c p # k) (paint Black T)
      else case s of Tip \<Rightarrow> Tip
      | Nd a d q b \<Rightarrow>
        if d = Red then
          (if black_kids b then plug (RF a Black q # k) (Nd (paint Red b) Black p T)
           else paint Black (plug (RF a Black q # k) (fin_right Red p T b)))
        else if black_kids s then fix_del k (Nd (paint Red s) c p T)
        else paint Black (plug k (fin_right c p T s)))"

text \<open>The sibling of a black subtree that is one black node short is a node, and so are its nephews if it is red.\<close>

fun has_sibling :: "frame list \<Rightarrow> bool" where
  "has_sibling [] \<longleftrightarrow> True"
| "has_sibling (LF c p s # k) \<longleftrightarrow> (case s of Tip \<Rightarrow> False | Nd a d q b \<Rightarrow> d = Red \<longrightarrow> a \<noteq> Tip) \<and> has_sibling k"
| "has_sibling (RF s c p # k) \<longleftrightarrow> (case s of Tip \<Rightarrow> False | Nd a d q b \<Rightarrow> d = Red \<longrightarrow> b \<noteq> Tip) \<and> has_sibling k"

lemma ctx_ok_has_sibling: "ctx_ok k (Suc b) \<Longrightarrow> has_sibling k"
proof (induction k "Suc b" arbitrary: b rule: ctx_ok.induct)
  case (2 c a r k)
  thus ?case by (cases r) (auto split: if_splits)
next
  case (3 l c a k)
  thus ?case by (cases l) (auto split: if_splits)
qed simp

lemma paint_Black_id: "col T = Black \<Longrightarrow> paint Black T = T"
  by (cases T) auto

lemma inorder_fin_left:
  "s \<noteq> Tip \<Longrightarrow> \<not> black_kids s \<Longrightarrow> inorder (fin_left c p T s) = inorder T @ p # inorder s"
  by (auto simp: fin_left_def black_kids_def split: ntree.splits)

lemma inorder_fin_right:
  "s \<noteq> Tip \<Longrightarrow> \<not> black_kids s \<Longrightarrow> inorder (fin_right c p T s) = inorder s @ p # inorder T"
  by (auto simp: fin_right_def black_kids_def split: ntree.splits)

lemma inorder_fix_del: "has_sibling k \<Longrightarrow> inorder (fix_del k T) = inorder (plug k T)"
  by (induction k T rule: fix_del.induct)
     (auto simp: inorder_plug inorder_fin_left inorder_fin_right split: ntree.splits)

lemma fin_left_rb:
  assumes "bh s = Suc (bh T)" "balanced s" "redok s" "col s = Black" "\<not> black_kids s" "balanced T" "redok T" "col T = Black"
  shows "redok (fin_left c p T s) \<and> balanced (fin_left c p T s) \<and> bh (fin_left c p T s) = Suc (bh T) + (if c = Black then 1 else 0)
    \<and> col (fin_left c p T s) = c"
  using assms
  by (auto simp: fin_left_def black_kids_def redok_paint_Black bh_paint_Black split: ntree.splits if_splits)

lemma fin_right_rb:
  assumes "bh s = Suc (bh T)" "balanced s" "redok s" "col s = Black" "\<not> black_kids s" "balanced T" "redok T" "col T = Black"
  shows "redok (fin_right c p T s) \<and> balanced (fin_right c p T s) \<and> bh (fin_right c p T s) = Suc (bh T) + (if c = Black then 1 else 0)
    \<and> col (fin_right c p T s) = c"
  using assms
  by (auto simp: fin_right_def black_kids_def redok_paint_Black bh_paint_Black split: ntree.splits if_splits)

lemma plug_rb_tree:
  assumes "ctx_ok k (bh T)" "redok T" "balanced T" "col T = Red \<Longrightarrow> k \<noteq> [] \<and> frame_col (hd k) = Black"
  shows "rb_tree (plug k T)"
  using plug_rb[of k "bh T" T] assms by (cases "k = []"; cases "col T") (auto simp: rb_tree_def ctx_takes_red_def)

lemma paint_rb_tree: "rb_tree T \<Longrightarrow> paint Black T = T"
  by (simp add: rb_tree_def paint_Black_id)

lemma ctx_ok_LF:
  "ctx_ok (LF c p s # k) b \<Longrightarrow> bh s = b \<and> balanced s \<and> redok s \<and> (c = Red \<longrightarrow> col s = Black \<and> k \<noteq> [] \<and> frame_col (hd k) = Black)
    \<and> ctx_ok k (b + (if c = Black then 1 else 0))"
  by simp

lemma ctx_ok_RF:
  "ctx_ok (RF s c p # k) b \<Longrightarrow> bh s = b \<and> balanced s \<and> redok s \<and> (c = Red \<longrightarrow> col s = Black \<and> k \<noteq> [] \<and> frame_col (hd k) = Black)
    \<and> ctx_ok k (b + (if c = Black then 1 else 0))"
  by simp

lemma paint_Red_rb: "black_kids s \<Longrightarrow> balanced s \<and> redok s \<and> col s = Black \<and> s \<noteq> Tip \<Longrightarrow> redok (paint Red s) \<and> balanced (paint Red s) \<and> Suc (bh (paint Red s)) = bh s"
  by (cases s) (auto simp: black_kids_def)

text \<open>
  One round of \<open>fix_del\<close>; the subtree that is one black node short may be red with red children, since it is
  then painted black.
\<close>

lemma fix_del_round_left:
  assumes ok: "ctx_ok (LF c p s # k) (Suc (bh T))" and root: "redok (paint Black T)" and bal: "balanced T"
    and IH: "\<And>U. ctx_ok k (Suc (bh U)) \<Longrightarrow> redok (paint Black U) \<Longrightarrow> balanced U \<Longrightarrow> rb_tree (fix_del k U)"
  shows "rb_tree (fix_del (LF c p s # k) T)"
proof (cases "col T = Red")
  case True
  have "rb_tree (plug (LF c p s # k) (paint Black T))"
    using ok root bal True by (intro plug_rb_tree) (simp_all only: bh_paint_Black balanced_paint col_paint_Black, simp_all)
  thus ?thesis using True by simp
next
  case False
  note s = ctx_ok_LF[OF ok]
  have T: "col T = Black" "redok T" using False root paint_Black_id[of T] by auto
  obtain a d q b where N: "s = Nd a d q b" using s by (cases s) auto
  consider (red) "d = Red" "black_kids a" | (red') "d = Red" "\<not> black_kids a" | (up) "d = Black" "black_kids s"
    | (fin) "d = Black" "\<not> black_kids s" by (cases d) auto
  thus ?thesis
  proof cases
    case red
    have "bh a = Suc (bh T)" "balanced a" "redok a" "col a = Black" "a \<noteq> Tip" using s N red by auto
    hence "rb_tree (plug (LF Black q b # k) (Nd T Black p (paint Red a)))"
      using s N red T paint_Red_rb[OF red(2)] bal by (intro plug_rb_tree) auto
    thus ?thesis using T N red by simp
  next
    case red'
    have "bh a = Suc (bh T)" "balanced a" "redok a" "col a = Black" using s N red' by auto
    note F = fin_left_rb[OF this red'(2) bal T(2,1), of Red p]
    have "rb_tree (plug (LF Black q b # k) (fin_left Red p T a))" using F s N red' by (intro plug_rb_tree) auto
    thus ?thesis using T N red' paint_rb_tree by simp
  next
    case up
    have "rb_tree (fix_del k (Nd T c p (paint Red s)))"
      using s N up T paint_Red_rb[OF up(2)] bal by (intro IH) (auto simp: redok_paint_Black)
    thus ?thesis using T N up by simp
  next
    case fin
    have "bh s = Suc (bh T)" "balanced s" "redok s" "col s = Black" using s N fin by auto
    note F = fin_left_rb[OF this fin(2) bal T(2,1), of c p]
    have "rb_tree (plug k (fin_left c p T s))" using F s by (intro plug_rb_tree) auto
    thus ?thesis using T N fin paint_rb_tree by simp
  qed
qed

lemma fix_del_round_right:
  assumes ok: "ctx_ok (RF s c p # k) (Suc (bh T))" and root: "redok (paint Black T)" and bal: "balanced T"
    and IH: "\<And>U. ctx_ok k (Suc (bh U)) \<Longrightarrow> redok (paint Black U) \<Longrightarrow> balanced U \<Longrightarrow> rb_tree (fix_del k U)"
  shows "rb_tree (fix_del (RF s c p # k) T)"
proof (cases "col T = Red")
  case True
  have "rb_tree (plug (RF s c p # k) (paint Black T))"
    using ok root bal True by (intro plug_rb_tree) (simp_all only: bh_paint_Black balanced_paint col_paint_Black, simp_all)
  thus ?thesis using True by simp
next
  case False
  note s = ctx_ok_RF[OF ok]
  have T: "col T = Black" "redok T" using False root paint_Black_id[of T] by auto
  obtain a d q b where N: "s = Nd a d q b" using s by (cases s) auto
  consider (red) "d = Red" "black_kids b" | (red') "d = Red" "\<not> black_kids b" | (up) "d = Black" "black_kids s"
    | (fin) "d = Black" "\<not> black_kids s" by (cases d) auto
  thus ?thesis
  proof cases
    case red
    have "bh b = Suc (bh T)" "balanced b" "redok b" "col b = Black" "b \<noteq> Tip" using s N red by auto
    hence "rb_tree (plug (RF a Black q # k) (Nd (paint Red b) Black p T))"
      using s N red T paint_Red_rb[OF red(2)] bal by (intro plug_rb_tree) auto
    thus ?thesis using T N red by simp
  next
    case red'
    have "bh b = Suc (bh T)" "balanced b" "redok b" "col b = Black" using s N red' by auto
    note F = fin_right_rb[OF this red'(2) bal T(2,1), of Red p]
    have "rb_tree (plug (RF a Black q # k) (fin_right Red p T b))" using F s N red' by (intro plug_rb_tree) auto
    thus ?thesis using T N red' paint_rb_tree by simp
  next
    case up
    have "rb_tree (fix_del k (Nd (paint Red s) c p T))"
      using s N up T paint_Red_rb[OF up(2)] bal by (intro IH) (auto simp: redok_paint_Black)
    thus ?thesis using T N up by simp
  next
    case fin
    have "bh s = Suc (bh T)" "balanced s" "redok s" "col s = Black" using s N fin by auto
    note F = fin_right_rb[OF this fin(2) bal T(2,1), of c p]
    have "rb_tree (plug k (fin_right c p T s))" using F s by (intro plug_rb_tree) auto
    thus ?thesis using T N fin paint_rb_tree by simp
  qed
qed

lemma fix_del_rb: "ctx_ok k (Suc (bh T)) \<Longrightarrow> redok (paint Black T) \<Longrightarrow> balanced T \<Longrightarrow> rb_tree (fix_del k T)"
proof (induction k arbitrary: T)
  case Nil
  thus ?case by (simp add: rb_tree_def)
next
  case (Cons f k)
  thus ?case by (cases f) (simp_all only: fix_del_round_left fix_del_round_right)
qed

section \<open>Removing a node\<close>

text \<open>The leftmost node of a tree: its subtree and its context, which \<open>k\<close> extends.\<close>

fun leftmost :: "ntree \<Rightarrow> frame list \<Rightarrow> frame list \<times> ntree" where
  "leftmost Tip k = (k, Tip)"
| "leftmost (Nd l c a r) k = (if l = Tip then (k, Nd l c a r) else leftmost l (LF c a r # k))"

definition close_gap :: "color \<Rightarrow> frame list \<Rightarrow> ntree \<Rightarrow> ntree" where
  "close_gap c k T = (if c = Black then fix_del k T else plug k T)"

text \<open>
  The removal of the node \<open>a\<close>: with two children its place is taken by its successor \<open>y\<close>, and the
  gap is where \<open>y\<close> was.  The result is the context of the gap, the subtree in it and the colour that went.
\<close>

fun cut_node :: "frame list \<Rightarrow> ntree \<Rightarrow> frame list \<times> ntree \<times> color" where
  "cut_node k Tip = (k, Tip, Red)"
| "cut_node k (Nd l c a r) =
     (if l = Tip then (k, r, c)
      else if r = Tip then (k, l, c)
      else case leftmost r [] of
        (k2, Nd _ d y s) \<Rightarrow> (k2 @ RF l c y # k, s, d)
      | (k2, Tip) \<Rightarrow> (k, Tip, Red))"

definition del_node :: "frame list \<Rightarrow> ntree \<Rightarrow> ntree" where
  "del_node k T = (case cut_node k T of (k', S, c) \<Rightarrow> close_gap c k' S)"

lemma leftmost_ex:
  assumes "T \<noteq> Tip"
  obtains k' d y s where "leftmost T k = (k' @ k, Nd Tip d y s)" "plug k' (Nd Tip d y s) = T" "ctx_left k' = []"
proof -
  have "\<exists>k' d y s. leftmost T k = (k' @ k, Nd Tip d y s) \<and> plug k' (Nd Tip d y s) = T \<and> ctx_left k' = []" using assms
  proof (induction T arbitrary: k)
    case (Nd l c a r)
    show ?case
    proof (cases "l = Tip")
      case False
      from Nd.IH(1)[OF this, of "LF c a r # k"] obtain k' d y s where
        "leftmost l (LF c a r # k) = (k' @ LF c a r # k, Nd Tip d y s)" "plug k' (Nd Tip d y s) = l" "ctx_left k' = []" by blast
      moreover have "plug (k' @ [LF c a r]) X = Nd (plug k' X) c a r" for X by (induction k' arbitrary: X) auto
      moreover have "ctx_left k' = [] \<Longrightarrow> ctx_left (k' @ [LF c a r]) = []" by (induction k' rule: ctx_left.induct) auto
      ultimately show ?thesis using False by (intro exI[of _ "k' @ [LF c a r]"]) auto
    qed auto
  qed simp
  thus ?thesis using that by blast
qed

lemma plug_append: "plug (k @ k') T = plug k' (plug k T)"
  by (induction k arbitrary: T) auto

lemma ctx_append: "ctx_left (k @ k') = ctx_left k' @ ctx_left k" "ctx_right (k @ k') = ctx_right k @ ctx_right k'"
  by (induction k rule: ctx_left.induct) auto

lemma ctx_ok_other_node: "ctx_ok (k2 @ RF l c a # k) b = ctx_ok (k2 @ RF l c y # k) b"
proof (induction k2 arbitrary: b)
  case (Cons f k2)
  thus ?case by (cases f; cases k2) auto
qed simp

lemma close_gap_rb:
  assumes "ctx_ok k (bh T + (if c = Black then 1 else 0))" "redok T" "balanced T" "c = Red \<Longrightarrow> col T = Black"
  shows "rb_tree (close_gap c k T)"
proof (cases c)
  case Red
  thus ?thesis using assms by (simp add: close_gap_def) (rule plug_rb_tree, auto)
next
  case Black
  thus ?thesis using assms by (simp add: close_gap_def fix_del_rb redok_paint_Black)
qed

lemma inorder_close_gap:
  "ctx_ok k (bh T + (if c = Black then 1 else 0)) \<Longrightarrow> inorder (close_gap c k T) = inorder (plug k T)"
  by (cases c) (auto simp: close_gap_def intro: inorder_fix_del ctx_ok_has_sibling)

lemma cut_node_ok:
  assumes "rb_tree (plug k (Nd l c a r))" "cut_node k (Nd l c a r) = (k', S, d)"
  shows "ctx_ok k' (bh S + (if d = Black then 1 else 0)) \<and> redok S \<and> balanced S \<and> (d = Red \<longrightarrow> col S = Black)
    \<and> inorder (plug k' S) = ctx_left k @ inorder l @ inorder r @ ctx_right k"
proof (cases "l = Tip \<or> r = Tip")
  case True
  have "ctx_ok k (bh (Nd l c a r))" and ok: "redok (Nd l c a r)" "balanced (Nd l c a r)"
    using split_rb[of k "Nd l c a r"] assms(1) unfolding rb_tree_def by blast+
  hence "ctx_ok k (bh l + (if c = Black then 1 else 0))" "ctx_ok k (bh r + (if c = Black then 1 else 0))" by simp_all
  thus ?thesis using ok True assms(2) by (auto simp: inorder_plug split: if_splits)
next
  case False
  obtain k2 e y s where r: "leftmost r [] = (k2 @ [], Nd Tip e y s)" "plug k2 (Nd Tip e y s) = r" "ctx_left k2 = []"
    using leftmost_ex[of r "[]"] False by blast
  have k': "k' = k2 @ RF l c y # k" "S = s" "d = e" using assms(2) False r(1) by auto
  have "plug (k2 @ RF l c a # k) (Nd Tip e y s) = plug k (Nd l c a r)" using r(2) by (simp add: plug_append)
  hence "ctx_ok (k2 @ RF l c a # k) (bh (Nd Tip e y s)) \<and> redok (Nd Tip e y s) \<and> balanced (Nd Tip e y s)"
    using split_rb[of "k2 @ RF l c a # k" "Nd Tip e y s"] assms(1) by (simp add: rb_tree_def)
  moreover have "inorder r = y # inorder s @ ctx_right k2" using r(2,3) inorder_plug[of k2 "Nd Tip e y s"] by simp
  ultimately show ?thesis using k' ctx_ok_other_node[of k2 l c a k "bh (Nd Tip e y s)"] r(3)
    by (auto simp: inorder_plug ctx_append)
qed

lemma del_node_rb: "rb_tree (plug k T) \<Longrightarrow> T \<noteq> Tip \<Longrightarrow> rb_tree (del_node k T)"
  using cut_node_ok close_gap_rb by (cases T; cases "cut_node k T") (fastforce simp: del_node_def)+

lemma inorder_del_node:
  "rb_tree (plug k (Nd l c a r)) \<Longrightarrow> inorder (del_node k (Nd l c a r)) = ctx_left k @ inorder l @ inorder r @ ctx_right k"
  using cut_node_ok[of k l c a r] inorder_close_gap by (cases "cut_node k (Nd l c a r)") (simp add: del_node_def)

end
