(* ===== verification/Bst_Delete.thy ===== *)
theory Bst_Delete
  imports Bst_Insert Bst_Del_Tree
begin

text \<open>
  Deletion from the red-black tree of \<open>src/binary_search_tree.c\<close>: \<open>bst_fixup_delete\<close> rebalances as the
  function \<open>fix_del\<close> on trees does, and \<open>bst_delete\<close> unlinks a node as \<open>del_node\<close> does.  While the tree is
  rebalanced the gap may be at the nil node, whose parent is then the parent of the gap.
\<close>

section \<open>Chains of pointer operations\<close>

text \<open>
  \<open>moves S t t' k T\<close>: the memory \<open>t'\<close> holds \<open>T\<close> in the context \<open>k\<close>, has the nodes \<open>S\<close>, and differs
  from \<open>t\<close> only in the links of these nodes and the root pointer.
\<close>

definition moves :: "addr set \<Rightarrow> ('k, 'v) jfs_bst \<Rightarrow> ('k, 'v) jfs_bst \<Rightarrow> frame list \<Rightarrow> ntree \<Rightarrow> bool" where
  "moves S t t' k T \<longleftrightarrow> zrep t' k T \<and> same_but S t t' \<and> znodes k T = S"

lemma moves_refl: "zrep t k T \<Longrightarrow> moves (znodes k T) t t k T"
  by (simp add: moves_def)

lemma moves_zrep: "moves S t t' k T \<Longrightarrow> zrep t' k T"
  by (simp add: moves_def)

lemma moves_nil: "moves S t t' k T \<Longrightarrow> nil t' = nil t"
  by (simp add: moves_def same_but_def)

lemma moves_nil_notin: "moves S t t' k T \<Longrightarrow> nil t \<notin> S"
  by (auto simp: moves_def zrep_def znodes_def same_but_def)

lemma moves_push: "moves S t t' (f # k) T = moves S t t' k (fill f T)"
  by (simp add: moves_def zrep_push znodes_push)

lemma moves_step:
  assumes "moves S t0 t k T" "\<exists>t'. m = Ret t' \<and> zrep t' k T' \<and> same_but (znodes k T) t t'" "set (inorder T') = set (inorder T)"
  shows "\<exists>t'. m = Ret t' \<and> moves S t0 t' k T'"
  using assms by (auto simp: moves_def znodes_def intro: same_but_trans)

lemma moves_color:
  "moves S t0 t k (Nd l c a r) \<Longrightarrow> \<exists>t'. bst_set_color t a (cw d) = Ret t' \<and> moves S t0 t' k (Nd l d a r)"
  by (rule moves_step) (auto simp: moves_def intro: set_color_zrep)

lemma moves_paint:
  "moves S t0 t k T \<Longrightarrow> T \<noteq> Tip \<Longrightarrow> \<exists>t'. bst_set_color t (root_of (nil t) T) (cw d) = Ret t' \<and> moves S t0 t' k (paint d T)"
  by (rule moves_step) (auto simp: moves_def intro: zrep_paint)

lemma moves_rotate_left:
  "moves S t0 t k (Nd a c x (Nd b d y e)) \<Longrightarrow> \<exists>t'. bst_rotate_left t x = Ret t' \<and> moves S t0 t' k (Nd (Nd a c x b) d y e)"
  by (rule moves_step) (auto simp: moves_def intro: rotate_left_zrep)

lemma moves_rotate_right:
  "moves S t0 t k (Nd (Nd a c x b) d y e) \<Longrightarrow> \<exists>t'. bst_rotate_right t y = Ret t' \<and> moves S t0 t' k (Nd a c x (Nd b d y e))"
  by (rule moves_step) (auto simp: moves_def intro: rotate_right_zrep)

lemma moves_links:
  "moves S t0 t k (Nd l c a r) \<Longrightarrow> left t a = root_of (nil t0) l \<and> right t a = root_of (nil t0) r \<and> a \<noteq> nil t0 \<and> node_addr a"
  using zrep_links[of t k l c a r] by (simp add: moves_nil moves_zrep)

lemma moves_col: "moves S t0 t k T \<Longrightarrow> bst_color t (root_of (nil t0) T) = Ret (cw (col T))"
  using zrep_color[of t k T] by (simp add: moves_nil moves_zrep)

lemma red_black_neq [simp]: "BST_RED \<noteq> BST_BLACK" "BST_BLACK \<noteq> BST_RED"
  by (simp_all add: BST_RED_def BST_BLACK_def)

section \<open>The cases of a round\<close>

text \<open>A round of \<open>bst_fixup_delete\<close> with the node on the left, in two parts: making the sibling black, and the rest.\<close>

definition del_black_right :: "('k, 'v) jfs_bst \<Rightarrow> addr \<Rightarrow> (('k, 'v) jfs_bst \<times> addr) run" where
  "del_black_right t parent =
     run_bind (bst_color t (right t parent)) (\<lambda>c.
     if c = BST_RED then
       run_bind (bst_set_color t (right t parent) BST_BLACK) (\<lambda>t.
       run_bind (bst_set_color t parent BST_RED) (\<lambda>t.
       run_bind (bst_rotate_left t parent) (\<lambda>t. Ret (t, right t parent))))
     else Ret (t, right t parent))"

definition del_end_left :: "('k, 'v) jfs_bst \<Rightarrow> addr \<Rightarrow> addr \<Rightarrow> (('k, 'v) jfs_bst \<times> addr) run" where
  "del_end_left t parent sibling =
     run_bind (bst_color t (left t sibling)) (\<lambda>left_color.
     run_bind (bst_color t (right t sibling)) (\<lambda>right_color.
     if left_color = BST_BLACK \<and> right_color = BST_BLACK then
       run_bind (bst_set_color t sibling BST_RED) (\<lambda>t. Ret (t, parent))
     else
       run_bind (if right_color = BST_BLACK then
                   run_bind (bst_set_color t (left t sibling) BST_BLACK) (\<lambda>t.
                   run_bind (bst_set_color t sibling BST_RED) (\<lambda>t.
                   run_bind (bst_rotate_right t sibling) (\<lambda>t. Ret (t, right t parent))))
                 else Ret (t, sibling)) (\<lambda>(t, sibling).
       run_bind (bst_color t parent) (\<lambda>parent_color.
       run_bind (bst_set_color t sibling parent_color) (\<lambda>t.
       run_bind (bst_set_color t parent BST_BLACK) (\<lambda>t.
       run_bind (bst_set_color t (right t sibling) BST_BLACK) (\<lambda>t.
       run_bind (bst_rotate_left t parent) (\<lambda>t. Ret (t, root t)))))))))"

definition del_black_left :: "('k, 'v) jfs_bst \<Rightarrow> addr \<Rightarrow> (('k, 'v) jfs_bst \<times> addr) run" where
  "del_black_left t parent =
     run_bind (bst_color t (left t parent)) (\<lambda>c.
     if c = BST_RED then
       run_bind (bst_set_color t (left t parent) BST_BLACK) (\<lambda>t.
       run_bind (bst_set_color t parent BST_RED) (\<lambda>t.
       run_bind (bst_rotate_right t parent) (\<lambda>t. Ret (t, left t parent))))
     else Ret (t, left t parent))"

definition del_end_right :: "('k, 'v) jfs_bst \<Rightarrow> addr \<Rightarrow> addr \<Rightarrow> (('k, 'v) jfs_bst \<times> addr) run" where
  "del_end_right t parent sibling =
     run_bind (bst_color t (left t sibling)) (\<lambda>left_color.
     run_bind (bst_color t (right t sibling)) (\<lambda>right_color.
     if left_color = BST_BLACK \<and> right_color = BST_BLACK then
       run_bind (bst_set_color t sibling BST_RED) (\<lambda>t. Ret (t, parent))
     else
       run_bind (if left_color = BST_BLACK then
                   run_bind (bst_set_color t (right t sibling) BST_BLACK) (\<lambda>t.
                   run_bind (bst_set_color t sibling BST_RED) (\<lambda>t.
                   run_bind (bst_rotate_left t sibling) (\<lambda>t. Ret (t, left t parent))))
                 else Ret (t, sibling)) (\<lambda>(t, sibling).
       run_bind (bst_color t parent) (\<lambda>parent_color.
       run_bind (bst_set_color t sibling parent_color) (\<lambda>t.
       run_bind (bst_set_color t parent BST_BLACK) (\<lambda>t.
       run_bind (bst_set_color t (left t sibling) BST_BLACK) (\<lambda>t.
       run_bind (bst_rotate_right t parent) (\<lambda>t. Ret (t, root t)))))))))"

lemma fixup_delete_step_eq:
  assumes "bst_parent t node = Ret parent"
  shows "bst_fixup_delete_step t node =
    (if node = left t parent then run_bind (del_black_right t parent) (\<lambda>(t, s). del_end_left t parent s)
     else run_bind (del_black_left t parent) (\<lambda>(t, s). del_end_right t parent s))"
  unfolding bst_fixup_delete_step_def assms del_black_right_def del_black_left_def del_end_left_def del_end_right_def Let_def
    run_bind_assoc by simp

lemma black_right_red:
  assumes M: "moves S t0 t (LF c p (Nd a Red q b) # k) T"
  shows "\<exists>t'. del_black_right t p = Ret (t', root_of (nil t0) a) \<and> moves S t0 t' (LF Red p a # LF Black q b # k) T"
proof -
  have Mp: "moves S t0 t k (Nd T c p (Nd a Red q b))" and Mq: "moves S t0 t (RF T c p # k) (Nd a Red q b)"
    using M by (simp_all add: moves_push)
  have reads: "right t p = q" "bst_color t q = Ret BST_RED" using moves_links[OF Mp] moves_col[OF Mq] by simp_all
  obtain t1 where t1: "bst_set_color t q BST_BLACK = Ret t1" "moves S t0 t1 k (Nd T c p (Nd a Black q b))"
    using moves_color[OF Mq, of Black] by (auto simp: moves_push)
  obtain t2 where t2: "bst_set_color t1 p BST_RED = Ret t2" "moves S t0 t2 k (Nd T Red p (Nd a Black q b))"
    using moves_color[OF t1(2), of Red] by auto
  obtain t3 where t3: "bst_rotate_left t2 p = Ret t3" "moves S t0 t3 (LF Black q b # k) (Nd T Red p a)"
    using moves_rotate_left[OF t2(2)] by (auto simp: moves_push)
  show ?thesis using t1(1) t2(1) t3 reads moves_links[OF t3(2)] by (simp add: del_black_right_def moves_push)
qed

lemma black_right_black:
  assumes M: "moves S t0 t (LF c p s # k) T" and s: "col s = Black"
  shows "del_black_right t p = Ret (t, root_of (nil t0) s)"
proof -
  have Mp: "moves S t0 t k (Nd T c p s)" and Mq: "moves S t0 t (RF T c p # k) s" using M by (simp_all add: moves_push)
  show ?thesis using moves_links[OF Mp] moves_col[OF Mq] s by (simp add: del_black_right_def)
qed

lemma end_left_up:
  assumes M: "moves S t0 t (LF c p s # k) T" and s: "s \<noteq> Tip" "black_kids s"
  shows "\<exists>t'. del_end_left t p (root_of (nil t0) s) = Ret (t', p) \<and> moves S t0 t' k (Nd T c p (paint Red s))"
proof -
  obtain l d q r where N: "s = Nd l d q r" using s(1) by (cases s) auto
  have Mq: "moves S t0 t (RF T c p # k) (Nd l d q r)" using M N by (simp add: moves_push)
  have kids: "moves S t0 t (LF d q r # RF T c p # k) l" "moves S t0 t (RF l d q # RF T c p # k) r" using Mq by (simp_all add: moves_push)
  have "bst_color t (left t q) = Ret BST_BLACK" "bst_color t (right t q) = Ret BST_BLACK"
    using moves_col[OF kids(1)] moves_col[OF kids(2)] moves_links[OF Mq] s(2) N by (simp_all add: black_kids_def)
  thus ?thesis using moves_color[OF Mq, of Red] N by (auto simp: del_end_left_def moves_push)
qed

lemma end_left_last:
  assumes M: "moves S t0 t (LF c p (Nd l d q r) # k) T" and r: "r \<noteq> Tip"
  shows "\<exists>t'. run_bind (bst_color t p) (\<lambda>parent_color. run_bind (bst_set_color t q parent_color) (\<lambda>t.
      run_bind (bst_set_color t p BST_BLACK) (\<lambda>t. run_bind (bst_set_color t (right t q) BST_BLACK) (\<lambda>t.
      run_bind (bst_rotate_left t p) (\<lambda>t. Ret (t, root t)))))) = Ret (t', root t')
    \<and> moves S t0 t' k (Nd (Nd T Black p l) c q (paint Black r))"
proof -
  have Mp: "moves S t0 t k (Nd T c p (Nd l d q r))" and Mq: "moves S t0 t (RF T c p # k) (Nd l d q r)"
    using M by (simp_all add: moves_push)
  have c: "bst_color t p = Ret (cw c)" using moves_col[OF Mp] by simp
  obtain t1 where t1: "bst_set_color t q (cw c) = Ret t1" "moves S t0 t1 k (Nd T c p (Nd l c q r))"
    using moves_color[OF Mq, of c] by (auto simp: moves_push)
  obtain t2 where t2: "bst_set_color t1 p BST_BLACK = Ret t2" "moves S t0 t2 k (Nd T Black p (Nd l c q r))"
    using moves_color[OF t1(2), of Black] by auto
  have M2: "moves S t0 t2 (RF T Black p # k) (Nd l c q r)" "moves S t0 t2 (RF l c q # RF T Black p # k) r"
    using t2(2) by (simp_all add: moves_push)
  obtain t3 where t3: "bst_set_color t2 (right t2 q) BST_BLACK = Ret t3" "moves S t0 t3 k (Nd T Black p (Nd l c q (paint Black r)))"
    using moves_paint[OF M2(2) r, of Black] moves_links[OF M2(1)] moves_nil[OF M2(1)] by (auto simp: moves_push)
  from moves_rotate_left[OF t3(2)] show ?thesis using c t1(1) t2(1) t3(1) by auto
qed

lemma end_left_fin:
  assumes M: "moves S t0 t (LF c p s # k) T" and s: "s \<noteq> Tip" "\<not> black_kids s"
  shows "\<exists>t'. del_end_left t p (root_of (nil t0) s) = Ret (t', root t') \<and> moves S t0 t' k (fin_left c p T s)"
proof -
  obtain l d q r where N: "s = Nd l d q r" using s(1) by (cases s) auto
  have Mq: "moves S t0 t (RF T c p # k) (Nd l d q r)" using M N by (simp add: moves_push)
  have kids: "moves S t0 t (LF d q r # RF T c p # k) l" "moves S t0 t (RF l d q # RF T c p # k) r" using Mq by (simp_all add: moves_push)
  have reads: "left t q = root_of (nil t0) l" "bst_color t (root_of (nil t0) l) = Ret (cw (col l))"
    "bst_color t (right t q) = Ret (cw (col r))" "\<not> (col l = Black \<and> col r = Black)"
    using moves_col[OF kids(1)] moves_col[OF kids(2)] moves_links[OF Mq] s(2) N by (simp_all add: black_kids_def)
  show ?thesis
  proof (cases "col r")
    case Red
    from end_left_last[OF M[unfolded N]] Red show ?thesis
      by (cases r) (auto simp: N del_end_left_def reads fin_left_def)
  next
    case Black
    then obtain a n b where l: "l = Nd a Red n b" using reads(4) by (cases l) auto
    obtain t1 where t1: "bst_set_color t n BST_BLACK = Ret t1" "moves S t0 t1 (RF T c p # k) (Nd (Nd a Black n b) d q r)"
      using moves_color[OF kids(1)[unfolded l], of Black] by (auto simp: moves_push)
    obtain t2 where t2: "bst_set_color t1 q BST_RED = Ret t2" "moves S t0 t2 (RF T c p # k) (Nd (Nd a Black n b) Red q r)"
      using moves_color[OF t1(2), of Red] by auto
    obtain t3 where t3: "bst_rotate_right t2 q = Ret t3" "moves S t0 t3 (LF c p (Nd a Black n (Nd b Red q r)) # k) T"
      using moves_rotate_right[OF t2(2)] by (auto simp: moves_push)
    have "moves S t0 t3 k (Nd T c p (Nd a Black n (Nd b Red q r)))" using t3(2) by (simp add: moves_push)
    hence sib: "right t3 p = n" using moves_links by fastforce
    have reads': "left t q = n" "bst_color t n = Ret BST_RED" "bst_color t (right t q) = Ret BST_BLACK"
      using reads(1-3) l Black by simp_all
    obtain t4 where "run_bind (bst_color t3 p) (\<lambda>parent_color. run_bind (bst_set_color t3 n parent_color) (\<lambda>t.
        run_bind (bst_set_color t p BST_BLACK) (\<lambda>t. run_bind (bst_set_color t (right t n) BST_BLACK) (\<lambda>t.
        run_bind (bst_rotate_left t p) (\<lambda>t. Ret (t, root t)))))) = Ret (t4, root t4)"
      "moves S t0 t4 k (Nd (Nd T Black p a) c n (Nd b Black q r))"
      using end_left_last[OF t3(2)] by auto
    thus ?thesis by (simp add: N l del_end_left_def reads' t1(1) t2(1) t3(1) sib Black fin_left_def)
  qed
qed

lemma black_left_red:
  assumes M: "moves S t0 t (RF (Nd a Red q b) c p # k) T"
  shows "\<exists>t'. del_black_left t p = Ret (t', root_of (nil t0) b) \<and> moves S t0 t' (RF b Red p # RF a Black q # k) T"
proof -
  have Mp: "moves S t0 t k (Nd (Nd a Red q b) c p T)" and Mq: "moves S t0 t (LF c p T # k) (Nd a Red q b)"
    using M by (simp_all add: moves_push)
  have reads: "left t p = q" "bst_color t q = Ret BST_RED" using moves_links[OF Mp] moves_col[OF Mq] by simp_all
  obtain t1 where t1: "bst_set_color t q BST_BLACK = Ret t1" "moves S t0 t1 k (Nd (Nd a Black q b) c p T)"
    using moves_color[OF Mq, of Black] by (auto simp: moves_push)
  obtain t2 where t2: "bst_set_color t1 p BST_RED = Ret t2" "moves S t0 t2 k (Nd (Nd a Black q b) Red p T)"
    using moves_color[OF t1(2), of Red] by auto
  obtain t3 where t3: "bst_rotate_right t2 p = Ret t3" "moves S t0 t3 (RF a Black q # k) (Nd b Red p T)"
    using moves_rotate_right[OF t2(2)] by (auto simp: moves_push)
  show ?thesis using t1(1) t2(1) t3 reads moves_links[OF t3(2)] by (simp add: del_black_left_def moves_push)
qed

lemma black_left_black:
  assumes M: "moves S t0 t (RF s c p # k) T" and s: "col s = Black"
  shows "del_black_left t p = Ret (t, root_of (nil t0) s)"
proof -
  have Mp: "moves S t0 t k (Nd s c p T)" and Mq: "moves S t0 t (LF c p T # k) s" using M by (simp_all add: moves_push)
  show ?thesis using moves_links[OF Mp] moves_col[OF Mq] s by (simp add: del_black_left_def)
qed

lemma end_right_up:
  assumes M: "moves S t0 t (RF s c p # k) T" and s: "s \<noteq> Tip" "black_kids s"
  shows "\<exists>t'. del_end_right t p (root_of (nil t0) s) = Ret (t', p) \<and> moves S t0 t' k (Nd (paint Red s) c p T)"
proof -
  obtain l d q r where N: "s = Nd l d q r" using s(1) by (cases s) auto
  have Mq: "moves S t0 t (LF c p T # k) (Nd l d q r)" using M N by (simp add: moves_push)
  have kids: "moves S t0 t (LF d q r # LF c p T # k) l" "moves S t0 t (RF l d q # LF c p T # k) r" using Mq by (simp_all add: moves_push)
  have "bst_color t (left t q) = Ret BST_BLACK" "bst_color t (right t q) = Ret BST_BLACK"
    using moves_col[OF kids(1)] moves_col[OF kids(2)] moves_links[OF Mq] s(2) N by (simp_all add: black_kids_def)
  thus ?thesis using moves_color[OF Mq, of Red] N by (auto simp: del_end_right_def moves_push)
qed

lemma end_right_last:
  assumes M: "moves S t0 t (RF (Nd l d q r) c p # k) T" and l: "l \<noteq> Tip"
  shows "\<exists>t'. run_bind (bst_color t p) (\<lambda>parent_color. run_bind (bst_set_color t q parent_color) (\<lambda>t.
      run_bind (bst_set_color t p BST_BLACK) (\<lambda>t. run_bind (bst_set_color t (left t q) BST_BLACK) (\<lambda>t.
      run_bind (bst_rotate_right t p) (\<lambda>t. Ret (t, root t)))))) = Ret (t', root t')
    \<and> moves S t0 t' k (Nd (paint Black l) c q (Nd r Black p T))"
proof -
  have Mp: "moves S t0 t k (Nd (Nd l d q r) c p T)" and Mq: "moves S t0 t (LF c p T # k) (Nd l d q r)"
    using M by (simp_all add: moves_push)
  have c: "bst_color t p = Ret (cw c)" using moves_col[OF Mp] by simp
  obtain t1 where t1: "bst_set_color t q (cw c) = Ret t1" "moves S t0 t1 k (Nd (Nd l c q r) c p T)"
    using moves_color[OF Mq, of c] by (auto simp: moves_push)
  obtain t2 where t2: "bst_set_color t1 p BST_BLACK = Ret t2" "moves S t0 t2 k (Nd (Nd l c q r) Black p T)"
    using moves_color[OF t1(2), of Black] by auto
  have M2: "moves S t0 t2 (LF Black p T # k) (Nd l c q r)" "moves S t0 t2 (LF c q r # LF Black p T # k) l"
    using t2(2) by (simp_all add: moves_push)
  obtain t3 where t3: "bst_set_color t2 (left t2 q) BST_BLACK = Ret t3" "moves S t0 t3 k (Nd (Nd (paint Black l) c q r) Black p T)"
    using moves_paint[OF M2(2) l, of Black] moves_links[OF M2(1)] moves_nil[OF M2(1)] by (auto simp: moves_push)
  from moves_rotate_right[OF t3(2)] show ?thesis using c t1(1) t2(1) t3(1) by auto
qed

lemma end_right_fin:
  assumes M: "moves S t0 t (RF s c p # k) T" and s: "s \<noteq> Tip" "\<not> black_kids s"
  shows "\<exists>t'. del_end_right t p (root_of (nil t0) s) = Ret (t', root t') \<and> moves S t0 t' k (fin_right c p T s)"
proof -
  obtain l d q r where N: "s = Nd l d q r" using s(1) by (cases s) auto
  have Mq: "moves S t0 t (LF c p T # k) (Nd l d q r)" using M N by (simp add: moves_push)
  have kids: "moves S t0 t (LF d q r # LF c p T # k) l" "moves S t0 t (RF l d q # LF c p T # k) r" using Mq by (simp_all add: moves_push)
  have reads: "right t q = root_of (nil t0) r" "bst_color t (root_of (nil t0) r) = Ret (cw (col r))"
    "bst_color t (left t q) = Ret (cw (col l))" "\<not> (col l = Black \<and> col r = Black)"
    using moves_col[OF kids(1)] moves_col[OF kids(2)] moves_links[OF Mq] s(2) N by (simp_all add: black_kids_def)
  show ?thesis
  proof (cases "col l")
    case Red
    from end_right_last[OF M[unfolded N]] Red show ?thesis
      by (cases l) (auto simp: N del_end_right_def reads fin_right_def)
  next
    case Black
    then obtain a n b where r: "r = Nd a Red n b" using reads(4) by (cases r) auto
    obtain t1 where t1: "bst_set_color t n BST_BLACK = Ret t1" "moves S t0 t1 (LF c p T # k) (Nd l d q (Nd a Black n b))"
      using moves_color[OF kids(2)[unfolded r], of Black] by (auto simp: moves_push)
    obtain t2 where t2: "bst_set_color t1 q BST_RED = Ret t2" "moves S t0 t2 (LF c p T # k) (Nd l Red q (Nd a Black n b))"
      using moves_color[OF t1(2), of Red] by auto
    obtain t3 where t3: "bst_rotate_left t2 q = Ret t3" "moves S t0 t3 (RF (Nd (Nd l Red q a) Black n b) c p # k) T"
      using moves_rotate_left[OF t2(2)] by (auto simp: moves_push)
    have "moves S t0 t3 k (Nd (Nd (Nd l Red q a) Black n b) c p T)" using t3(2) by (simp add: moves_push)
    hence sib: "left t3 p = n" using moves_links by fastforce
    have reads': "right t q = n" "bst_color t n = Ret BST_RED" "bst_color t (left t q) = Ret BST_BLACK"
      using reads(1-3) r Black by simp_all
    obtain t4 where "run_bind (bst_color t3 p) (\<lambda>parent_color. run_bind (bst_set_color t3 n parent_color) (\<lambda>t.
        run_bind (bst_set_color t p BST_BLACK) (\<lambda>t. run_bind (bst_set_color t (left t n) BST_BLACK) (\<lambda>t.
        run_bind (bst_rotate_right t p) (\<lambda>t. Ret (t, root t)))))) = Ret (t4, root t4)"
      "moves S t0 t4 k (Nd (Nd l Black q a) c n (Nd b Black p T))"
      using end_right_last[OF t3(2)] by auto
    thus ?thesis by (simp add: N r del_end_right_def reads' t1(1) t2(1) t3(1) sib Black fin_right_def)
  qed
qed

section \<open>The rebalancing loop\<close>

text \<open>The gap: if it is at the nil node, the parent of nil is the parent of the gap.\<close>

definition gap :: "('k, 'v) jfs_bst \<Rightarrow> frame list \<Rightarrow> ntree \<Rightarrow> bool" where
  "gap t k T \<longleftrightarrow> zrep t k T \<and> w_parent (parent_color t (root_of (nil t) T)) = ctx_parent (nil t) k"

lemma gap_node: "zrep t k T \<Longrightarrow> T \<noteq> Tip \<Longrightarrow> gap t k T"
  using zrep_parent_node[of t k T] by (cases T) (auto simp: gap_def zrep_def)

lemma gap_parent: "gap t k T \<Longrightarrow> bst_parent t (root_of (nil t) T) = Ret (ctx_parent (nil t) k)"
  using zrep_root_addr[of t k T] by (auto simp: gap_def bst_parent_eq)

lemma ctx_root: "ctx_at N pc lf rt rp p k \<Longrightarrow> k \<noteq> [] \<Longrightarrow> rp \<in> set (ctx_nodes k)"
proof (induction k arbitrary: p rule: ctx_nodes.induct)
  case (2 c a r k)
  thus ?case by (cases k rule: ctx_nodes.cases) auto
next
  case (3 l c a k)
  thus ?case by (cases k rule: ctx_nodes.cases) auto
qed simp

lemma gap_root: "zrep t k T \<Longrightarrow> root_of (nil t) T = root t \<longleftrightarrow> k = []"
  using ctx_root[of "nil t" "parent_color t" "left t" "right t" "root t" "root_of (nil t) T" k]
    ctx_at_nil[of "nil t" "parent_color t" "left t" "right t" "root t" "root_of (nil t) T" k]
  by (cases T; cases "k = []") (auto simp: zrep_def)

definition del_loop_ok :: "nat \<Rightarrow> ('k, 'v) jfs_bst \<Rightarrow> frame list \<Rightarrow> ntree \<Rightarrow> ntree \<Rightarrow> bool" where
  "del_loop_ok fuel t k T T' \<longleftrightarrow> (\<exists>t'. bst_fixup_delete fuel t (root_of (nil t) T) = Ret t' \<and> zrep t' [] T'
     \<and> same_but (insert (nil t) (znodes k T)) t t')"

lemma fixup_delete_exit:
  "node = root t \<or> bst_color t node = Ret BST_RED \<Longrightarrow> bst_fixup_delete (Suc fuel) t node = bst_set_color t node BST_BLACK"
  by (auto simp: bst_fixup_delete_def)

lemma fixup_delete_round:
  "node \<noteq> root t \<Longrightarrow> bst_color t node = Ret BST_BLACK \<Longrightarrow> bst_fixup_delete_step t node = Ret (t', node') \<Longrightarrow>
   bst_fixup_delete (Suc fuel) t node = bst_fixup_delete fuel t' node'"
  by (simp add: bst_fixup_delete_def)

lemma gap_paint:
  assumes "gap t k T" "k = [] \<or> col T = Red"
  shows "\<exists>t'. bst_set_color t (root_of (nil t) T) BST_BLACK = Ret t' \<and> zrep t' k (paint Black T)
    \<and> same_but (insert (nil t) (znodes k T)) t t'"
proof (cases T)
  case Tip
  thus ?thesis using assms bst_set_color_eq[of t "nil t" Black] by (auto simp: gap_def zrep_def same_but_def znodes_def)
next
  case (Nd l c a r)
  hence "zrep t k T" "T \<noteq> Tip" using assms(1) by (simp_all add: gap_def)
  from zrep_paint[OF this, of Black] show ?thesis by (auto intro: same_but_mono)
qed

lemma del_loop_exit:
  assumes g: "gap t k T" and e: "k = [] \<or> col T = Red" and fuel: "0 < fuel"
  shows "del_loop_ok fuel t k T (plug k (paint Black T))"
proof -
  have Z: "zrep t k T" using g by (simp add: gap_def)
  obtain fl where fl: "fuel = Suc fl" using fuel by (cases fuel) auto
  have "root_of (nil t) T = root t \<or> bst_color t (root_of (nil t) T) = Ret BST_RED"
    using e gap_root[OF Z] zrep_color[OF Z] by auto
  from fixup_delete_exit[OF this, of fl] gap_paint[OF g e] show ?thesis
    unfolding fl del_loop_ok_def by (auto simp: zrep_plug[of _ k])
qed

lemma del_loop_again:
  assumes g: "gap t k T" and k: "k \<noteq> []" and T: "col T = Black"
    and step: "bst_fixup_delete_step t (root_of (nil t) T) = Ret (t1, root_of (nil t) T1)"
    and M: "moves (znodes k T) t t1 k1 T1" and rest: "del_loop_ok fuel t1 k1 T1 T'"
  shows "del_loop_ok (Suc fuel) t k T T'"
proof -
  have Z: "zrep t k T" using g by (simp add: gap_def)
  have go: "root_of (nil t) T \<noteq> root t" "bst_color t (root_of (nil t) T) = Ret BST_BLACK"
    using gap_root[OF Z] k zrep_color[OF Z] T by auto
  have M': "nil t1 = nil t" "same_but (insert (nil t) (znodes k T)) t t1" "znodes k1 T1 = znodes k T"
    using M by (auto simp: moves_def same_but_def)
  from rest[unfolded del_loop_ok_def M'(1,3)] obtain t' where
    t': "bst_fixup_delete fuel t1 (root_of (nil t) T1) = Ret t'" "zrep t' [] T'"
      "same_but (insert (nil t) (znodes k T)) t1 t'" by blast
  have "bst_fixup_delete (Suc fuel) t (root_of (nil t) T) = Ret t'"
    using fixup_delete_round[OF go step, of fuel] t'(1) by simp
  moreover have "same_but (insert (nil t) (znodes k T)) t t'" using M'(2) t'(3) by (rule same_but_trans)
  ultimately show ?thesis using t'(2) by (auto simp: del_loop_ok_def)
qed

lemma del_loop_last:
  assumes g: "gap t k T" "k \<noteq> []" "col T = Black" and step: "bst_fixup_delete_step t (root_of (nil t) T) = Ret (t1, root t1)"
    and M: "moves (znodes k T) t t1 k1 X" and fuel: "0 < fuel" and X: "plug k1 X \<noteq> Tip"
  shows "del_loop_ok (Suc fuel) t k T (paint Black (plug k1 X))"
proof -
  have M1: "moves (znodes k T) t t1 [] (plug k1 X)" using M zrep_plug[of t1 k1 X] znodes_plug[of k1 X] znodes_plug[of "[]"]
    by (simp add: moves_def)
  have "root t1 = root_of (nil t) (plug k1 X)" using zrep_root[OF moves_zrep[OF M1]] moves_nil[OF M1] by simp
  moreover have "del_loop_ok fuel t1 [] (plug k1 X) (plug [] (paint Black (plug k1 X)))"
    using moves_zrep[OF M1] X fuel by (intro del_loop_exit gap_node) auto
  ultimately show ?thesis using del_loop_again[OF g _ M1] step by simp
qed

lemma fin_not_Tip: "s \<noteq> Tip \<Longrightarrow> \<not> black_kids s \<Longrightarrow> fin_left c p T s \<noteq> Tip \<and> fin_right c p T s \<noteq> Tip"
  by (auto simp: fin_left_def fin_right_def black_kids_def split: ntree.splits)

lemma del_round_left:
  assumes g: "gap (t :: ('k, 'v) jfs_bst) (LF c p s # k) T" and sib: "has_sibling (LF c p s # k)" and fuel: "0 < fuel"
    and IH: "\<And>(t1 :: ('k, 'v) jfs_bst) U. gap t1 k U \<Longrightarrow> del_loop_ok fuel t1 k U (fix_del k U)"
  shows "del_loop_ok (Suc fuel) t (LF c p s # k) T (fix_del (LF c p s # k) T)"
proof (cases "col T = Red")
  case True
  thus ?thesis using del_loop_exit[OF g, of "Suc fuel"] by simp
next
  case False
  hence T: "col T = Black" by simp
  obtain a d q b where N: "s = Nd a d q b" using sib by (cases s) auto
  let ?S = "znodes (LF c p s # k) T"
  have M: "moves ?S t t (LF c p s # k) T" using g by (simp add: gap_def moves_refl)
  have "root_of (nil t) T = left t p" using moves_links[of "znodes (LF c p s # k) T" t t k T c p s] M by (simp add: moves_push)
  hence step: "bst_fixup_delete_step t (root_of (nil t) T) = run_bind (del_black_right t p) (\<lambda>(t, s). del_end_left t p s)"
    using fixup_delete_step_eq[OF gap_parent[OF g]] by simp
  note again = del_loop_again[OF g _ T] and last = del_loop_last[OF g _ T _ _ fuel]
  show ?thesis
  proof (cases d)
    case Red
    have nb: "a \<noteq> Tip" using sib N Red by simp
    obtain t1 where t1: "del_black_right t p = Ret (t1, root_of (nil t) a)" "moves ?S t t1 (LF Red p a # LF Black q b # k) T"
      using black_right_red[of ?S t t c p a q b k T] M[unfolded N Red] N Red by auto
    show ?thesis
    proof (cases "black_kids a")
      case True
      obtain t2 where t2: "del_end_left t1 p (root_of (nil t) a) = Ret (t2, p)" "moves ?S t t2 (LF Black q b # k) (Nd T Red p (paint Red a))"
        using end_left_up[OF t1(2) nb True] by auto
      have "del_loop_ok fuel t2 (LF Black q b # k) (Nd T Red p (paint Red a)) (plug (LF Black q b # k) (paint Black (Nd T Red p (paint Red a))))"
        using moves_zrep[OF t2(2)] fuel by (intro del_loop_exit gap_node) auto
      from again[OF _ _ t2(2) this] show ?thesis using t1(1) t2(1) step N Red True T by simp
    next
      case False
      obtain t2 where t2: "del_end_left t1 p (root_of (nil t) a) = Ret (t2, root t2)" "moves ?S t t2 (LF Black q b # k) (fin_left Red p T a)"
        using end_left_fin[OF t1(2) nb False] by auto
      from last[OF _ _ t2(2)] show ?thesis using t1(1) t2(1) step N Red False T by simp
    qed
  next
    case Black
    have s: "s \<noteq> Tip" using N by simp
    have t1: "del_black_right t p = Ret (t, root_of (nil t) s)" using black_right_black[OF M] N Black by simp
    show ?thesis
    proof (cases "black_kids s")
      case True
      obtain t2 where t2: "del_end_left t p (root_of (nil t) s) = Ret (t2, p)" "moves ?S t t2 k (Nd T c p (paint Red s))"
        using end_left_up[OF M s True] by auto
      have "del_loop_ok fuel t2 k (Nd T c p (paint Red s)) (fix_del k (Nd T c p (paint Red s)))"
        using moves_zrep[OF t2(2)] by (intro IH gap_node) auto
      from again[OF _ _ t2(2) this] show ?thesis using t1 t2(1) step N Black True T by simp
    next
      case False
      obtain t2 where t2: "del_end_left t p (root_of (nil t) s) = Ret (t2, root t2)" "moves ?S t t2 k (fin_left c p T s)"
        using end_left_fin[OF M s False] by auto
      from last[OF _ _ t2(2)] show ?thesis using t1 t2(1) step N Black False T fin_not_Tip[OF s False] by simp
    qed
  qed
qed

lemma del_round_right:
  assumes g: "gap (t :: ('k, 'v) jfs_bst) (RF s c p # k) T" and sib: "has_sibling (RF s c p # k)" and fuel: "0 < fuel"
    and IH: "\<And>(t1 :: ('k, 'v) jfs_bst) U. gap t1 k U \<Longrightarrow> del_loop_ok fuel t1 k U (fix_del k U)"
  shows "del_loop_ok (Suc fuel) t (RF s c p # k) T (fix_del (RF s c p # k) T)"
proof (cases "col T = Red")
  case True
  thus ?thesis using del_loop_exit[OF g, of "Suc fuel"] by simp
next
  case False
  hence T: "col T = Black" by simp
  obtain a d q b where N: "s = Nd a d q b" using sib by (cases s) auto
  let ?S = "znodes (RF s c p # k) T"
  have M: "moves ?S t t (RF s c p # k) T" using g by (simp add: gap_def moves_refl)
  have "root_of (nil t) T \<noteq> left t p" using moves_links[of "znodes (RF s c p # k) T" t t k s c p T] M zrep_children_neq[of t k s c p T] g N
    by (simp add: moves_push gap_def zrep_push)
  hence step: "bst_fixup_delete_step t (root_of (nil t) T) = run_bind (del_black_left t p) (\<lambda>(t, s). del_end_right t p s)"
    using fixup_delete_step_eq[OF gap_parent[OF g]] by simp
  note again = del_loop_again[OF g _ T] and last = del_loop_last[OF g _ T _ _ fuel]
  show ?thesis
  proof (cases d)
    case Red
    have nb: "b \<noteq> Tip" using sib N Red by simp
    obtain t1 where t1: "del_black_left t p = Ret (t1, root_of (nil t) b)" "moves ?S t t1 (RF b Red p # RF a Black q # k) T"
      using black_left_red[of ?S t t a q b c p k T] M[unfolded N Red] N Red by auto
    show ?thesis
    proof (cases "black_kids b")
      case True
      obtain t2 where t2: "del_end_right t1 p (root_of (nil t) b) = Ret (t2, p)" "moves ?S t t2 (RF a Black q # k) (Nd (paint Red b) Red p T)"
        using end_right_up[OF t1(2) nb True] by auto
      have "del_loop_ok fuel t2 (RF a Black q # k) (Nd (paint Red b) Red p T) (plug (RF a Black q # k) (paint Black (Nd (paint Red b) Red p T)))"
        using moves_zrep[OF t2(2)] fuel by (intro del_loop_exit gap_node) auto
      from again[OF _ _ t2(2) this] show ?thesis using t1(1) t2(1) step N Red True T by simp
    next
      case False
      obtain t2 where t2: "del_end_right t1 p (root_of (nil t) b) = Ret (t2, root t2)" "moves ?S t t2 (RF a Black q # k) (fin_right Red p T b)"
        using end_right_fin[OF t1(2) nb False] by auto
      from last[OF _ _ t2(2)] show ?thesis using t1(1) t2(1) step N Red False T by simp
    qed
  next
    case Black
    have s: "s \<noteq> Tip" using N by simp
    have t1: "del_black_left t p = Ret (t, root_of (nil t) s)" using black_left_black[OF M] N Black by simp
    show ?thesis
    proof (cases "black_kids s")
      case True
      obtain t2 where t2: "del_end_right t p (root_of (nil t) s) = Ret (t2, p)" "moves ?S t t2 k (Nd (paint Red s) c p T)"
        using end_right_up[OF M s True] by auto
      have "del_loop_ok fuel t2 k (Nd (paint Red s) c p T) (fix_del k (Nd (paint Red s) c p T))"
        using moves_zrep[OF t2(2)] by (intro IH gap_node) auto
      from again[OF _ _ t2(2) this] show ?thesis using t1 t2(1) step N Black True T by simp
    next
      case False
      obtain t2 where t2: "del_end_right t p (root_of (nil t) s) = Ret (t2, root t2)" "moves ?S t t2 k (fin_right c p T s)"
        using end_right_fin[OF M s False] by auto
      from last[OF _ _ t2(2)] show ?thesis using t1 t2(1) step N Black False T fin_not_Tip[OF s False] by simp
    qed
  qed
qed

lemma fixup_delete_ok:
  "gap t k T \<Longrightarrow> has_sibling k \<Longrightarrow> length k < fuel \<Longrightarrow> del_loop_ok fuel t k T (fix_del k T)"
proof (induction k arbitrary: t T fuel)
  case Nil
  thus ?case using del_loop_exit[of t "[]" T fuel] by simp
next
  case (Cons f k)
  then obtain fl where fl: "fuel = Suc fl" "length k < fl" by (cases fuel) auto
  have IH: "gap t1 k U \<Longrightarrow> del_loop_ok fl t1 k U (fix_del k U)" for t1 :: "('a, 'b) jfs_bst" and U
    using Cons.IH[of t1 U fl] Cons.prems(2) fl(2) by (cases f) auto
  show ?case
  proof (cases f)
    case (LF c p s)
    show ?thesis using Cons.prems(1,2) fl(2) unfolding LF fl(1) by (intro del_round_left IH) auto
  next
    case (RF s c p)
    show ?thesis using Cons.prems(1,2) fl(2) unfolding RF fl(1) by (intro del_round_right IH) auto
  qed
qed

end
