(* ===== verification/Bst_Unlink.thy ===== *)
theory Bst_Unlink
  imports Bst_Delete Bst_Map
begin

text \<open>
  Unlinking a node of the search tree of \<open>src/binary_search_tree.c\<close>: \<open>bst_transplant\<close> replaces a node by a
  child, a node with two children gives its place to its successor, and \<open>bst_delete\<close> does on the memory what
  \<open>del_node\<close> does on the tree.  The fields of the deleted node itself stay as they were, which the update of
  the cache relies on.
\<close>

section \<open>Replacing a node\<close>

lemma w_color_cw: "\<exists>c. w_color w = cw c"
proof -
  have "w AND 1 = 0 \<or> w AND 1 = (1 :: 64 word)" by (simp add: and_one_eq mod2_eq_if)
  thus ?thesis by (auto simp: w_color_def BST_RED_def BST_BLACK_def intro: exI[of _ Red] exI[of _ Black])
qed

lemma tree_at_links_cong:
  "\<forall>x\<in>set (inorder T). lf' x = lf x \<and> rt' x = rt x \<Longrightarrow> tree_at N pc lf' rt' par T = tree_at N pc lf rt par T"
  by (induction T arbitrary: par) auto

lemma tree_at_reparent:
  assumes "tree_at N pc lf rt par T" "distinct (inorder T)" "\<forall>x\<in>set (inorder T). lf' x = lf x \<and> rt' x = rt x"
  shows "tree_at N (pc(root_of N T := pack p (col T))) lf' rt' p T"
  using assms tree_at_links_cong[of _ lf' lf rt' rt] by (cases T) auto

text \<open>\<open>bst_transplant\<close> without its last assignment: the link to \<open>old\<close> becomes a link to \<open>new\<close>.\<close>

definition relink :: "('k, 'v) jfs_bst \<Rightarrow> addr \<Rightarrow> addr \<Rightarrow> addr \<Rightarrow> ('k, 'v) jfs_bst" where
  "relink t old new p =
     (if p = nil t then t\<lparr>root := new\<rparr>
      else if left t p = old then t\<lparr>left := (left t)(p := new)\<rparr>
      else t\<lparr>right := (right t)(p := new)\<rparr>)"

lemma relink_ok:
  assumes "ctx_at (nil t) (parent_color t) (left t) (right t) (root t) old k" "old \<notin> set (ctx_nodes k)" "old \<noteq> nil t"
    "distinct (ctx_nodes k)" "t' = relink t old new (ctx_parent (nil t) k)"
  shows "ctx_at (nil t) (parent_color t) (left t') (right t') (root t') new k \<and> parent_color t' = parent_color t
    \<and> (\<forall>x. x \<notin> set (ctx_nodes k) \<longrightarrow> left t' x = left t x \<and> right t' x = right t x) \<and> same_but {ctx_parent (nil t) k} t t'"
  using assms by (cases k rule: ctx_nodes.cases) (auto simp: relink_def same_but_def)

lemma transplant_ok:
  assumes ctx: "ctx_at (nil t) (parent_color t) (left t) (right t) (root t) a k" "distinct (ctx_nodes k)"
    and a: "root t \<noteq> nil t" "a \<notin> set (ctx_nodes k)" "node_addr a" "a \<noteq> nil t" "parent_color t a = pack (ctx_parent (nil t) k) c"
    and par: "node_addr (ctx_parent (nil t) k)"
    and n: "n \<noteq> a" "n \<noteq> NULL" "n \<notin> set (ctx_nodes k)" "w_color (parent_color t n) = cw d"
  shows "\<exists>t'. bst_transplant t a n = Ret t' \<and> ctx_at (nil t) (parent_color t') (left t') (right t') (root t') n k
    \<and> parent_color t' = (parent_color t)(n := pack (ctx_parent (nil t) k) d)
    \<and> (\<forall>x. x \<notin> set (ctx_nodes k) \<longrightarrow> left t' x = left t x \<and> right t' x = right t x)
    \<and> same_but {n, ctx_parent (nil t) k} t t'"
proof -
  let ?p = "ctx_parent (nil t) k" and ?t1 = "relink t a n (ctx_parent (nil t) k)"
  note r = relink_ok[OF ctx(1) a(2,4) ctx(2) refl, of n]
  have p: "bst_parent t a = Ret ?p" using a par by (simp add: bst_parent_eq)
  have sp: "bst_set_parent ?t1 n ?p = Ret (?t1\<lparr>parent_color := (parent_color t)(n := pack ?p d)\<rparr>)"
    using r n par bst_set_parent_eq[of ?t1 n d ?p] by simp
  have "bst_transplant t a n = bst_set_parent ?t1 n ?p"
    using a(1) n(1) p by (simp add: bst_transplant_def relink_def Let_def)
  with sp r n(3) show ?thesis by (auto simp: same_but_def)
qed

lemma zrep_ctx_parent: "zrep t k T \<Longrightarrow> ctx_parent (nil t) k \<notin> set (inorder T)"
  by (cases k rule: ctx_nodes.cases) (auto simp: zrep_def)

text \<open>A node with at most one child is replaced by that child, or by nil.\<close>

lemma transplant_child:
  assumes Z: "zrep t k (Nd l c a r)" and X: "X = l \<or> X = r"
  shows "\<exists>t'. bst_transplant t a (root_of (nil t) X) = Ret t' \<and> gap t' k X
    \<and> same_but {root_of (nil t) X, ctx_parent (nil t) k} t t'"
proof -
  let ?n = "root_of (nil t) X" and ?p = "ctx_parent (nil t) k"
  have T: "tree_at (nil t) (parent_color t) (left t) (right t) a X" "distinct (inorder X)" "set (inorder X) \<inter> set (ctx_nodes k) = {}"
    "a \<notin> set (inorder X)" "set (inorder X) \<subseteq> set (inorder l) \<union> set (inorder r)"
    and C: "ctx_at (nil t) (parent_color t) (left t) (right t) (root t) a k" "distinct (ctx_nodes k)" "a \<notin> set (ctx_nodes k)"
      "node_addr a" "a \<noteq> nil t" "parent_color t a = pack ?p c" "node_addr (nil t)" "w_color (parent_color t (nil t)) = BST_BLACK"
    using Z X by (auto simp: zrep_def)
  have n: "?n \<noteq> a" "?n \<noteq> NULL" "?n \<notin> set (ctx_nodes k)" "w_color (parent_color t ?n) = cw (col X)"
    using T C ctx_at_nil[OF C(1)] by (cases X; auto)+
  obtain t' where t': "bst_transplant t a ?n = Ret t'" "ctx_at (nil t) (parent_color t') (left t') (right t') (root t') ?n k"
    "parent_color t' = (parent_color t)(?n := pack ?p (col X))"
    "\<forall>x. x \<notin> set (ctx_nodes k) \<longrightarrow> left t' x = left t x \<and> right t' x = right t x"
    "same_but {?n, ?p} t t'"
    using transplant_ok[OF C(1,2) _ C(3-6) zrep_parent_node[OF Z] n] root_of_plug_nil[OF Z] by blast
  have nil': "nil t' = nil t" using t'(5) by (simp add: same_but_def)
  have "tree_at (nil t) (parent_color t') (left t') (right t') ?p X"
    unfolding t'(3) using T t'(4) by (intro tree_at_reparent[OF T(1,2)]) auto
  moreover have "w_color (parent_color t' (nil t)) = BST_BLACK \<and> w_parent (parent_color t' ?n) = ?p"
    using t'(3) zrep_parent_node[OF Z] C(8) tree_at_nil[OF T(1)] by (cases X) auto
  ultimately have "gap t' k X" using t'(2) nil' C T by (auto simp: gap_def zrep_def)
  thus ?thesis using t'(1,5) by blast
qed

section \<open>A node with two children\<close>

text \<open>
  The successor \<open>y\<close> is cut out of the right subtree, which becomes \<open>R\<close> and hangs below \<open>y\<close>, while \<open>a\<close>
  is still linked to its parent and its left subtree.
\<close>

definition in_place :: "('k, 'v) jfs_bst \<Rightarrow> frame list \<Rightarrow> ntree \<Rightarrow> color \<Rightarrow> addr \<Rightarrow> addr \<Rightarrow> ntree \<Rightarrow> bool" where
  "in_place t k l c a y R \<longleftrightarrow>
     node_addr (nil t) \<and> w_color (parent_color t (nil t)) = BST_BLACK
     \<and> ctx_at (nil t) (parent_color t) (left t) (right t) (root t) a k
     \<and> node_addr a \<and> a \<noteq> nil t \<and> parent_color t a = pack (ctx_parent (nil t) k) c \<and> left t a = root_of (nil t) l
     \<and> tree_at (nil t) (parent_color t) (left t) (right t) a l
     \<and> node_addr y \<and> y \<noteq> nil t \<and> right t y = root_of (nil t) R \<and> tree_at (nil t) (parent_color t) (left t) (right t) y R
     \<and> distinct (a # y # inorder l @ inorder R @ ctx_nodes k)"

definition cut_next :: "('k, 'v) jfs_bst \<Rightarrow> addr \<Rightarrow> addr \<Rightarrow> ('k, 'v) jfs_bst run" where
  "cut_next t node next =
     (if next \<noteq> right t node then
        run_bind (bst_transplant t next (right t next)) (\<lambda>t.
        let t = t\<lparr>right := (right t)(next := right t node)\<rparr> in
        bst_set_parent t (right t next) next)
      else bst_set_parent t (right t next) next)"

definition put_in_place :: "('k, 'v) jfs_bst \<Rightarrow> addr \<Rightarrow> addr \<Rightarrow> ('k, 'v) jfs_bst run" where
  "put_in_place t node next =
     run_bind (bst_transplant t node next) (\<lambda>t.
     let t = t\<lparr>left := (left t)(next := left t node)\<rparr> in
     run_bind (bst_set_parent t (left t next) next) (\<lambda>t.
     run_bind (bst_color t node) (\<lambda>c. bst_set_color t next c)))"

lemma delete_two_eq:
  assumes "a \<noteq> nil t" "left t a \<noteq> nil t" "right t a \<noteq> nil t" "bst_color t a = Ret c0"
  shows "bst_delete fuel t a =
    run_bind (bst_local_minimum fuel t (right t a)) (\<lambda>y.
    run_bind (bst_color t y) (\<lambda>d.
    run_bind (cut_next t a y) (\<lambda>t1.
    run_bind (put_in_place t1 a y) (\<lambda>t1.
    if d = BST_BLACK then bst_fixup_delete fuel t1 (right t y) else Ret t1))))"
  using assms by (simp add: bst_delete_def cut_next_def put_in_place_def Let_def run_bind_assoc)

lemma ctx_at_parent_node: "ctx_at N pc lf rt rp p k \<Longrightarrow> node_addr N \<Longrightarrow> node_addr (ctx_parent N k)"
  by (cases k rule: ctx_nodes.cases) auto

lemma ctx_at_root_not_nil: "ctx_at N pc lf rt rp p k \<Longrightarrow> p \<noteq> N \<Longrightarrow> rp \<noteq> N"
  using ctx_root[of N pc lf rt rp p k] ctx_at_nil[of N pc lf rt rp p k] by (cases k) auto

lemma put_in_place_ok:
  assumes P: "in_place t k l c a y R" and l: "l \<noteq> Tip"
  shows "\<exists>t'. put_in_place t a y = Ret t' \<and> zrep t' k (Nd l c y R) \<and> parent_color t' (nil t) = parent_color t (nil t)
    \<and> same_but (insert y (insert (ctx_parent (nil t) k) (set (inorder l)))) t t'"
proof -
  let ?p = "ctx_parent (nil t) k"
  have C: "ctx_at (nil t) (parent_color t) (left t) (right t) (root t) a k" "distinct (ctx_nodes k)"
    "a \<notin> set (ctx_nodes k)" "node_addr a" "a \<noteq> nil t" "parent_color t a = pack ?p c" "node_addr (nil t)"
    using P by (auto simp: in_place_def)
  have N: "node_addr ?p" "root t \<noteq> nil t" using ctx_at_parent_node[OF C(1,7)] ctx_at_root_not_nil[OF C(1,5)] by auto
  obtain d where d: "w_color (parent_color t y) = cw d" using w_color_cw by blast
  have y: "y \<noteq> a" "y \<noteq> NULL" "y \<notin> set (ctx_nodes k)" using P by (auto simp: in_place_def)
  obtain t1 where t1: "bst_transplant t a y = Ret t1"
    "ctx_at (nil t) (parent_color t1) (left t1) (right t1) (root t1) y k"
    "parent_color t1 = (parent_color t)(y := pack ?p d)"
    "\<forall>x. x \<notin> set (ctx_nodes k) \<longrightarrow> left t1 x = left t x \<and> right t1 x = right t x"
    "same_but {y, ?p} t t1"
    using transplant_ok[OF C(1,2) N(2) C(3-6) N(1) y d] by blast
  have n1: "nil t1 = nil t" using t1(5) by (simp add: same_but_def)
  obtain ll e b lr where L: "l = Nd ll e b lr" using l by (cases l) auto
  have b: "b \<noteq> y" "b \<noteq> a" "b \<notin> set (ctx_nodes k)" "parent_color t b = pack a e" "node_addr b" "node_addr a" "left t a = b" "b \<noteq> nil t"
    using P L by (auto simp: in_place_def)
  have agree: "set (inorder U) \<inter> set (ctx_nodes k) = {} \<Longrightarrow>
      tree_at N pc (left t1) (right t1) par U = tree_at N pc (left t) (right t) par U" for N pc par U
    using t1(4) by (intro tree_at_links_cong) blast
  have dj: "set (inorder ll) \<inter> set (ctx_nodes k) = {}" "set (inorder lr) \<inter> set (ctx_nodes k) = {}"
    "set (inorder R) \<inter> set (ctx_nodes k) = {}" using P L by (auto simp: in_place_def)
  let ?t2 = "t1\<lparr>left := (left t1)(y := b)\<rparr>"
  let ?t3 = "?t2\<lparr>parent_color := (parent_color t1)(b := pack y e)\<rparr>"
  let ?t4 = "?t3\<lparr>parent_color := (parent_color ?t3)(y := pack ?p c)\<rparr>"
  have s2: "bst_set_parent ?t2 b y = Ret ?t3" using bst_set_parent_eq[of ?t2 b e y] b t1(3) y by simp
  have s3: "bst_color ?t3 a = Ret (cw c)" using C(4,6) N(1) t1(3) y b by (simp add: bst_color_eq)
  have s4: "bst_set_color ?t3 y (cw c) = Ret ?t4" using t1(3) b N(1) y by (simp add: bst_set_color_eq)
  have "put_in_place t a y = Ret ?t4"
    using t1(1,4) b(7) C(3) s2 s3 s4 by (simp add: put_in_place_def Let_def)
  moreover have "zrep ?t4 k (Nd l c y R)"
  proof -
    have "ctx_at (nil t) (parent_color ?t4) (left ?t4) (right ?t4) (root ?t4) y k"
      using t1(2) y b by simp
    moreover have "tree_at (nil t) (parent_color ?t4) (left ?t4) (right ?t4) y R"
      using P L t1(3) agree[OF dj(3)] by (auto simp: in_place_def)
    moreover have "tree_at (nil t) (parent_color ?t4) (left ?t4) (right ?t4) y l"
      using P L t1(3,4) b agree[OF dj(1)] agree[OF dj(2)] by (auto simp: in_place_def)
    moreover have "distinct (inorder (Nd l c y R) @ ctx_nodes k)" using P by (auto simp: in_place_def)
    moreover have "node_addr y" "y \<noteq> nil t" "right t1 y = root_of (nil t) R" "w_color (parent_color t1 (nil t)) = BST_BLACK"
      using P t1(3,4) y by (auto simp: in_place_def)
    ultimately show ?thesis using n1 C(7) L b(8) by (simp add: zrep_def)
  qed
  moreover have "same_but (insert y (insert ?p (set (inorder l)))) t ?t4"
    using t1(5) L by (auto simp: same_but_def)
  moreover have "parent_color ?t4 (nil t) = parent_color t (nil t)" using P t1(3) b(8) by (auto simp: in_place_def)
  ultimately show ?thesis by blast
qed

lemma zrep_append: "zrep t (k2 @ k) T \<longleftrightarrow> zrep t k (plug k2 T)"
  by (induction k2 arbitrary: T) (simp_all add: zrep_push)

lemma znodes_append: "znodes (k2 @ k) T = znodes k (plug k2 T)"
  by (induction k2 arbitrary: T) (simp_all add: znodes_push)

lemma ctx_nodes_append: "ctx_nodes (k2 @ k) = ctx_nodes k2 @ ctx_nodes k"
  by (induction k2 rule: ctx_nodes.induct) auto

lemma root_of_plug: "k \<noteq> [] \<Longrightarrow> root_of N (plug k T) \<in> set (ctx_nodes k)"
proof (induction k arbitrary: T)
  case (Cons f k)
  show ?case
  proof (cases "k = []")
    case False
    from Cons.IH[OF this, of "fill f T"] show ?thesis by (cases f) auto
  qed (cases f; simp)
qed simp

lemma in_place_simple:
  assumes "zrep t k (Nd l c a R)" "node_addr y" "y \<noteq> nil t" "y \<notin> znodes k (Nd l c a R)"
    "t' = t\<lparr>right := (right t)(y := root_of (nil t) R), parent_color := (parent_color t)(root_of (nil t) R := pack y (col R))\<rparr>" "R \<noteq> Tip"
  shows "in_place t' k l c a y R"
  using assms by (cases R) (auto simp: zrep_def in_place_def znodes_def)

lemma in_place_shallow:
  assumes "zrep t k (Nd l c a (Nd Tip d y s))"
    "t' = t\<lparr>parent_color := (parent_color t)(root_of (nil t) s := pack y (col s))\<rparr>"
  shows "in_place t' k l c a y s"
  using assms by (cases s) (auto simp: zrep_def in_place_def)

lemma cut_next_shallow:
  assumes Z: "zrep t k (Nd l c a (Nd Tip d y s))"
  shows "\<exists>t1. cut_next t a y = Ret t1 \<and> in_place t1 k l c a y s \<and> (s = Tip \<longrightarrow> w_parent (parent_color t1 (nil t)) = y)
    \<and> same_but (insert (nil t) (znodes k (Nd l c a (Nd Tip d y s)) - {a})) t t1"
proof -
  let ?t1 = "t\<lparr>parent_color := (parent_color t)(root_of (nil t) s := pack y (col s))\<rparr>"
  have y: "right t a = y" "right t y = root_of (nil t) s" "node_addr y" "node_addr (nil t)" "w_color (parent_color t (nil t)) = BST_BLACK"
    using Z by (auto simp: zrep_def)
  have "w_color (parent_color t (root_of (nil t) s)) = cw (col s)" "root_of (nil t) s \<noteq> NULL"
    using Z by (cases s; auto simp: zrep_def)+
  hence "cut_next t a y = Ret ?t1" using y bst_set_parent_eq[of t "root_of (nil t) s" "col s" y] by (simp add: cut_next_def)
  moreover have "same_but (insert (nil t) (znodes k (Nd l c a (Nd Tip d y s)) - {a})) t ?t1"
    using Z by (cases s) (auto simp: same_but_def znodes_def zrep_def)
  ultimately show ?thesis using in_place_shallow[OF Z refl] y(3) by (cases s) auto
qed

lemma cut_next_deep:
  assumes Z: "zrep t k (Nd l c a (plug k2 (Nd Tip d y s)))" and k2: "k2 \<noteq> []"
  shows "\<exists>t1. cut_next t a y = Ret t1 \<and> in_place t1 k l c a y (plug k2 s)
    \<and> (s = Tip \<longrightarrow> w_parent (parent_color t1 (nil t)) = ctx_parent (nil t) k2)
    \<and> same_but (insert (nil t) (znodes k (Nd l c a (plug k2 (Nd Tip d y s))) - {a})) t t1"
proof -
  let ?k = "k2 @ RF l c a # k" and ?R = "plug k2 s" and ?S = "znodes k (Nd l c a (plug k2 (Nd Tip d y s)))"
  have Zy: "zrep t ?k (Nd Tip d y s)" and S: "znodes ?k (Nd Tip d y s) = ?S"
    using Z by (simp_all add: zrep_append zrep_push znodes_append znodes_push)
  have y: "right t y = root_of (nil t) s" "node_addr y" "y \<noteq> nil t" "y \<notin> set (ctx_nodes k2)" "y \<noteq> a" "y \<notin> set (inorder s)"
    "y \<notin> set (inorder l)" "y \<notin> set (ctx_nodes k)" "a \<notin> set (ctx_nodes k2)" "a \<notin> set (inorder s)" "a \<noteq> nil t"
    "a \<notin> set (ctx_nodes k)" "a \<notin> set (inorder l)"
    using Zy by (auto simp: zrep_def ctx_nodes_append ctx_at_nil zrep_links[OF Z])
  have "right t a = root_of (nil t) (plug k2 (Nd Tip d y s))" using zrep_links[OF Z] by simp
  hence far: "y \<noteq> right t a" using root_of_plug[OF k2] y(4) by metis
  obtain t1 where t1: "bst_transplant t y (root_of (nil t) s) = Ret t1" "gap t1 ?k s" "same_but {root_of (nil t) s, ctx_parent (nil t) ?k} t t1"
    using transplant_child[OF Zy, of s] by blast
  have n1: "nil t1 = nil t" using t1(3) by (simp add: same_but_def)
  have Z1: "zrep t1 k (Nd l c a ?R)" using t1(2) by (simp add: gap_def zrep_append zrep_push)
  have inR: "set (inorder ?R) = set (inorder s) \<union> set (ctx_nodes k2)" using znodes_plug[of k2 s] by (simp add: znodes_def)
  have R: "?R \<noteq> Tip" using k2 by simp
  let ?b = "root_of (nil t) ?R"
  let ?t2 = "t1\<lparr>right := (right t1)(y := ?b)\<rparr>"
  let ?t3 = "t1\<lparr>right := (right t1)(y := ?b), parent_color := (parent_color t1)(?b := pack y (col ?R))\<rparr>"
  have b: "?b \<in> set (ctx_nodes k2)" "?b \<noteq> nil t" "?b \<noteq> NULL" "w_color (parent_color t1 ?b) = cw (col ?R)"
    using root_of_plug[OF k2] Z1 n1 R by (auto simp: zrep_def) (cases ?R; auto)+
  have "bst_set_parent ?t2 ?b y = Ret ?t3" using bst_set_parent_eq[of ?t2 ?b "col ?R" y] b y(2) by simp
  hence "cut_next t a y = Ret ?t3"
    using far t1(1) y(1) zrep_links[OF Z1] n1 by (simp add: cut_next_def Let_def)
  moreover have "in_place ?t3 k l c a y ?R"
    using y inR n1 by (intro in_place_simple[OF Z1 y(2) _ _ _ R]) (auto simp: znodes_def)
  moreover have "s = Tip \<longrightarrow> w_parent (parent_color ?t3 (nil t)) = ctx_parent (nil t) k2"
    using t1(2) n1 b(2) k2 by (cases k2) (auto simp: gap_def)
  moreover have "same_but (insert (nil t) (?S - {a})) t ?t3"
  proof -
    have S': "?S = {a, y} \<union> set (inorder s) \<union> set (inorder l) \<union> set (ctx_nodes k2) \<union> set (ctx_nodes k)"
      unfolding S[symmetric] by (auto simp: znodes_def ctx_nodes_append)
    have "root_of (nil t) s \<in> insert (nil t) (set (inorder s))" by (cases s) auto
    moreover have "ctx_parent (nil t) ?k \<in> set (ctx_nodes k2)" using k2 by (cases k2 rule: ctx_nodes.cases) auto
    ultimately have "same_but (insert (nil t) (?S - {a})) t t1"
      using y(9,10) by (intro same_but_mono[OF t1(3)]) (auto simp: S')
    thus ?thesis using b(1) y(5,9) by (auto simp: same_but_def S')
  qed
  ultimately show ?thesis by blast
qed

section \<open>Deleting a node\<close>

lemma inorder_eq_Nil [simp]: "inorder T = [] \<longleftrightarrow> T = Tip" "[] = inorder T \<longleftrightarrow> T = Tip"
  by (cases T; simp)+

lemma local_minimum_ok:
  "zrep t k T \<Longrightarrow> T \<noteq> Tip \<Longrightarrow> height T \<le> fuel \<Longrightarrow> bst_local_minimum fuel t (root_of (nil t) T) = Ret (hd (inorder T))"
proof (induction T arbitrary: k fuel)
  case (Nd l c a r)
  then obtain fl where fl: "fuel = Suc fl" "height l \<le> fl" by (cases fuel) auto
  have Z: "zrep t (LF c a r # k) l" using Nd.prems(1) by (simp add: zrep_push)
  have "root_of (nil t) l = nil t \<longleftrightarrow> l = Tip" using Z by (cases l) (auto simp: zrep_def)
  thus ?case using Nd.IH(1)[OF Z _ fl(2)] zrep_links[OF Nd.prems(1)] fl(1) by (cases "l = Tip") auto
qed simp

lemma local_maximum_ok:
  "zrep t k T \<Longrightarrow> T \<noteq> Tip \<Longrightarrow> height T \<le> fuel \<Longrightarrow> bst_local_maximum fuel t (root_of (nil t) T) = Ret (last (inorder T))"
proof (induction T arbitrary: k fuel)
  case (Nd l c a r)
  then obtain fl where fl: "fuel = Suc fl" "height r \<le> fl" by (cases fuel) auto
  have Z: "zrep t (RF l c a # k) r" using Nd.prems(1) by (simp add: zrep_push)
  have "root_of (nil t) r = nil t \<longleftrightarrow> r = Tip" using Z by (cases r) (auto simp: zrep_def)
  thus ?case using Nd.IH(2)[OF Z _ fl(2)] zrep_links[OF Nd.prems(1)] fl(1) by (cases "r = Tip") auto
qed simp

lemma height_plug: "length k + height T \<le> height (plug k T)"
proof (induction k arbitrary: T)
  case (Cons f k)
  from Cons.IH[of "fill f T"] show ?case by (cases f) auto
qed simp

text \<open>Closing the gap in memory, when a node of the colour \<open>d\<close> has been cut out.\<close>

lemma close_gap_ok:
  assumes g: "gap t k T" and ok: "ctx_ok k (bh T + (if d = Black then 1 else 0))" and fuel: "length k < fuel"
  shows "\<exists>t'. (if d = Black then bst_fixup_delete fuel t (root_of (nil t) T) else Ret t) = Ret t'
    \<and> zrep t' [] (close_gap d k T) \<and> same_but (insert (nil t) (znodes k T)) t t'"
proof (cases d)
  case Red
  have "zrep t [] (plug k T)" using g zrep_plug[of t k T] by (simp add: gap_def)
  thus ?thesis using Red by (auto simp: close_gap_def)
next
  case Black
  hence "has_sibling k" using ok ctx_ok_has_sibling by simp
  from fixup_delete_ok[OF g this fuel] show ?thesis using Black by (auto simp: del_loop_ok_def close_gap_def)
qed

definition deleted :: "nat \<Rightarrow> ('k, 'v) jfs_bst \<Rightarrow> frame list \<Rightarrow> ntree \<Rightarrow> addr \<Rightarrow> bool" where
  "deleted fuel t k T a \<longleftrightarrow> (\<exists>t'. bst_delete fuel t a = Ret t' \<and> zrep t' [] (del_node k T)
     \<and> same_but (insert (nil t) (znodes k T - {a})) t t')"

lemma delete_one_child:
  assumes Z: "zrep t k (Nd l c a r)" and rb: "rb_tree (plug k (Nd l c a r))" and fuel: "height (plug k (Nd l c a r)) < fuel"
    and one: "l = Tip \<or> r = Tip"
  shows "deleted fuel t k (Nd l c a r) a"
proof -
  let ?S = "znodes k (Nd l c a r)"
  obtain X where X: "X = (if l = Tip then r else l)" by simp
  obtain t1 where t1: "bst_transplant t a (root_of (nil t) X) = Ret t1" "gap t1 k X" "same_but {root_of (nil t) X, ctx_parent (nil t) k} t t1"
    using transplant_child[OF Z, of X] X by (cases "l = Tip") auto
  have n1: "nil t1 = nil t" using t1(3) by (simp add: same_but_def)
  have cut: "cut_node k (Nd l c a r) = (k, X, c)" using one X by auto
  have "length k < fuel" using height_plug[of k "Nd l c a r"] fuel by simp
  from close_gap_ok[OF t1(2) _ this, of c, unfolded n1] cut_node_ok[OF rb cut] obtain t' where
    t': "(if c = Black then bst_fixup_delete fuel t1 (root_of (nil t) X) else Ret t1) = Ret t'"
      "zrep t' [] (close_gap c k X)" "same_but (insert (nil t) (znodes k X)) t1 t'" by blast
  have nodes: "znodes k X \<subseteq> ?S - {a}" using zrep_distinct[OF Z] X by (auto simp: znodes_def split: if_splits)
  have "root_of (nil t) X \<in> insert (nil t) (set (inorder X))" by (cases X) auto
  moreover have "ctx_parent (nil t) k \<in> insert (nil t) (set (ctx_nodes k))" by (cases k rule: ctx_nodes.cases) auto
  ultimately have "same_but (insert (nil t) (?S - {a})) t t1"
    using nodes by (intro same_but_mono[OF t1(3)]) (auto simp: znodes_def)
  moreover have "same_but (insert (nil t) (?S - {a})) t1 t'" using t'(3) by (rule same_but_mono) (use nodes in auto)
  ultimately have same: "same_but (insert (nil t) (?S - {a})) t t'" by (rule same_but_trans)
  have L: "left t a = root_of (nil t) l" "right t a = root_of (nil t) r" "a \<noteq> nil t" using zrep_links[OF Z] by auto
  have nl: "root_of (nil t) l = nil t \<longleftrightarrow> l = Tip" using Z by (cases l) (auto simp: zrep_def)
  have nr: "r = Tip \<Longrightarrow> root_of (nil t) r = nil t" by simp
  have "bst_delete fuel t a = Ret t'"
    using L nl nr one t1(1) t'(1) zrep_color[OF Z] X by (auto simp: bst_delete_def Let_def split: if_splits)
  thus ?thesis using t'(2) same cut by (auto simp: deleted_def del_node_def)
qed

lemma unlink_two:
  assumes Z: "zrep t k (Nd l c a (plug k2 (Nd Tip d y s)))" and k2: "ctx_left k2 = []" and l: "l \<noteq> Tip"
  shows "\<exists>t1 t2. cut_next t a y = Ret t1 \<and> put_in_place t1 a y = Ret t2 \<and> gap t2 (k2 @ RF l c y # k) s
    \<and> same_but (insert (nil t) (znodes k (Nd l c a (plug k2 (Nd Tip d y s))) - {a})) t t2
    \<and> znodes (k2 @ RF l c y # k) s = znodes k (Nd l c a (plug k2 (Nd Tip d y s))) - {a}"
proof -
  let ?r = "plug k2 (Nd Tip d y s)" and ?k = "k2 @ RF l c y # k"
  let ?S = "znodes k (Nd l c a ?r)"
  have inr: "inorder ?r = y # inorder s @ ctx_right k2" "inorder (plug k2 s) = inorder s @ ctx_right k2"
    using k2 by (simp_all add: inorder_plug)
  have dis: "distinct (a # y # inorder l @ inorder (plug k2 s) @ ctx_nodes k)"
    using zrep_distinct[OF Z] inr by auto
  obtain t1 where t1: "cut_next t a y = Ret t1" "in_place t1 k l c a y (plug k2 s)"
    "s = Tip \<Longrightarrow> w_parent (parent_color t1 (nil t)) = ctx_parent (nil t) (k2 @ [RF l c y])" "same_but (insert (nil t) (?S - {a})) t t1"
    using cut_next_shallow[of t k l c a d y s] cut_next_deep[of t k l c a k2 d y s] Z by (cases k2) auto
  have n1: "nil t1 = nil t" using t1(4) by (simp add: same_but_def)
  obtain t2 where t2: "put_in_place t1 a y = Ret t2" "zrep t2 k (Nd l c y (plug k2 s))"
    "parent_color t2 (nil t) = parent_color t1 (nil t)" "same_but (insert y (insert (ctx_parent (nil t) k) (set (inorder l)))) t1 t2"
    using put_in_place_ok[OF t1(2) l] n1 by auto
  have n2: "nil t2 = nil t" using t2(4) n1 by (simp add: same_but_def)
  have Z2: "zrep t2 ?k s" using t2(2) by (simp add: zrep_append zrep_push)
  have "gap t2 ?k s"
  proof (cases "s = Tip")
    case True
    thus ?thesis using Z2 t1(3) t2(3) n2 by (cases k2) (simp_all add: gap_def)
  qed (rule gap_node[OF Z2])
  moreover have "znodes ?k s = znodes k (Nd l c y (plug k2 s))" by (simp only: znodes_append znodes_push fill.simps)
  hence "znodes ?k s = ?S - {a}" using dis inr by (auto simp: znodes_def)
  moreover have "ctx_parent (nil t) k \<in> insert (nil t) (set (ctx_nodes k))" by (cases k rule: ctx_nodes.cases) auto
  hence "same_but (insert (nil t) (?S - {a})) t1 t2"
    using dis inr by (intro same_but_mono[OF t2(4)]) (auto simp: znodes_def)
  hence "same_but (insert (nil t) (?S - {a})) t t2" by (rule same_but_trans[OF t1(4)])
  ultimately show ?thesis using t1(1) t2(1) by blast
qed

lemma delete_two_children:
  assumes Z: "zrep t k (Nd l c a r)" and rb: "rb_tree (plug k (Nd l c a r))" and fuel: "height (plug k (Nd l c a r)) < fuel"
    and two: "l \<noteq> Tip" "r \<noteq> Tip"
  shows "deleted fuel t k (Nd l c a r) a"
proof -
  let ?S = "znodes k (Nd l c a r)"
  obtain k2 d y s where lm: "leftmost r [] = (k2 @ [], Nd Tip d y s)" and r: "plug k2 (Nd Tip d y s) = r" "ctx_left k2 = []"
    using leftmost_ex[OF two(2), of "[]"] by blast
  let ?k = "k2 @ RF l c y # k"
  have cut: "cut_node k (Nd l c a r) = (?k, s, d)" using two lm by simp
  have L: "left t a = root_of (nil t) l" "right t a = root_of (nil t) r" "a \<noteq> nil t" using zrep_links[OF Z] by auto
  have kids: "left t a \<noteq> nil t" "right t a \<noteq> nil t" using Z two L by (cases l; cases r; auto simp: zrep_def)+
  have Zr: "zrep t (RF l c a # k) r" using Z by (simp add: zrep_push)
  have Zy: "zrep t (k2 @ RF l c a # k) (Nd Tip d y s)" using Zr r(1) by (simp add: zrep_append)
  have h: "height r \<le> fuel" "length ?k < fuel"
    using height_plug[of k "Nd l c a r"] height_plug[of "k2 @ RF l c a # k" "Nd Tip d y s"] r(1) fuel by (simp_all add: plug_append)
  have "hd (inorder r) = y" using r inorder_plug[of k2 "Nd Tip d y s"] by auto
  hence min: "bst_local_minimum fuel t (right t a) = Ret y" using local_minimum_ok[OF Zr two(2) h(1)] L by simp
  have ycol: "bst_color t y = Ret (cw d)" "right t y = root_of (nil t) s" using zrep_color[OF Zy] zrep_links[OF Zy] by auto
  obtain t1 t2 where t2: "cut_next t a y = Ret t1" "put_in_place t1 a y = Ret t2" "gap t2 ?k s"
    "same_but (insert (nil t) (?S - {a})) t t2" "znodes ?k s = ?S - {a}"
    using unlink_two[OF Z[folded r(1)] r(2) two(1)] r(1) by auto
  have n2: "nil t2 = nil t" using t2(4) by (simp add: same_but_def)
  from close_gap_ok[OF t2(3) _ h(2), of d, unfolded n2] cut_node_ok[OF rb cut] obtain t' where
    t': "(if d = Black then bst_fixup_delete fuel t2 (root_of (nil t) s) else Ret t2) = Ret t'"
      "zrep t' [] (close_gap d ?k s)" "same_but (insert (nil t) (?S - {a})) t2 t'" unfolding t2(5) by blast
  have same: "same_but (insert (nil t) (?S - {a})) t t'" by (rule same_but_trans[OF t2(4) t'(3)])
  have "bst_color t a = Ret (cw c)" using zrep_color[OF Z] by simp
  from delete_two_eq[OF L(3) kids this, of fuel] have "bst_delete fuel t a = Ret t'"
    using min ycol(1) t2(1,2) t'(1)[folded ycol(2)] by simp
  thus ?thesis using t'(2) same cut by (auto simp: deleted_def del_node_def)
qed

lemma delete_ok:
  "zrep t k (Nd l c a r) \<Longrightarrow> rb_tree (plug k (Nd l c a r)) \<Longrightarrow> height (plug k (Nd l c a r)) < fuel \<Longrightarrow>
   deleted fuel t k (Nd l c a r) a"
  using delete_one_child delete_two_children by blast

end
