(* ===== verification/Bst_Take.thy ===== *)
theory Bst_Take
  imports Bst_Unlink
begin

text \<open>
  Taking values out of the search tree of \<open>src/binary_search_tree.c\<close>: \<open>bst_update_cache_delete\<close> finds the new
  ends of the tree from the links that the deleted node still has, and \<open>jfs_bst_takes\<close>, \<open>jfs_bst_get_largest\<close>
  and \<open>jfs_bst_get_smallest\<close> return the value and give the node back to the free list.
\<close>

section \<open>The cache after a deletion\<close>

lemma split_tree:
  assumes "a \<in> set (inorder T)"
  obtains k l c r where "plug k (Nd l c a r) = T"
proof -
  have "\<exists>k l c r. plug k (Nd l c a r) = T" using assms
  proof (induction T)
    case (Nd l c b r)
    consider "a = b" | "a \<in> set (inorder l)" | "a \<in> set (inorder r)" using Nd.prems by auto
    thus ?case
    proof cases
      case 1
      thus ?thesis by (intro exI[of _ "[]"]) auto
    next
      case 2
      from Nd.IH(1)[OF this] obtain k l' c' r' where "plug k (Nd l' c' a r') = l" by blast
      thus ?thesis by (intro exI[of _ "k @ [LF c b r]"]) (auto simp: plug_append)
    next
      case 3
      from Nd.IH(2)[OF this] obtain k l' c' r' where "plug k (Nd l' c' a r') = r" by blast
      thus ?thesis by (intro exI[of _ "k @ [RF l c b]"]) (auto simp: plug_append)
    qed
  qed simp
  thus ?thesis using that by blast
qed

lemma bh_zero_black: "bh T = 0 \<Longrightarrow> col T = Black \<Longrightarrow> T = Tip"
  by (cases T) auto

text \<open>The only child of a node is a red leaf, so a deletion of the node just puts it in its place and paints it black.\<close>

lemma only_child:
  assumes rb: "rb_tree (plug k (Nd l c a r))" and one: "l = Tip \<or> r = Tip" "X = (if l = Tip then r else l)" "X \<noteq> Tip"
  obtains x where "X = Nd Tip Red x Tip" "del_node k (Nd l c a r) = plug k (Nd Tip Black x Tip)"
proof -
  have ok: "redok (Nd l c a r)" "balanced (Nd l c a r)" using split_rb[of k "Nd l c a r"] rb by (simp_all add: rb_tree_def)
  hence bh: "bh X = 0" "redok X" "balanced X" using one by (auto split: if_splits)
  then obtain x where x: "X = Nd Tip Red x Tip"
    using one(3) bh_zero_black by (cases X) (auto split: if_splits)
  have c: "c = Black" using ok(1) one x by (cases c) (auto split: if_splits)
  have "fix_del k X = plug k (Nd Tip Black x Tip)" using x by (cases k rule: ctx_nodes.cases) auto
  thus ?thesis using that[OF x] one c by (auto simp: del_node_def close_gap_def split: if_splits)
qed

text \<open>
  The state after \<open>bst_delete\<close>: \<open>t\<close> is the state before, with the node \<open>a\<close> at the context \<open>k\<close>, and \<open>t'\<close> the state
  after, in which the fields of \<open>a\<close> have not changed.
\<close>

definition unlinked :: "('k, 'v) jfs_bst \<Rightarrow> ('k, 'v) jfs_bst \<Rightarrow> frame list \<Rightarrow> ntree \<Rightarrow> addr \<Rightarrow> bool" where
  "unlinked t t' k T a \<longleftrightarrow> zrep t k T \<and> rb_tree (plug k T) \<and> zrep t' [] (del_node k T)
     \<and> same_but (insert (nil t) (znodes k T - {a})) t t'"

lemma unlinked_links:
  assumes "unlinked t t' k (Nd l c a r) a"
  shows "left t' a = root_of (nil t) l \<and> right t' a = root_of (nil t) r \<and> bst_parent t' a = Ret (ctx_parent (nil t) k)
    \<and> nil t' = nil t \<and> cache t' = cache t \<and> a \<noteq> nil t"
proof -
  have Z: "zrep t k (Nd l c a r)" and S: "same_but (insert (nil t) (znodes k (Nd l c a r) - {a})) t t'"
    using assms by (simp_all add: unlinked_def)
  have L: "left t a = root_of (nil t) l \<and> right t a = root_of (nil t) r \<and> a \<noteq> nil t" using zrep_links[OF Z] by simp
  moreover have "parent_color t' a = parent_color t a \<and> left t' a = left t a \<and> right t' a = right t a"
    using S L by (simp add: same_but_def)
  moreover have "bst_parent t a = Ret (ctx_parent (nil t) k)" using zrep_parent[OF Z] by simp
  ultimately show ?thesis using S by (simp add: same_but_def bst_parent_eq)
qed

lemma new_smallest:
  assumes U: "unlinked t t' k (Nd Tip c a r) a" and k: "ctx_left k = []" and ne: "k \<noteq> [] \<or> r \<noteq> Tip" and fuel: "0 < fuel"
  shows "(if right t' a \<noteq> nil t' then bst_local_minimum fuel t' (right t' a) else bst_parent t' a)
    = Ret (hd (inorder r @ ctx_right k))"
proof (cases "r = Tip")
  case True
  thus ?thesis using unlinked_links[OF U] ne k by (cases k rule: ctx_nodes.cases) auto
next
  case False
  obtain x where x: "r = Nd Tip Red x Tip" "del_node k (Nd Tip c a r) = plug k (Nd Tip Black x Tip)"
    using only_child[of k Tip c a r r] U False unfolding unlinked_def by auto
  have Z: "zrep t' k (Nd Tip Black x Tip)" using U x(2) zrep_plug[of t' k] by (simp add: unlinked_def)
  from local_minimum_ok[OF Z, of fuel] zrep_links[OF Z] fuel show ?thesis using unlinked_links[OF U] x(1) by simp
qed

lemma new_largest:
  assumes U: "unlinked t t' k (Nd l c a Tip) a" and k: "ctx_right k = []" and ne: "k \<noteq> [] \<or> l \<noteq> Tip" and fuel: "0 < fuel"
  shows "(if left t' a \<noteq> nil t' then bst_local_maximum fuel t' (left t' a) else bst_parent t' a)
    = Ret (last (ctx_left k @ inorder l))"
proof (cases "l = Tip")
  case True
  thus ?thesis using unlinked_links[OF U] ne k by (cases k rule: ctx_nodes.cases) auto
next
  case False
  obtain x where x: "l = Nd Tip Red x Tip" "del_node k (Nd l c a Tip) = plug k (Nd Tip Black x Tip)"
    using only_child[of k l c a Tip l] U False unfolding unlinked_def by auto
  have Z: "zrep t' k (Nd Tip Black x Tip)" using U x(2) zrep_plug[of t' k] by (simp add: unlinked_def)
  from local_maximum_ok[OF Z, of fuel] zrep_links[OF Z] fuel show ?thesis using unlinked_links[OF U] x(1) by simp
qed

lemma hd_mid: "distinct (L @ a # R) \<Longrightarrow> hd (L @ a # R) = a \<longleftrightarrow> L = []"
  by (cases L) auto

lemma last_mid: "distinct (L @ a # R) \<Longrightarrow> last (L @ a # R) = a \<longleftrightarrow> R = []"
  by (cases R rule: rev_cases) auto

lemma ends_differ: "distinct xs \<Longrightarrow> 2 \<le> length xs \<Longrightarrow> hd xs \<noteq> last xs"
  by (cases xs) auto

lemma update_cache_delete_ok:
  assumes U: "unlinked t t' k (Nd l c a r) a" and ends: "ends_ok t (inorder (plug k (Nd l c a r)))"
    and two: "2 \<le> length (inorder (plug k (Nd l c a r)))" and fuel: "0 < fuel"
  shows "bst_update_cache_delete fuel t' a = Ret (t'\<lparr>cache := (cache t')\<lparr>
    smallest := hd (ctx_left k @ inorder l @ inorder r @ ctx_right k), largest := last (ctx_left k @ inorder l @ inorder r @ ctx_right k)\<rparr>\<rparr>)"
proof -
  let ?L = "ctx_left k @ inorder l" and ?R = "inorder r @ ctx_right k"
  have Z: "zrep t k (Nd l c a r)" using U by (simp add: unlinked_def)
  have io: "inorder (plug k (Nd l c a r)) = ?L @ a # ?R" by (simp add: inorder_plug)
  have dis: "distinct (?L @ a # ?R)" using zrep_distinct[OF Z[unfolded zrep_plug[of t k]]] unfolding io[symmetric] by simp
  have ne: "?L \<noteq> [] \<or> ?R \<noteq> []" using two unfolding io by auto
  have sm: "smallest (cache t') = hd (?L @ a # ?R)" and la: "largest (cache t') = last (?L @ a # ?R)"
    using ends unlinked_links[OF U] unfolding ends_ok_def io by auto
  have diff: "smallest (cache t') \<noteq> largest (cache t')"
    using ends_differ[OF dis] two sm la unfolding io by simp
  note links = unlinked_links[OF U]
  consider (first) "?L = []" | (last) "?L \<noteq> []" "?R = []" | (mid) "?L \<noteq> []" "?R \<noteq> []" by blast
  thus ?thesis
  proof cases
    case first
    hence l: "l = Tip" "ctx_left k = []" by simp_all
    have "k \<noteq> [] \<or> r \<noteq> Tip" using ne first by auto
    from new_smallest[OF U[unfolded l(1)] l(2) this fuel] l links sm la first ne diff show ?thesis
      by (auto simp: bst_update_cache_delete_def last_append)
  next
    case last
    hence r: "r = Tip" "ctx_right k = []" by simp_all
    have "k \<noteq> [] \<or> l \<noteq> Tip" using ne last by auto
    from new_largest[OF U[unfolded r(1)] r(2) this fuel] r links sm la last ne diff hd_mid[OF dis] show ?thesis
      by (auto simp: bst_update_cache_delete_def hd_append)
  next
    case mid
    have "smallest (cache t') \<noteq> a" "largest (cache t') \<noteq> a" using sm la mid hd_mid[OF dis] last_mid[OF dis] by auto
    hence "bst_update_cache_delete fuel t' a = Ret t'" using diff by (simp add: bst_update_cache_delete_def)
    moreover have "hd (?L @ a # ?R) = hd (?L @ ?R)" "last (?L @ a # ?R) = last (?L @ ?R)" using mid by (simp_all add: hd_append last_append)
    ultimately show ?thesis using sm la cache_both(1)[of t'] by simp
  qed
qed

section \<open>Taking a node out\<close>

lemma pool_bound:
  assumes "distinct (a # xs)" "NULL \<notin> set (a # xs)"
  shows "Suc (length xs) < 2 ^ 64"
proof -
  have "card (set (NULL # a # xs)) \<le> card (UNIV :: 64 word set)" by (rule card_mono) auto
  moreover have "card (set (NULL # a # xs)) = Suc (Suc (length xs))" using assms by (simp add: distinct_card)
  ultimately show ?thesis by (simp add: card_word)
qed

lemma zrep_free_cell: "zrep t [] T \<Longrightarrow> a \<notin> set (inorder T) \<Longrightarrow> a \<noteq> nil t \<Longrightarrow>
  zrep (t\<lparr>parent_color := (parent_color t)(a := x), free_list := fl\<rparr>) [] T"
  by (simp add: zrep_def)

text \<open>What a deletion leaves alone besides the tree.\<close>

definition only_removed :: "('k, 'v) jfs_bst \<Rightarrow> ('k, 'v) jfs_bst \<Rightarrow> bool" where
  "only_removed t t' \<longleftrightarrow> vals t' = vals t \<and> value_offset t' = value_offset t \<and> node_list t' = node_list t \<and> nil t' = nil t
     \<and> copy_fits t' = copy_fits t \<and> previous (cache t') = previous (cache t)"

lemma only_removed_val: "only_removed t t' \<Longrightarrow> val_at t' = val_at t"
  by (rule ext) (simp add: only_removed_def val_at_def)

lemma detach_and_delete_eq:
  assumes "bst_delete fuel t a = Ret t1" "bst_update_cache_delete fuel t1 a = Ret t2" "value_offset t > 0" "copy_fits t" "root t \<noteq> nil t"
    "detach t (a + value_offset t) = (a + value_offset t, t)"
  shows "bst_detach_and_delete detach fuel t a = Ret (bst_fl_free t2 a, val_at t a)"
  using assms by (simp add: bst_detach_and_delete_def container_value_off val_at_def Let_def)

lemma sorted_wrt_drop_mid: "sorted_wrt P (map f (xs @ ys @ a # zs @ us)) \<Longrightarrow> sorted_wrt P (map f (xs @ ys @ zs @ us))"
  by (auto simp: sorted_wrt_append)

lemma take_node:
  assumes core: "bst_core key_of t T free" and a: "a \<in> set (inorder T)" and two: "2 \<le> length (inorder T)"
    and fuel: "height T < fuel" and det: "detach t (a + value_offset t) = (a + value_offset t, t)"
  shows "\<exists>t' T'. bst_detach_and_delete detach fuel t a = Ret (t', val_at t a) \<and> bst_core key_of t' T' (a # free)
    \<and> inorder T' = remove1 a (inorder T) \<and> only_removed t t'"
proof -
  have Z: "zrep t [] T" and rb: "rb_tree T" and so: "sorted_wrt (<) (map (key_of \<circ> val_at t) (inorder T))"
    and ends: "ends_ok t (inorder T)" and off: "value_offset t > 0" "copy_fits t" and fr: "fl_rep (parent_color t) (free_list t) free"
    and dj: "set free \<inter> set (inorder T) = {}" "nil t \<notin> set free" "\<forall>b\<in>set free. node_addr b"
    using core by (simp_all add: bst_core_def)
  obtain k l c r where T: "plug k (Nd l c a r) = T" using split_tree[OF a] by blast
  let ?N = "Nd l c a r" and ?T' = "del_node k (Nd l c a r)"
  have Zk: "zrep t k ?N" using Z T zrep_plug[of t k ?N] by simp
  have na: "a \<noteq> nil t" "node_addr a" using zrep_links[OF Zk] by auto
  obtain t1 where t1: "bst_delete fuel t a = Ret t1" "zrep t1 [] ?T'" "same_but (insert (nil t) (znodes k ?N - {a})) t t1"
    using delete_ok[OF Zk] rb fuel T by (auto simp: deleted_def)
  have U: "unlinked t t1 k ?N a" using Zk rb t1 T by (simp add: unlinked_def)
  have io: "inorder T = ctx_left k @ inorder l @ a # inorder r @ ctx_right k" using inorder_plug[of k ?N] T by simp
  have io': "inorder ?T' = ctx_left k @ inorder l @ inorder r @ ctx_right k" using inorder_del_node[of k l c a r] rb T by simp
  have dis: "distinct (inorder T)" using zrep_distinct[OF Z] by simp
  have rem: "inorder ?T' = remove1 a (inorder T)" using dis unfolding io io' by (simp add: remove1_append)
  let ?t2 = "t1\<lparr>cache := (cache t1)\<lparr>smallest := hd (inorder ?T'), largest := last (inorder ?T')\<rparr>\<rparr>"
  have t2: "bst_update_cache_delete fuel t1 a = Ret ?t2"
    using update_cache_delete_ok[OF U, of fuel] ends two fuel T unfolding io' by auto
  have nodes: "znodes k ?N = set (inorder T)" using znodes_plug[of k ?N] T by simp
  have "\<forall>b\<in>set free. b \<notin> insert (nil t) (znodes k ?N - {a})" using dj(1,2) unfolding nodes by blast
  hence "\<forall>b\<in>set free. parent_color ?t2 b = parent_color t b" using t1(3) by (simp add: same_but_def)
  hence fr2: "fl_rep (parent_color ?t2) (free_list ?t2) free" using fl_rep_frame[OF _ fr] t1(3) by (simp add: same_but_def)
  have af: "a \<notin> set free" "a \<noteq> NULL" using dj a na by auto
  obtain pc fl where fl: "jfs_fl_free cell_store (parent_color ?t2) (free_list ?t2) a = (pc, fl)" "fl_rep pc fl (a # free)"
    using free_rep[OF fr2 af pool_bound[of a free]] af fr fl_rep_not_null[OF fr] by (auto simp: fl_rep_def)
  have pc: "pc = (parent_color t1)(a := fl_list (free_list ?t2))" using fl(1) af(2) by (simp add: jfs_fl_free_def cell_store_def)
  let ?t3 = "?t2\<lparr>parent_color := pc, free_list := fl\<rparr>"
  have run: "bst_detach_and_delete detach fuel t a = Ret (?t3, val_at t a)"
    using detach_and_delete_eq[of fuel t a t1 ?t2 detach] t1(1) t2 off det root_of_plug_nil[OF Zk] fl(1) by (simp add: bst_fl_free_def)
  have rest: "only_removed t ?t3" and keep: "nil ?t3 = nil t" "bst_cmp ?t3 = bst_cmp t"
    using t1(3) same_but_copy_fits[OF t1(3)] by (auto simp: only_removed_def same_but_def)
  have val: "val_at ?t3 = val_at t" by (rule only_removed_val[OF rest])
  have Z3: "zrep ?t3 [] ?T'" using zrep_free_cell[of ?t2 ?T' a] t1(2,3) rem dis na(1) unfolding pc by (simp add: same_but_def)
  have ne: "inorder ?T' \<noteq> []" using two dis a unfolding rem by (auto dest!: arg_cong[of _ "[]" length] simp: length_remove1)
  have "sorted_wrt (<) (map (key_of \<circ> val_at t) (inorder ?T'))"
    unfolding io' by (rule sorted_wrt_drop_mid) (rule so[unfolded io])
  hence "sorted_wrt (<) (map (key_of \<circ> val_at ?t3) (inorder ?T'))" unfolding val .
  hence "bst_core key_of ?t3 ?T' (a # free)"
    using Z3 rest keep fl(2) dj af na dis rb core ne del_node_rb[of k ?N] T
    by (auto simp: bst_core_def ends_ok_def rem only_removed_def)
  thus ?thesis using run rem rest by blast
qed

section \<open>The public operations\<close>

lemma core_nil: "bst_core key_of t T free \<Longrightarrow> nil t \<notin> set (inorder T)"
  by (auto simp: bst_core_def dest: zrep_nil_notin)

lemma get_smallest_ok:
  assumes core: "bst_core key_of t T free" and two: "2 \<le> length (inorder T)" and fuel: "height T < fuel"
    and det: "detach t (hd (inorder T) + value_offset t) = (hd (inorder T) + value_offset t, t)"
  shows "\<exists>t' T'. jfs_bst_get_smallest detach fuel t err = Ret (t', Some (val_at t (hd (inorder T))), err)
    \<and> bst_core key_of t' T' (hd (inorder T) # free) \<and> inorder T' = tl (inorder T) \<and> only_removed t t'"
proof -
  have ne: "inorder T \<noteq> []" using two by (cases T) auto
  hence hd: "hd (inorder T) \<in> set (inorder T)" "smallest (cache t) = hd (inorder T)"
    using core by (auto simp: bst_core_def ends_ok_def)
  moreover have "hd (inorder T) \<noteq> nil t" using hd(1) core_nil[OF core] by auto
  moreover have "remove1 (hd (inorder T)) (inorder T) = tl (inorder T)" using ne by (cases "inorder T") auto
  ultimately show ?thesis using take_node[where detach = detach, OF core hd(1) two fuel det] by (auto simp: jfs_bst_get_smallest_def)
qed

lemma get_largest_ok:
  assumes core: "bst_core key_of t T free" and two: "2 \<le> length (inorder T)" and fuel: "height T < fuel"
    and det: "detach t (last (inorder T) + value_offset t) = (last (inorder T) + value_offset t, t)"
  shows "\<exists>t' T'. jfs_bst_get_largest detach fuel t err = Ret (t', Some (val_at t (last (inorder T))), err)
    \<and> bst_core key_of t' T' (last (inorder T) # free) \<and> inorder T' = butlast (inorder T) \<and> only_removed t t'"
proof -
  have ne: "inorder T \<noteq> []" using two by (cases T) auto
  hence la: "last (inorder T) \<in> set (inorder T)" "largest (cache t) = last (inorder T)"
    using core by (auto simp: bst_core_def ends_ok_def)
  moreover have "last (inorder T) \<noteq> nil t" using la(1) core_nil[OF core] by auto
  moreover have "distinct (inorder T)" using core zrep_distinct[of t "[]" T] by (simp add: bst_core_def)
  hence "remove1 (last (inorder T)) (inorder T) = butlast (inorder T)"
    using ne by (cases "inorder T" rule: rev_cases) (auto simp: remove1_append)
  ultimately show ?thesis using take_node[where detach = detach, OF core la(1) two fuel det] by (auto simp: jfs_bst_get_largest_def)
qed

lemma takes_ok:
  assumes inv: "bst_inv key_of t T free" and a: "a \<in> set (inorder T)" and two: "2 \<le> length (inorder T)" and fuel: "height T < fuel"
    and miss: "a \<notin> {previous (cache t), smallest (cache t), largest (cache t)}"
    and det: "detach t (a + value_offset t) = (a + value_offset t, t)"
  shows "\<exists>t' T'. jfs_bst_takes detach fuel t (key_of (val_at t a)) err = Ret (t', Some (val_at t a), err)
    \<and> bst_inv key_of t' T' (a # free) \<and> inorder T' = remove1 a (inorder T) \<and> only_removed t t'"
proof -
  have core: "bst_core key_of t T free" and prev: "previous (cache t) \<in> insert (nil t) (set (inorder T))"
    using inv by (simp_all add: bst_inv_core)
  obtain cmp where cmp: "bst_cmp t = Some cmp" "three_way cmp key_of" and off: "value_offset t > 0"
    and so: "sorted_wrt (<) (map (key_of \<circ> val_at t) (inorder T))" and ca: "cache_ok t (inorder T)"
    using inv by (auto simp: bst_inv_def)
  have "distinct (map (key_of \<circ> val_at t) (inorder T))" using so strict_sorted_iff by blast
  hence inj: "inj_on (key_of \<circ> val_at t) (set (inorder T))" by (simp add: distinct_map)
  have cached: "x = nil t \<or> (x \<in> set (inorder T) \<and> x \<noteq> a)" if "x \<in> {previous (cache t), smallest (cache t), largest (cache t)}" for x
    using that ca miss by (auto simp: cache_ok_def split: if_splits)
  have "bst_check_cache t (key_of (val_at t a)) = Ret (nil t)"
  proof -
    have "cmp (key_of (val_at t a)) (val_at t x) \<noteq> 0" if "x \<in> set (inorder T)" "x \<noteq> a" for x
      using inj_on_eq_iff[OF inj a that(1)] that(2) three_way_zero[OF cmp(2)] by auto
    thus ?thesis using cached cmp_node_val[OF off cmp(1)] by (auto simp: bst_check_cache_def)
  qed
  moreover obtain loc where "bst_find fuel t (key_of (val_at t a)) = Ret loc" "loc_node loc = a"
    using find_present[OF inv a fuel] by blast
  moreover obtain t' T' where t': "bst_detach_and_delete detach fuel t a = Ret (t', val_at t a)" "bst_core key_of t' T' (a # free)"
    "inorder T' = remove1 a (inorder T)" "only_removed t t'"
    using take_node[where detach = detach, OF core a two fuel det] by blast
  moreover have "T \<noteq> Tip" "a \<noteq> nil t" using a core_nil[OF core] by auto
  moreover have "previous (cache t') \<in> insert (nil t') (set (inorder T'))"
    using prev miss t'(3,4) by (auto simp: only_removed_def in_set_remove1)
  ultimately show ?thesis using inv_root_nil[OF inv] by (auto simp: jfs_bst_takes_def bst_inv_core)
qed

lemma detach_alone: "node_list t a = NULL \<Longrightarrow> detach_nodes t (a + value_offset t) = (a + value_offset t, t)"
  by (simp add: detach_nodes_def bst_container_node_def bst_detach_node_def)

section \<open>Properties\<close>

text \<open>
  C3. \<open>bst_delete\<close> of any node of a red-black tree returns, with every assertion passed.  It does on the
  memory exactly what \<open>del_node\<close> does on the tree: the result is a red-black tree with the same nodes in the
  same order but for the deleted one, and apart from the links of the other nodes and the nil node nothing
  changes, not even the fields of the deleted node.
\<close>

theorem bst_delete_refines:
  assumes "zrep t [] T" "rb_tree T" "a \<in> set (inorder T)" "height T < fuel"
  shows "\<exists>t' k l c r. bst_delete fuel t a = Ret t' \<and> plug k (Nd l c a r) = T \<and> zrep t' [] (del_node k (Nd l c a r))
    \<and> rb_tree (del_node k (Nd l c a r)) \<and> inorder (del_node k (Nd l c a r)) = remove1 a (inorder T)
    \<and> same_but (insert (nil t) (set (inorder T) - {a})) t t'"
proof -
  obtain k l c r where T: "plug k (Nd l c a r) = T" using split_tree[OF assms(3)] by blast
  have Z: "zrep t k (Nd l c a r)" using assms(1) T zrep_plug[of t k] by simp
  have "inorder T = ctx_left k @ inorder l @ a # inorder r @ ctx_right k" using inorder_plug[of k "Nd l c a r"] T by simp
  hence "inorder (del_node k (Nd l c a r)) = remove1 a (inorder T)"
    using inorder_del_node[of k l c a r] assms(2) T zrep_distinct[OF assms(1)] by (simp add: remove1_append)
  moreover have "znodes k (Nd l c a r) = set (inorder T)" using znodes_plug[of k "Nd l c a r"] T by simp
  moreover obtain t' where "bst_delete fuel t a = Ret t'" "zrep t' [] (del_node k (Nd l c a r))"
    "same_but (insert (nil t) (znodes k (Nd l c a r) - {a})) t t'"
    using delete_ok[OF Z, of fuel] assms(2,4) T by (auto simp: deleted_def)
  moreover have "rb_tree (del_node k (Nd l c a r))" using del_node_rb[of k "Nd l c a r"] assms(2) T by simp
  ultimately show ?thesis
    using T by (intro exI[of _ t'] exI[of _ k] exI[of _ l] exI[of _ c] exI[of _ r]) simp
qed

theorem bst_delete_refines_witness:
  "\<exists>(t :: (int, int) jfs_bst) T t' T'. map (val_at t) (inorder T) = [3, 5, 8] \<and> bst_delete 20 t (inorder T ! 1) = Ret t'
     \<and> zrep t' [] T' \<and> rb_tree T' \<and> length (inorder T') = 2"
proof -
  obtain t :: "(int, int) jfs_bst" and T where t: "bst_inv (\<lambda>v. v) t T [4096]" "map (val_at t) (inorder T) = [3, 5, 8]"
    "length (inorder T) = 3" "height T < 20" by (rule demo_tree)
  have a: "inorder T ! 1 \<in> set (inorder T)" using t(3) by simp
  have "zrep t [] T" "rb_tree T" using t(1) by (simp_all add: bst_inv_def)
  from bst_delete_refines[OF this a t(4)] obtain t' T' where "bst_delete 20 t (inorder T ! 1) = Ret t'" "zrep t' [] T'" "rb_tree T'"
    "inorder T' = remove1 (inorder T ! 1) (inorder T)" by blast
  moreover from this(4) have "length (inorder T') = 2" using a t(3) by (simp add: length_remove1)
  ultimately show ?thesis using t(2) by (intro exI[of _ t] exI[of _ T] exI[of _ t'] exI[of _ T']) simp
qed

text \<open>
  On a tree of at least two nodes without lists of equal keys, \<open>jfs_bst_get_smallest\<close> returns the value with
  the smallest key and \<open>jfs_bst_get_largest\<close> the value with the largest key, without an error.  The tree keeps its
  invariant (red-black, ordered, the ends in the cache, the free list) except for \<open>cache.previous\<close>, all other
  values stay in their order, and the node goes back to the head of the free list.
\<close>

theorem bst_get_ends:
  assumes "bst_core key_of t T free" and "2 \<le> length (inorder T)" and "height T < fuel"
    and "\<forall>a\<in>set (inorder T). node_list t a = NULL"
  shows "\<exists>t1 T1 t2 T2.
      jfs_bst_get_smallest detach_nodes fuel t err = Ret (t1, Some (val_at t (hd (inorder T))), err)
    \<and> bst_core key_of t1 T1 (hd (inorder T) # free) \<and> map (val_at t1) (inorder T1) = tl (map (val_at t) (inorder T))
    \<and> jfs_bst_get_largest detach_nodes fuel t err = Ret (t2, Some (val_at t (last (inorder T))), err)
    \<and> bst_core key_of t2 T2 (last (inorder T) # free) \<and> map (val_at t2) (inorder T2) = butlast (map (val_at t) (inorder T))"
proof -
  have ne: "inorder T \<noteq> []" using assms(2) by (cases T) auto
  hence "hd (inorder T) \<in> set (inorder T)" "last (inorder T) \<in> set (inorder T)" by simp_all
  hence det: "detach_nodes t (hd (inorder T) + value_offset t) = (hd (inorder T) + value_offset t, t)"
    "detach_nodes t (last (inorder T) + value_offset t) = (last (inorder T) + value_offset t, t)"
    using assms(4) detach_alone by blast+
  from get_smallest_ok[where detach = detach_nodes and err = err, OF assms(1-3) det(1)] obtain t1 T1 where
    1: "jfs_bst_get_smallest detach_nodes fuel t err = Ret (t1, Some (val_at t (hd (inorder T))), err)"
      "bst_core key_of t1 T1 (hd (inorder T) # free)" "inorder T1 = tl (inorder T)" "only_removed t t1" by blast
  from get_largest_ok[where detach = detach_nodes and err = err, OF assms(1-3) det(2)] obtain t2 T2 where
    2: "jfs_bst_get_largest detach_nodes fuel t err = Ret (t2, Some (val_at t (last (inorder T))), err)"
      "bst_core key_of t2 T2 (last (inorder T) # free)" "inorder T2 = butlast (inorder T)" "only_removed t t2" by blast
  show ?thesis
    using 1 2 by (intro exI[of _ t1] exI[of _ T1] exI[of _ t2] exI[of _ T2]) (simp add: only_removed_val map_tl map_butlast)
qed

theorem bst_get_ends_witness:
  "\<exists>(t :: (int, int) jfs_bst) T t1 t2. map (val_at t) (inorder T) = [3, 5, 8]
     \<and> jfs_bst_get_smallest detach_nodes 20 t JCL_OK = Ret (t1, Some 3, JCL_OK)
     \<and> jfs_bst_get_largest detach_nodes 20 t JCL_OK = Ret (t2, Some 8, JCL_OK)"
proof -
  obtain t :: "(int, int) jfs_bst" and T where t: "bst_inv (\<lambda>v. v) t T [4096]" "map (val_at t) (inorder T) = [3, 5, 8]"
    "length (inorder T) = 3" "height T < 20" "node_list t = (\<lambda>_. 0)" by (rule demo_tree)
  obtain a b c where io: "inorder T = [a, b, c]" "val_at t a = 3" "val_at t c = 8" using t(2) by (auto simp: map_eq_Cons_conv)
  have "bst_core (\<lambda>v. v) t T [4096]" using t(1) by (simp add: bst_inv_core)
  from bst_get_ends[OF this _ t(4), of JCL_OK] t(5) io obtain t1 t2 where
    "jfs_bst_get_smallest detach_nodes 20 t JCL_OK = Ret (t1, Some 3, JCL_OK)"
    "jfs_bst_get_largest detach_nodes 20 t JCL_OK = Ret (t2, Some 8, JCL_OK)" by auto
  thus ?thesis using t(2) by (intro exI[of _ t] exI[of _ T] exI[of _ t1] exI[of _ t2]) simp
qed

text \<open>
  Taking the value of a key that is in the tree but not in the cache returns this value without an error,
  keeps the invariant of the tree (with the cache), removes exactly its node, which becomes the head of the free
  list, changes no other value, and a search for the key then ends at the nil node.
\<close>

theorem bst_takes_removes:
  assumes "bst_inv key_of t T free" and "a \<in> set (inorder T)" and "length (inorder T) < fuel"
    and "a \<notin> {previous (cache t), smallest (cache t), largest (cache t)}"
    and "\<forall>a\<in>set (inorder T). node_list t a = NULL"
  shows "\<exists>t' T' loc. jfs_bst_takes detach_nodes fuel t (key_of (val_at t a)) err = Ret (t', Some (val_at t a), err)
    \<and> bst_inv key_of t' T' (a # free) \<and> inorder T' = remove1 a (inorder T) \<and> val_at t' = val_at t
    \<and> bst_find fuel t' (key_of (val_at t a)) = Ret loc \<and> loc_node loc = nil t'"
proof -
  have so: "sorted_wrt (<) (map (key_of \<circ> val_at t) (inorder T))" and ca: "cache_ok t (inorder T)"
    using assms(1) by (auto simp: bst_inv_def)
  obtain x xs where io: "inorder T = x # xs" using assms(2) by (cases "inorder T") auto
  have two: "2 \<le> length (inorder T)" using ca assms(2,4) unfolding io by (cases xs) (auto simp: cache_ok_def)
  have h: "height T < fuel" using height_le_size[of T] assms(3) by simp
  have det: "detach_nodes t (a + value_offset t) = (a + value_offset t, t)" using assms(2,5) detach_alone by blast
  obtain t' T' where t': "jfs_bst_takes detach_nodes fuel t (key_of (val_at t a)) err = Ret (t', Some (val_at t a), err)"
    "bst_inv key_of t' T' (a # free)" "inorder T' = remove1 a (inorder T)" "only_removed t t'"
    using takes_ok[where detach = detach_nodes and err = err, OF assms(1,2) two h assms(4) det] by blast
  have val: "val_at t' = val_at t" using only_removed_val[OF t'(4)] .
  have "distinct (map (key_of \<circ> val_at t) (inorder T))" using so strict_sorted_iff by blast
  hence inj: "inj_on (key_of \<circ> val_at t) (set (inorder T))" "distinct (inorder T)" by (simp_all add: distinct_map)
  have "key_of (val_at t a) \<notin> (key_of \<circ> val_at t') ` set (inorder T')"
    using inj_on_eq_iff[OF inj(1) assms(2)] inj(2) unfolding val t'(3) by auto
  moreover have "height T' < fuel"
    using height_le_size[of T'] assms(2,3) unfolding t'(3) by (simp add: length_remove1)
  ultimately obtain loc where "bst_find fuel t' (key_of (val_at t a)) = Ret loc" "loc_node loc = nil t'"
    using find_absent[OF t'(2)] by blast
  thus ?thesis using t'(1-3) val by blast
qed

theorem bst_takes_removes_witness:
  "\<exists>(t :: (int, int) jfs_bst) T t' T'. map (val_at t) (inorder T) = [3, 5, 8]
     \<and> jfs_bst_takes detach_nodes 20 t 5 JCL_OK = Ret (t', Some 5, JCL_OK) \<and> length (inorder T') = 2 \<and> zrep t' [] T'"
proof -
  obtain t0 :: "(int, int) jfs_bst" and T where t0: "bst_inv (\<lambda>v. v) t0 T [4096]" "map (val_at t0) (inorder T) = [3, 5, 8]"
    "length (inorder T) = 3" "node_list t0 = (\<lambda>_. 0)" by (rule demo_tree)
  obtain a b c where io: "inorder T = [a, b, c]" "val_at t0 b = 5" using t0(2) by (auto simp: map_eq_Cons_conv)
  let ?t = "t0\<lparr>cache := (cache t0)\<lparr>previous := c\<rparr>\<rparr>"
  have v: "val_at ?t = val_at t0" by (rule ext) (simp add: val_at_def)
  have inv: "bst_inv (\<lambda>v. v) ?t T [4096]"
    using t0(1) io(1) unfolding bst_inv_def v by (auto simp: cache_ok_def)
  have "distinct [a, b, c]" using t0(1) zrep_distinct[of t0 "[]" T] io(1) by (simp add: bst_inv_def)
  hence "b \<notin> {previous (cache ?t), smallest (cache ?t), largest (cache ?t)}"
    using t0(1) io(1) by (auto simp: bst_inv_def cache_ok_def)
  from bst_takes_removes[OF inv _ _ this, of 20 JCL_OK] io t0(4) v obtain t' T' where
    "jfs_bst_takes detach_nodes 20 ?t 5 JCL_OK = Ret (t', Some 5, JCL_OK)" "inorder T' = remove1 b [a, b, c]" "zrep t' [] T'"
    by (auto simp: bst_inv_def)
  moreover from this(2) have "length (inorder T') = 2" by (simp add: length_remove1)
  moreover have "map (val_at ?t) (inorder T) = [3, 5, 8]" unfolding v by (rule t0(2))
  ultimately show ?thesis by (intro exI[of _ ?t] exI[of _ T] exI[of _ t'] exI[of _ T']) simp
qed

end
