(* ===== verification/Bst_Multi.thy ===== *)
theory Bst_Multi
  imports Bst_Take "HOL-Library.Multiset"
begin

text \<open>
  Equal keys in the search tree of \<open>src/binary_search_tree.c\<close>: a value whose key is already in the tree is
  attached to a list at the node of this key (\<open>bst_attach_node\<close>), and a value is first taken from this list
  (\<open>bst_detach_node\<close>).  \<open>multi\<close> is the invariant of a tree with such lists.  The locale \<open>end_taker\<close> is the
  interface of a container that hands out its first value; it is interpreted for both ends of the tree, which
  shows that the tree sorts any values.
\<close>

section \<open>Lists of nodes\<close>

text \<open>The list at the node \<open>a\<close> is threaded through \<open>node_list\<close>; a node may be attached behind any node of it.\<close>

lemma fl_chain_cong: "\<forall>x\<in>set xs. m x = nl x \<Longrightarrow> fl_chain m p xs = fl_chain nl p xs"
  by (induction xs arbitrary: p) auto

lemma attach_chain:
  assumes m: "m c = n" "m n = nl c" "\<forall>x. x \<noteq> n \<and> x \<noteq> c \<longrightarrow> m x = nl x" and n: "n \<noteq> NULL"
  shows "fl_chain nl (nl a) xs \<Longrightarrow> c \<in> set (a # xs) \<Longrightarrow> n \<notin> set (a # xs) \<Longrightarrow> distinct (a # xs) \<Longrightarrow>
    \<exists>ys. fl_chain m (m a) ys \<and> mset ys = add_mset n (mset xs)"
proof (induction xs arbitrary: a)
  case Nil
  thus ?case using m n by (intro exI[of _ "[n]"]) simp
next
  case (Cons b bs)
  show ?case
  proof (cases "c = a")
    case True
    have "\<forall>x\<in>set (b # bs). m x = nl x" using m(3) Cons.prems(3,4) True by auto
    hence "fl_chain m (nl a) (b # bs)" using Cons.prems(1) fl_chain_cong by blast
    thus ?thesis using True m n by (intro exI[of _ "n # b # bs"]) simp
  next
    case False
    have ma: "m a = nl a" "nl a = b" "b \<noteq> NULL" using False Cons.prems m(3) by auto
    obtain ys where "fl_chain m (m b) ys" "mset ys = add_mset n (mset bs)"
      using Cons.IH[of b] Cons.prems False by auto
    thus ?thesis using ma by (intro exI[of _ "b # ys"]) simp
  qed
qed

section \<open>Trees with lists of equal keys\<close>

text \<open>\<open>L a\<close> are the nodes in the list at the node \<open>a\<close> of the tree.\<close>

definition lists_ok :: "('v \<Rightarrow> 'k :: linorder) \<Rightarrow> ('k, 'v) jfs_bst \<Rightarrow> addr set \<Rightarrow> (addr \<Rightarrow> addr list) \<Rightarrow> bool" where
  "lists_ok key_of t S L \<longleftrightarrow> (\<forall>a\<in>S. fl_chain (node_list t) (node_list t a) (L a) \<and> distinct (L a)
     \<and> (\<forall>b\<in>set (L a). b \<notin> S \<and> b \<noteq> nil t \<and> node_addr b \<and> key_of (val_at t b) = key_of (val_at t a)
          \<and> (\<forall>a'\<in>S. b \<in> set (L a') \<longrightarrow> a' = a)))"

lemma lists_okD:
  assumes "lists_ok key_of t S L" "a \<in> S"
  shows "fl_chain (node_list t) (node_list t a) (L a)" "distinct (L a)"
    and "b \<in> set (L a) \<Longrightarrow> b \<notin> S \<and> b \<noteq> nil t \<and> node_addr b \<and> key_of (val_at t b) = key_of (val_at t a)"
    and "b \<in> set (L a) \<Longrightarrow> a' \<in> S \<Longrightarrow> b \<in> set (L a') \<Longrightarrow> a' = a"
  using assms unfolding lists_ok_def by blast+

definition multi :: "('v \<Rightarrow> 'k :: linorder) \<Rightarrow> ('k, 'v) jfs_bst \<Rightarrow> ntree \<Rightarrow> (addr \<Rightarrow> addr list) \<Rightarrow> addr list \<Rightarrow> bool" where
  "multi key_of t T L free \<longleftrightarrow> bst_core key_of t T free \<and> lists_ok key_of t (set (inorder T)) L
     \<and> (\<forall>a\<in>set (inorder T). set (L a) \<inter> set free = {})"

text \<open>While values are only put, the last used node is in use, and the nodes that are free have no list yet.\<close>

definition filling :: "('k, 'v) jfs_bst \<Rightarrow> ntree \<Rightarrow> (addr \<Rightarrow> addr list) \<Rightarrow> addr list \<Rightarrow> bool" where
  "filling t T L free \<longleftrightarrow> (\<forall>a\<in>set free. node_list t a = NULL)
     \<and> (previous (cache t) = nil t \<or> (\<exists>a\<in>set (inorder T). previous (cache t) \<in> set (a # L a)))"

definition bag :: "('k, 'v) jfs_bst \<Rightarrow> addr set \<Rightarrow> (addr \<Rightarrow> addr list) \<Rightarrow> 'v multiset" where
  "bag t S L = (\<Sum>a\<in>S. image_mset (val_at t) (mset (a # L a)))"

section \<open>Putting a value\<close>

lemma check_cache_result:
  assumes off: "value_offset t > 0" and cmp: "bst_cmp t = Some cmp" "three_way cmp key_of"
  shows "\<exists>c. bst_check_cache t key = Ret c \<and> (c = nil t \<or> (c \<noteq> nil t \<and> key_of (val_at t c) = key
    \<and> c \<in> {previous (cache t), largest (cache t), smallest (cache t)}))"
proof -
  have eq: "cmp key (val_at t a) = 0 \<longleftrightarrow> key_of (val_at t a) = key" for a using three_way_zero[OF cmp(2)] by auto
  show ?thesis using cmp_node_val[OF off cmp(1)] by (auto simp: bst_check_cache_def eq)
qed

lemma packed_core:
  assumes core: "bst_core key_of t T (n # free)" and al: "jfs_fl_alloc cell_load (parent_color t) (free_list t) = (n, fl)"
  shows "bst_core key_of (packed t fl n v) T free"
proof -
  have "fl_rep (parent_color t) fl free" using alloc_rep[of "parent_color t" "free_list t" n free] core al by (auto simp: bst_core_def)
  moreover have "map (key_of \<circ> val_at (packed t fl n v)) (inorder T) = map (key_of \<circ> val_at t) (inorder T)"
    using core by (auto simp: bst_core_def val_at_packed)
  hence "sorted_wrt (<) (map (key_of \<circ> val_at (packed t fl n v)) (inorder T))"
    using core by (simp only: bst_core_def)
  ultimately show ?thesis using core by (simp add: bst_core_def ends_ok_def)
qed

lemma core_distinct_keys:
  assumes core: "bst_core key_of t T free" and "a \<in> set (inorder T)" "b \<in> set (inorder T)" "key_of (val_at t a) = key_of (val_at t b)"
  shows "a = b"
proof -
  have "distinct (map (key_of \<circ> val_at t) (inorder T))" using core unfolding bst_core_def by (metis strict_sorted_iff)
  hence "inj_on (key_of \<circ> val_at t) (set (inorder T))" by (simp add: distinct_map)
  from inj_onD[OF this _ assms(2,3)] assms(4) show ?thesis by simp
qed

text \<open>A put of a key that is in the tree attaches the new node behind a node with this key.\<close>

lemma puts_present_run:
  assumes core: "bst_core key_of t T (n # free)" and L: "lists_ok key_of t (set (inorder T)) L"
    and prev: "previous (cache t) = nil t \<or> (\<exists>a\<in>set (inorder T). previous (cache t) \<in> set (a # L a))"
    and new: "\<forall>a\<in>set (inorder T). n \<notin> set (L a)"
    and a: "a \<in> set (inorder T)" "key_of (val_at t a) = key_of v" and fuel: "height T < fuel"
  shows "\<exists>fl c p. jfs_fl_alloc cell_load (parent_color t) (free_list t) = (n, fl) \<and> c \<in> set (a # L a) \<and> p \<in> {c, n}
    \<and> jfs_bst_puts attach_nodes fuel t v (key_of v) err = Ret ((packed t fl n v)
        \<lparr>node_list := (node_list t)(n := node_list t c, c := n), cache := (cache t)\<lparr>previous := p\<rparr>\<rparr>, err)"
proof -
  have off: "value_offset t > 0" "copy_fits t" and fr: "fl_rep (parent_color t) (free_list t) (n # free)" using core by (simp_all add: bst_core_def)
  obtain cmp where cmp: "bst_cmp t = Some cmp" "three_way cmp key_of" using core by (auto simp: bst_core_def)
  obtain fl where al: "jfs_fl_alloc cell_load (parent_color t) (free_list t) = (n, fl)" "fl_rep (parent_color t) fl free"
    using alloc_rep[OF fr] by blast
  have cnt: "fl_count (free_list t) \<noteq> 0" using fr by (auto simp: fl_rep_def)
  let ?p = "packed t fl n v"
  have core1: "bst_core key_of ?p T free" by (rule packed_core[OF core al(1)])
  have nT: "n \<notin> set (inorder T)" using core by (auto simp: bst_core_def)
  have val: "val_at ?p x = val_at t x" if "x \<noteq> n" for x using that by (simp add: val_at_packed)
  have same_key: "x \<in> set (a # L a)" if x: "a' \<in> set (inorder T)" "x \<in> set (a' # L a')" "key_of (val_at ?p x) = key_of v" for a' x
  proof -
    have "x \<noteq> n" using x new nT by auto
    hence "key_of (val_at t a') = key_of v" using x L val by (auto simp: lists_ok_def)
    hence "a' = a" using core_distinct_keys[OF core x(1) a(1)] a(2) by simp
    thus ?thesis using x(2) by simp
  qed
  have step: "jfs_bst_puts attach_nodes fuel t v (key_of v) err =
      run_bind (bst_check_cache ?p (key_of v)) (\<lambda>c. if c \<noteq> nil t then Ret ((attach_nodes ?p (c + value_offset t) (n + value_offset t))
          \<lparr>cache := (cache t)\<lparr>previous := c\<rparr>\<rparr>, err)
        else run_bind (bst_find fuel ?p (key_of v)) (\<lambda>location.
          run_bind (if loc_node location \<noteq> nil t then Ret (attach_nodes ?p (loc_node location + value_offset t) (n + value_offset t))
            else run_bind (bst_insert fuel ?p n location) (\<lambda>t. Ret (bst_update_cache_insert t location)))
          (\<lambda>t. Ret (t\<lparr>cache := (cache t)\<lparr>previous := n\<rparr>\<rparr>, err))))"
    using cnt al(1) off unfolding packed_def
    by (simp add: jfs_bst_puts_def bst_pack_node_def container_value_off attach_nodes_def bst_attach_node_def Let_def cong: if_cong)
  have att: "attach_nodes ?p (c + value_offset t) (n + value_offset t) = ?p\<lparr>node_list := (node_list t)(n := node_list t c, c := n)\<rparr>" for c
    by (simp add: attach_nodes_def bst_attach_node_def bst_container_node_def packed_def)
  obtain c where c: "bst_check_cache ?p (key_of v) = Ret c" "c = nil t \<or> (c \<noteq> nil t \<and> key_of (val_at ?p c) = key_of v
    \<and> c \<in> {previous (cache t), largest (cache t), smallest (cache t)})"
    using check_cache_result[of ?p cmp key_of "key_of v"] off cmp by auto
  show ?thesis
  proof (cases "c = nil t")
    case False
    have "\<exists>a'\<in>set (inorder T). c \<in> set (a' # L a')"
      using c(2) False prev core by (auto simp: bst_core_def ends_ok_def split: if_splits)
    hence "c \<in> set (a # L a)" using same_key c(2) False by blast
    thus ?thesis using step c(1) False att al(1) by (intro exI[of _ fl] exI[of _ c] exI[of _ c]) simp
  next
    case True
    have "a \<noteq> n" using a(1) nT by auto
    then obtain loc where loc: "bst_find fuel ?p (key_of v) = Ret loc" "loc_node loc = a"
      using find_present_core[OF core1 a(1) fuel] a(2) val by auto
    have "a \<noteq> nil t" using core_nil[OF core] a(1) by auto
    thus ?thesis using step c(1) True loc att al(1) by (intro exI[of _ fl] exI[of _ a] exI[of _ n]) (simp add: packed_def)
  qed
qed

lemma core_relist:
  assumes "bst_core key_of t T free" "smallest (cache t') = smallest (cache t)" "largest (cache t') = largest (cache t)"
  shows "bst_core key_of (t\<lparr>node_list := m, cache := cache t'\<rparr>) T free"
proof -
  have "val_at (t\<lparr>node_list := m, cache := cache t'\<rparr>) = val_at t" by (rule ext) (simp add: val_at_def)
  moreover have "zrep (t\<lparr>node_list := m, cache := cache t'\<rparr>) [] T = zrep t [] T" by (simp add: zrep_def)
  ultimately show ?thesis using assms by (simp add: bst_core_def ends_ok_def)
qed

lemma lists_attach:
  assumes L: "lists_ok key_of t S L" and a: "a \<in> S" and c: "c \<in> set (a # L a)"
    and n: "n \<noteq> NULL" "node_addr n" "n \<noteq> nil t" "n \<notin> S" "\<forall>a\<in>S. n \<notin> set (L a)"
    and ys: "fl_chain m (m a) ys" "mset ys = add_mset n (mset (L a))"
    and m: "\<forall>x. x \<noteq> n \<and> x \<noteq> c \<longrightarrow> m x = node_list t x"
    and t': "node_list t' = m" "nil t' = nil t" "\<forall>x. val_at t' x = (if x = n then v else val_at t x)"
    and key: "key_of (val_at t a) = key_of v"
  shows "lists_ok key_of t' S (L(a := ys))"
  unfolding lists_ok_def
proof (intro ballI conjI impI)
  have set: "set ys = insert n (set (L a))" using arg_cong[OF ys(2), of set_mset] by simp
  have La: "distinct (L a)" "\<forall>b\<in>set (L a). b \<notin> S \<and> b \<noteq> nil t \<and> node_addr b \<and> key_of (val_at t b) = key_of (val_at t a)
      \<and> (\<forall>a'\<in>S. b \<in> set (L a') \<longrightarrow> a' = a)" using L a by (auto simp: lists_ok_def)
  fix a' assume a': "a' \<in> S"
  have La': "fl_chain (node_list t) (node_list t a') (L a')" "distinct (L a')"
    "\<forall>b\<in>set (L a'). b \<notin> S \<and> b \<noteq> nil t \<and> node_addr b \<and> key_of (val_at t b) = key_of (val_at t a')
      \<and> (\<forall>a''\<in>S. b \<in> set (L a'') \<longrightarrow> a'' = a')" using L a' by (auto simp: lists_ok_def)
  have other: "m x = node_list t x" if "a' \<noteq> a" "x \<in> set (a' # L a')" for x
  proof -
    have "x \<noteq> n" using that n(4,5) a' by auto
    moreover have "x \<noteq> c" using that c a' a La(2) La'(3) by auto
    ultimately show ?thesis using m by simp
  qed
  have "fl_chain m (m a') (L a')" if "a' \<noteq> a"
    using La'(1) other[OF that] fl_chain_cong[of "L a'" m "node_list t"] by simp
  thus "fl_chain (node_list t') (node_list t' a') ((L(a := ys)) a')" using ys(1) t'(1) by simp
  have "distinct (n # L a)" using La(1) n(5) a by simp
  hence "distinct ys" using ys(2) mset_eq_imp_distinct_iff[of ys "n # L a"] by simp
  thus "distinct ((L(a := ys)) a')" using La'(2) by simp
  fix b assume b: "b \<in> set ((L(a := ys)) a')"
  hence b': "b = n \<and> a' = a \<or> b \<in> set (L a') \<and> b \<noteq> n" using set n(5) a' by (auto split: if_splits)
  thus "b \<notin> S" "b \<noteq> nil t'" "node_addr b" using n La'(3) t'(2) by auto
  have "a' \<noteq> n" using a' n(4) by auto
  thus "key_of (val_at t' b) = key_of (val_at t' a')" using b' La'(3) t'(3) key by auto
  fix a'' assume "a'' \<in> S" "b \<in> set ((L(a := ys)) a'')"
  thus "a'' = a'" using b' set n(5) La'(3) La(2) by (auto split: if_splits)
qed

lemma image_keep:
  assumes "n \<notin> S" "\<forall>a\<in>S. n \<notin> set (L a)" "\<forall>x. val_at t' x = (if x = n then v else val_at t x)" "x \<in> S"
  shows "image_mset (val_at t') (mset (x # L x)) = image_mset (val_at t) (mset (x # L x))"
  using assms by (intro image_mset_cong) auto

lemma bag_attach:
  assumes S: "finite S" "a \<in> S" and ys: "mset ys = add_mset n (mset (L a))" and n: "n \<notin> S" "\<forall>a\<in>S. n \<notin> set (L a)"
    and t': "\<forall>x. val_at t' x = (if x = n then v else val_at t x)"
  shows "bag t' S (L(a := ys)) = add_mset v (bag t S L)"
proof -
  note keep = image_keep[OF n t']
  have "bag t' S (L(a := ys)) = image_mset (val_at t') (mset (a # ys)) + bag t' (S - {a}) (L(a := ys))"
    unfolding bag_def by (subst sum.remove[OF S]) simp
  also have "image_mset (val_at t') (mset (a # ys)) = add_mset v (image_mset (val_at t) (mset (a # L a)))"
    using keep[OF S(2)] ys t' by simp
  also have "bag t' (S - {a}) (L(a := ys)) = bag t (S - {a}) L"
    unfolding bag_def using keep by (intro sum.cong) auto
  also have "add_mset v (image_mset (val_at t) (mset (a # L a))) + bag t (S - {a}) L = add_mset v (bag t S L)"
    unfolding bag_def using sum.remove[OF S, of "\<lambda>a. image_mset (val_at t) (mset (a # L a))"] by simp
  finally show ?thesis .
qed

lemma puts_present:
  assumes mu: "multi key_of t T L (n # free)" and fi: "filling t T L (n # free)"
    and a: "a \<in> set (inorder T)" "key_of (val_at t a) = key_of v" and fuel: "height T < fuel"
  shows "\<exists>t' L'. jfs_bst_puts attach_nodes fuel t v (key_of v) err = Ret (t', err) \<and> multi key_of t' T L' free
    \<and> filling t' T L' free \<and> bag t' (set (inorder T)) L' = add_mset v (bag t (set (inorder T)) L)"
proof -
  let ?S = "set (inorder T)"
  have core: "bst_core key_of t T (n # free)" and L: "lists_ok key_of t ?S L" and dj: "\<forall>a\<in>?S. set (L a) \<inter> set (n # free) = {}"
    using mu by (simp_all add: multi_def)
  have prev: "previous (cache t) = nil t \<or> (\<exists>a\<in>?S. previous (cache t) \<in> set (a # L a))" and nl: "\<forall>b\<in>set (n # free). node_list t b = NULL"
    using fi by (simp_all add: filling_def)
  have n: "n \<noteq> NULL" "node_addr n" "n \<noteq> nil t" "n \<notin> ?S" "\<forall>a\<in>?S. n \<notin> set (L a)" "n \<notin> set free"
    using core dj by (auto simp: bst_core_def fl_rep_def)
  obtain fl c p where run: "jfs_fl_alloc cell_load (parent_color t) (free_list t) = (n, fl)" "c \<in> set (a # L a)" "p \<in> {c, n}"
    "jfs_bst_puts attach_nodes fuel t v (key_of v) err = Ret ((packed t fl n v)
        \<lparr>node_list := (node_list t)(n := node_list t c, c := n), cache := (cache t)\<lparr>previous := p\<rparr>\<rparr>, err)"
    using puts_present_run[OF core L prev n(5) a fuel] by blast
  let ?m = "(node_list t)(n := node_list t c, c := n)"
  define t' where "t' = (packed t fl n v)\<lparr>node_list := ?m, cache := (cache t)\<lparr>previous := p\<rparr>\<rparr>"
  have t': "node_list t' = ?m" "nil t' = nil t" "\<forall>x. val_at t' x = (if x = n then v else val_at t x)" "previous (cache t') = p"
    using val_at_packed[of t fl n v] by (simp_all add: t'_def) (simp_all add: val_at_def)
  have cn: "c \<noteq> n" using run(2) n(4,5) a(1) by auto
  obtain ys where ys: "fl_chain ?m (?m a) ys" "mset ys = add_mset n (mset (L a))"
    using attach_chain[of ?m c n "node_list t" a "L a"] cn n(1,4,5) a(1) run(2) L by (auto simp: lists_ok_def)
  let ?L = "L(a := ys)"
  have "bst_core key_of t' T free"
    using core_relist[OF packed_core[OF core run(1)], of "t\<lparr>cache := (cache t)\<lparr>previous := p\<rparr>\<rparr>"] by (simp add: t'_def)
  moreover have "lists_ok key_of t' ?S ?L"
    by (rule lists_attach[OF L a(1) run(2) n(1-5) ys _ t'(1-3) a(2)]) simp
  moreover have set: "set ys = insert n (set (L a))" using arg_cong[OF ys(2), of set_mset] by simp
  moreover from this have "\<forall>a'\<in>?S. set (?L a') \<inter> set free = {}" using dj n(6) by auto
  moreover have "filling t' T ?L free"
  proof -
    have "c \<notin> set free" using run(2) a(1) core dj by (auto simp: bst_core_def)
    hence "\<forall>b\<in>set free. node_list t' b = NULL" using nl n(6) t'(1) by auto
    moreover have "p \<in> set (a # ?L a)" using run(2,3) set by auto
    ultimately show ?thesis using t'(4) a(1) by (auto simp: filling_def)
  qed
  moreover have "bag t' ?S ?L = add_mset v (bag t ?S L)"
    by (rule bag_attach[OF _ a(1) ys(2) n(4,5) t'(3)]) simp
  ultimately show ?thesis using run(4) unfolding t'_def[symmetric] multi_def
    by (intro exI[of _ t'] exI[of _ ?L]) simp
qed

text \<open>A put of a new key makes a node of the tree with an empty list.\<close>

lemma puts_absent:
  assumes mu: "multi key_of t T L (n # free)" and fi: "filling t T L (n # free)"
    and new: "key_of v \<notin> (key_of \<circ> val_at t) ` set (inorder T)" and fuel: "height T < fuel"
  shows "\<exists>t' T' L'. jfs_bst_puts attach fuel t v (key_of v) err = Ret (t', err) \<and> multi key_of t' T' L' free
    \<and> filling t' T' L' free \<and> bag t' (set (inorder T')) L' = add_mset v (bag t (set (inorder T)) L)"
proof -
  let ?S = "set (inorder T)" and ?L = "L(n := [])"
  have core: "bst_core key_of t T (n # free)" and L: "lists_ok key_of t ?S L" and dj: "\<forall>a\<in>?S. set (L a) \<inter> set (n # free) = {}"
    using mu by (simp_all add: multi_def)
  have nl: "\<forall>b\<in>set (n # free). node_list t b = NULL" using fi by (simp add: filling_def)
  have n: "n \<notin> ?S" "\<forall>a\<in>?S. n \<notin> set (L a)" "n \<notin> set free" using core dj by (auto simp: bst_core_def fl_rep_def)
  have prev: "previous (cache t) \<noteq> nil t \<longrightarrow> previous (cache t) \<noteq> n \<and> key_of (val_at t (previous (cache t))) \<noteq> key_of v"
  proof
    assume "previous (cache t) \<noteq> nil t"
    then obtain a where a: "a \<in> ?S" "previous (cache t) \<in> set (a # L a)" using fi by (auto simp: filling_def)
    hence "key_of (val_at t (previous (cache t))) = key_of (val_at t a)" using L by (auto simp: lists_ok_def)
    moreover have "key_of (val_at t a) \<noteq> key_of v" using new a(1) by (auto simp: image_iff)
    ultimately show "previous (cache t) \<noteq> n \<and> key_of (val_at t (previous (cache t))) \<noteq> key_of v" using a n by auto
  qed
  obtain t' T' where t': "jfs_bst_puts attach fuel t v (key_of v) err = Ret (t', err)" "bst_core key_of t' T' free"
    "set (inorder T') = insert n ?S" "node_list t' = node_list t" "nil t' = nil t" "previous (cache t') = n"
    "\<forall>a. val_at t' a = (if a = n then v else val_at t a)"
    using puts_new_core[OF core new prev fuel] by blast
  have "lists_ok key_of t' (insert n ?S) ?L"
    using L n nl t'(4,5,7) unfolding lists_ok_def by auto
  moreover have "\<forall>a\<in>insert n ?S. set (?L a) \<inter> set free = {}" using dj by auto
  moreover have "filling t' T' ?L free" using nl t'(3,4,6) by (auto simp: filling_def)
  moreover have "bag t' (insert n ?S) ?L = add_mset v (bag t ?S L)"
  proof -
    have "bag t' ?S ?L = bag t ?S L"
      unfolding bag_def using image_keep[OF n(1,2) t'(7)] n(1) by (intro sum.cong) auto
    thus ?thesis using n(1) t'(7) by (simp add: bag_def)
  qed
  ultimately show ?thesis using t'(1-3) unfolding multi_def
    by (intro exI[of _ t'] exI[of _ T'] exI[of _ ?L]) simp
qed

section \<open>Filling a tree with any values\<close>

lemma bag_size: "finite S \<Longrightarrow> card S \<le> size (bag t S L)"
  by (induction S rule: finite_induct) (auto simp: bag_def)

lemma multi_height:
  assumes "multi key_of t T L free"
  shows "height T \<le> size (bag t (set (inorder T)) L)"
proof -
  have "distinct (inorder T)" using assms zrep_distinct[of t "[]" T] by (simp add: multi_def bst_core_def)
  hence "length (inorder T) = card (set (inorder T))" by (simp add: distinct_card)
  thus ?thesis using height_le_size[of T] bag_size[of "set (inorder T)" t L] by simp
qed

lemma puts_multi:
  assumes mu: "multi key_of t T L (n # free)" and fi: "filling t T L (n # free)" and fuel: "height T < fuel"
  shows "\<exists>t' T' L'. jfs_bst_puts attach_nodes fuel t v (key_of v) err = Ret (t', err) \<and> multi key_of t' T' L' free
    \<and> filling t' T' L' free \<and> bag t' (set (inorder T')) L' = add_mset v (bag t (set (inorder T)) L)"
proof (cases "key_of v \<in> (key_of \<circ> val_at t) ` set (inorder T)")
  case True
  then obtain a where "a \<in> set (inorder T)" "key_of (val_at t a) = key_of v" by (auto simp: image_iff)
  thus ?thesis using puts_present[OF mu fi _ _ fuel, of a v err] by blast
next
  case False
  show ?thesis by (rule puts_absent[OF mu fi False fuel])
qed

lemma put_all_multi:
  assumes "multi key_of t T L free" "filling t T L free" "length vs \<le> length free"
    and "size (bag t (set (inorder T)) L) + length vs < fuel"
  shows "\<exists>t' T' L'. put_all attach_nodes fuel key_of t vs = Ret (t', JCL_OK) \<and> multi key_of t' T' L' (drop (length vs) free)
    \<and> bag t' (set (inorder T')) L' = bag t (set (inorder T)) L + mset vs"
  using assms
proof (induction vs arbitrary: t T L free)
  case (Cons v vs)
  then obtain n ns where fr: "free = n # ns" by (cases free) auto
  have "height T < fuel" using multi_height[OF Cons.prems(1)] Cons.prems(4) by simp
  then obtain t1 T1 L1 where t1: "jfs_bst_puts attach_nodes fuel t v (key_of v) JCL_OK = Ret (t1, JCL_OK)"
    "multi key_of t1 T1 L1 ns" "filling t1 T1 L1 ns" "bag t1 (set (inorder T1)) L1 = add_mset v (bag t (set (inorder T)) L)"
    using puts_multi[of key_of t T L n ns fuel v JCL_OK] Cons.prems(1,2) fr by blast
  from Cons.IH[OF t1(2,3)] t1(4) Cons.prems(3,4) fr obtain t' T' L' where
    "put_all attach_nodes fuel key_of t1 vs = Ret (t', JCL_OK)" "multi key_of t' T' L' (drop (length vs) ns)"
    "bag t' (set (inorder T')) L' = bag t1 (set (inorder T1)) L1 + mset vs" by auto
  thus ?case using t1(1,4) fr by (intro exI[of _ t'] exI[of _ T'] exI[of _ L']) simp
qed auto

section \<open>Taking values from the lists\<close>

text \<open>The values at the nodes of \<open>as\<close>, in the order in which they are taken.\<close>

definition groups :: "('k, 'v) jfs_bst \<Rightarrow> (addr \<Rightarrow> addr list) \<Rightarrow> addr list \<Rightarrow> 'v list" where
  "groups t L as = concat (map (\<lambda>a. map (val_at t) (L a @ [a])) as)"

lemma groups_simps [simp]: "groups t L [] = []" "groups t L (a # as) = map (val_at t) (L a) @ val_at t a # groups t L as"
  by (simp_all add: groups_def)

lemma groups_cong: "val_at t' = val_at t \<Longrightarrow> \<forall>a\<in>set as. L' a = L a \<Longrightarrow> groups t' L' as = groups t L as"
  by (induction as) auto

lemma length_groups: "length as \<le> length (groups t L as)"
  by (induction as) auto

lemma mset_groups: "distinct as \<Longrightarrow> mset (groups t L as) = bag t (set as) L"
  by (induction as) (auto simp: bag_def)

lemma groups_order:
  assumes "sorted_wrt R (map (key_of \<circ> val_at t) as)" "\<forall>a\<in>set as. \<forall>b\<in>set (L a). key_of (val_at t b) = key_of (val_at t a)"
    and Q: "\<And>x y. R x y \<Longrightarrow> Q x y" "\<And>x. Q x x"
  shows "sorted_wrt Q (map key_of (groups t L as))"
  using assms(1,2)
proof (induction as)
  case (Cons a as)
  have low: "Q (key_of (val_at t a)) (key_of w)" if "w \<in> set (groups t L as)" for w
  proof -
    from that obtain c where c: "c \<in> set as" "key_of w = key_of (val_at t c)"
      using Cons.prems(2) by (auto simp: groups_def)
    thus ?thesis using Cons.prems(1) Q(1) by auto
  qed
  have eq: "map key_of (map (val_at t) (L a)) = replicate (length (L a)) (key_of (val_at t a))"
    using Cons.prems(2) by (intro nth_equalityI) auto
  have same: "sorted_wrt Q (replicate n k)" for n k using Q(2) by (induction n) auto
  have "sorted_wrt Q (map key_of (groups t L as))" using Cons by simp
  thus ?case unfolding groups_simps map_append eq using low Q(2) same by (simp add: sorted_wrt_append)
qed simp

lemma detach_listed:
  "node_list t a = b \<Longrightarrow> b \<noteq> NULL \<Longrightarrow>
   detach_nodes t (a + value_offset t) = (b + value_offset t, t\<lparr>node_list := (node_list t)(a := node_list t b)\<rparr>)"
  by (simp add: detach_nodes_def bst_container_node_def bst_detach_node_def Let_def)

text \<open>A value in the list at a node: its node leaves the list and becomes free, the tree does not change.\<close>

lemma take_listed:
  assumes mu: "multi key_of t T L free" and a: "a \<in> set (inorder T)" and La: "L a = b # bs"
  shows "\<exists>t'. bst_detach_and_delete detach_nodes fuel t a = Ret (t', val_at t b) \<and> multi key_of t' T (L(a := bs)) (b # free)
    \<and> val_at t' = val_at t \<and> node_list t' b = node_list t b \<and> nil t' = nil t
    \<and> previous (cache t') = previous (cache t)"
proof -
  let ?S = "set (inorder T)" and ?m = "(node_list t)(a := node_list t b)"
  have core: "bst_core key_of t T free" and L: "lists_ok key_of t ?S L" and dj: "\<forall>a\<in>?S. set (L a) \<inter> set free = {}"
    using mu by (simp_all add: multi_def)
  note LD = lists_okD[OF L a, unfolded La]
  have ch: "fl_chain (node_list t) (node_list t a) (b # bs)" and dis: "distinct (b # bs)"
    and b: "b \<notin> ?S" "b \<noteq> nil t" "node_addr b" "\<forall>a'\<in>?S. b \<in> set (L a') \<longrightarrow> a' = a"
    using LD(1,2) LD(3,4)[of b] by auto
  have bf: "b \<notin> set free" "b \<noteq> NULL" using dj[rule_format, OF a] La ch by auto
  have off: "value_offset t > 0" "copy_fits t" and fr: "fl_rep (parent_color t) (free_list t) free" using core by (simp_all add: bst_core_def)
  obtain pc fl where fl: "jfs_fl_free cell_store (parent_color t) (free_list t) b = (pc, fl)" "fl_rep pc fl (b # free)"
    using free_rep[OF fr bf pool_bound[of b free]] bf fr fl_rep_not_null[OF fr] by (auto simp: fl_rep_def)
  have pc: "pc = (parent_color t)(b := fl_list (free_list t))" using fl(1) bf(2) by (simp add: jfs_fl_free_def cell_store_def)
  let ?t' = "t\<lparr>node_list := ?m, parent_color := pc, free_list := fl\<rparr>"
  have rt: "root t \<noteq> nil t" using core a by (cases T) (auto simp: bst_core_def zrep_def)
  have ab: "a \<noteq> b" using a b(1) by auto
  hence run: "bst_detach_and_delete detach_nodes fuel t a = Ret (?t', val_at t b)"
    using detach_listed[of t a b] ch off rt fl(1)
    by (simp add: bst_detach_and_delete_def container_value_off bst_container_node_def bst_fl_free_def val_at_def Let_def)
  have val: "val_at ?t' = val_at t" by (rule ext) (simp add: val_at_def)
  have "zrep ?t' [] T"
    using zrep_free_cell[of t T b] core b(1,2) unfolding pc by (simp add: bst_core_def zrep_def)
  hence "bst_core key_of ?t' T (b # free)"
    using core b fl(2) val by (simp add: bst_core_def ends_ok_def)
  moreover have "lists_ok key_of ?t' ?S (L(a := bs))"
    unfolding lists_ok_def
  proof (intro ballI conjI impI)
    fix a' assume a': "a' \<in> ?S"
    have sub: "set ((L(a := bs)) a') \<subseteq> set (L a')" using La by auto
    have La': "fl_chain (node_list t) (node_list t a') (L a')" "distinct (L a')" "set (L a') \<inter> ?S = {}"
      "\<forall>x\<in>set (L a'). x \<noteq> nil t \<and> node_addr x \<and> key_of (val_at t x) = key_of (val_at t a') \<and> (\<forall>a''\<in>?S. x \<in> set (L a'') \<longrightarrow> a'' = a')"
      using lists_okD[OF L a'] by blast+
    have "fl_chain ?m (?m a') ((L(a := bs)) a')"
    proof (cases "a' = a")
      case True
      have "a \<notin> set bs" using La'(3) True La a by auto
      thus ?thesis using True ch by simp
    next
      case False
      have "a \<notin> set (L a')" using La'(3) a by auto
      thus ?thesis using False La'(1) by simp
    qed
    thus "fl_chain (node_list ?t') (node_list ?t' a') ((L(a := bs)) a')" by simp
    show "distinct ((L(a := bs)) a')" using La'(2) dis by simp
    fix x assume "x \<in> set ((L(a := bs)) a')"
    hence x: "x \<in> set (L a')" using sub by blast
    thus "x \<notin> ?S" "x \<noteq> nil ?t'" "node_addr x" "key_of (val_at ?t' x) = key_of (val_at ?t' a')" using La'(3,4) unfolding val by auto
    fix a'' assume "a'' \<in> ?S" "x \<in> set ((L(a := bs)) a'')"
    thus "a'' = a'" using x La'(4) La by (auto split: if_splits)
  qed
  moreover have "\<forall>a'\<in>?S. set ((L(a := bs)) a') \<inter> set (b # free) = {}"
  proof
    fix a' assume a': "a' \<in> ?S"
    show "set ((L(a := bs)) a') \<inter> set (b # free) = {}"
    proof (cases "a' = a")
      case True
      thus ?thesis using dj[rule_format, OF a] La dis by auto
    next
      case False
      thus ?thesis using dj[rule_format, OF a'] b(4) a' by auto
    qed
  qed
  ultimately show ?thesis using run val ab unfolding multi_def by (intro exI[of _ ?t']) simp
qed

lemma lists_subset:
  assumes "lists_ok key_of t S L" "S' \<subseteq> S" "node_list t' = node_list t" "nil t' = nil t" "val_at t' = val_at t"
  shows "lists_ok key_of t' S' L"
  using assms unfolding lists_ok_def by (auto simp: subset_iff)

text \<open>The last value of a node: the node itself leaves the tree.\<close>

lemma take_plain:
  assumes mu: "multi key_of t T L free" and a: "a \<in> set (inorder T)" and La: "L a = []"
    and two: "2 \<le> length (inorder T)" and fuel: "height T < fuel"
  shows "\<exists>t' T'. bst_detach_and_delete detach_nodes fuel t a = Ret (t', val_at t a) \<and> multi key_of t' T' L (a # free)
    \<and> inorder T' = remove1 a (inorder T) \<and> val_at t' = val_at t"
proof -
  let ?S = "set (inorder T)"
  have core: "bst_core key_of t T free" and L: "lists_ok key_of t ?S L" and dj: "\<forall>a\<in>?S. set (L a) \<inter> set free = {}"
    using mu by (simp_all add: multi_def)
  have "node_list t a = NULL" using L a La by (auto simp: lists_ok_def)
  then obtain t' T' where t': "bst_detach_and_delete detach_nodes fuel t a = Ret (t', val_at t a)" "bst_core key_of t' T' (a # free)"
    "inorder T' = remove1 a (inorder T)" "only_removed t t'"
    using take_node[where detach = detach_nodes, OF core a two fuel detach_alone] by blast
  have sub: "set (inorder T') \<subseteq> ?S" unfolding t'(3) by (rule set_remove1_subset)
  have "lists_ok key_of t' (set (inorder T')) L"
    using lists_subset[OF L sub] t'(4) only_removed_val[OF t'(4)] by (simp add: only_removed_def)
  moreover have "\<forall>a'\<in>set (inorder T'). set (L a') \<inter> set (a # free) = {}" using dj sub L a by (auto simp: lists_ok_def)
  ultimately show ?thesis using t'(1-3) only_removed_val[OF t'(4)] unfolding multi_def by blast
qed

section \<open>Draining a tree from one end\<close>

text \<open>The interface: a container that is seen as a list and hands out its first value unless it is the last one.\<close>

fun take_many :: "('s \<Rightarrow> ('s \<times> 'v) run) \<Rightarrow> nat \<Rightarrow> 's \<Rightarrow> ('s \<times> 'v list) run" where
  "take_many out 0 s = Ret (s, [])"
| "take_many out (Suc n) s = run_bind (out s) (\<lambda>(s, v). run_bind (take_many out n s) (\<lambda>(s, vs). Ret (s, v # vs)))"

locale end_taker =
  fixes holds :: "'s \<Rightarrow> 'v list \<Rightarrow> bool" and out :: "'s \<Rightarrow> ('s \<times> 'v) run"
  assumes out_first: "holds s (x # y # xs) \<Longrightarrow> \<exists>s'. out s = Ret (s', x) \<and> holds s' (y # xs)"
begin

lemma take_many_prefix:
  "holds s xs \<Longrightarrow> n < length xs \<Longrightarrow> \<exists>s'. take_many out n s = Ret (s', take n xs) \<and> holds s' (drop n xs)"
proof (induction n arbitrary: s xs)
  case (Suc n)
  then obtain x y ys where xs: "xs = x # y # ys" by (cases xs; cases "tl xs") auto
  from out_first[OF Suc.prems(1)[unfolded xs]] obtain s' where "out s = Ret (s', x)" "holds s' (y # ys)" by blast
  with Suc.IH[of s' "y # ys"] Suc.prems(2) xs show ?case by auto
qed auto

end

definition the_value :: "(('k, 'v) jfs_bst \<times> 'v option \<times> jcl_err) run \<Rightarrow> (('k, 'v) jfs_bst \<times> 'v) run" where
  "the_value m = run_bind m (\<lambda>(t, v, err). case v of Some x \<Rightarrow> if err = JCL_OK then Ret (t, x) else Fault | None \<Rightarrow> Fault)"

definition out_smallest :: "nat \<Rightarrow> ('k, 'v) jfs_bst \<Rightarrow> (('k, 'v) jfs_bst \<times> 'v) run" where
  "out_smallest fuel t = the_value (jfs_bst_get_smallest detach_nodes fuel t JCL_OK)"

definition out_largest :: "nat \<Rightarrow> ('k, 'v) jfs_bst \<Rightarrow> (('k, 'v) jfs_bst \<times> 'v) run" where
  "out_largest fuel t = the_value (jfs_bst_get_largest detach_nodes fuel t JCL_OK)"

text \<open>One step at either end: what is left is seen in the same order.\<close>

lemma take_first:
  assumes mu: "multi key_of t T L free" and as: "a # as = f (inorder T)" "f = (\<lambda>xs. xs) \<or> f = rev"
    and gr: "groups t L (a # as) = x # y # zs" and fuel: "height T < fuel"
  shows "\<exists>t' T' L' free'. bst_detach_and_delete detach_nodes fuel t a = Ret (t', x) \<and> multi key_of t' T' L' free'
    \<and> groups t' L' (f (inorder T')) = y # zs"
proof -
  have set: "set (a # as) = set (inorder T)" unfolding as(1) using as(2) by auto
  hence a: "a \<in> set (inorder T)" by auto
  have dis: "distinct (a # as)"
    unfolding as(1) using as(2) mu zrep_distinct[of t "[]" T] by (auto simp: multi_def bst_core_def)
  show ?thesis
  proof (cases "L a")
    case Nil
    have gs: "val_at t a = x" "groups t L as = y # zs" using gr Nil by auto
    have "length (inorder T) = length (a # as)" unfolding as(1) using as(2) by auto
    hence two: "2 \<le> length (inorder T)" using gs(2) by (cases as) auto
    obtain t' T' where t': "bst_detach_and_delete detach_nodes fuel t a = Ret (t', val_at t a)" "multi key_of t' T' L (a # free)"
      "inorder T' = remove1 a (inorder T)" "val_at t' = val_at t"
      using take_plain[OF mu a Nil two fuel] by blast
    have "f (inorder T') = as" using as(2)
    proof
      assume f: "f = (\<lambda>xs. xs)"
      hence "inorder T = a # as" using as(1) by simp
      thus ?thesis using f t'(3) by simp
    next
      assume f: "f = rev"
      hence "inorder T = rev as @ [a]" using arg_cong[OF as(1), of rev] by simp
      thus ?thesis using f t'(3) dis by (simp add: remove1_append)
    qed
    moreover have "groups t' L as = groups t L as" by (rule groups_cong[OF t'(4)]) simp
    ultimately show ?thesis using t'(1,2) gs by (intro exI[of _ t'] exI[of _ T'] exI[of _ L] exI[of _ "a # free"]) simp
  next
    case (Cons b bs)
    obtain t' where t': "bst_detach_and_delete detach_nodes fuel t a = Ret (t', val_at t b)" "multi key_of t' T (L(a := bs)) (b # free)"
      "val_at t' = val_at t" using take_listed[OF mu a Cons] by blast
    have "groups t' (L(a := bs)) as = groups t L as" using dis by (intro groups_cong[OF t'(3)]) auto
    hence "groups t' (L(a := bs)) (a # as) = y # zs" using gr Cons t'(3) by simp
    moreover have "val_at t b = x" using gr Cons by simp
    ultimately show ?thesis using t'(1,2) unfolding as(1) by blast
  qed
qed

text \<open>A tree as the list of its values in the order of their keys, for the source's own \<open>bst_detach_node\<close>.\<close>

definition bst_holds :: "(addr list \<Rightarrow> addr list) \<Rightarrow> ('v \<Rightarrow> 'k :: linorder) \<Rightarrow> nat \<Rightarrow> ('k, 'v) jfs_bst \<Rightarrow> 'v list \<Rightarrow> bool" where
  "bst_holds f key_of fuel t xs \<longleftrightarrow> (\<exists>T L free. multi key_of t T L free \<and> groups t L (f (inorder T)) = xs \<and> length xs < fuel)"

lemma holds_first:
  assumes "bst_holds f key_of fuel t (x # y # xs)" "f = (\<lambda>xs. xs) \<or> f = rev"
  shows "\<exists>T t'. inorder T \<noteq> [] \<and> ends_ok t (inorder T) \<and> nil t \<notin> set (inorder T)
    \<and> bst_detach_and_delete detach_nodes fuel t (hd (f (inorder T))) = Ret (t', x) \<and> bst_holds f key_of fuel t' (y # xs)"
proof -
  obtain T L free where t: "multi key_of t T L free" "groups t L (f (inorder T)) = x # y # xs" "length (x # y # xs) < fuel"
    using assms(1) by (auto simp: bst_holds_def)
  obtain a as where as: "a # as = f (inorder T)" using t(2) by (cases "f (inorder T)") auto
  have "length (inorder T) = length (f (inorder T))" using assms(2) by auto
  hence "height T < fuel" using height_le_size[of T] length_groups[of "f (inorder T)" t L] t(2,3) by simp
  from take_first[OF t(1) as assms(2) _ this, of x y xs] t(2) as obtain t' T' L' free' where
    "bst_detach_and_delete detach_nodes fuel t a = Ret (t', x)" "multi key_of t' T' L' free'" "groups t' L' (f (inorder T')) = y # xs"
    by auto
  moreover have "inorder T \<noteq> []" using as assms(2) by auto
  moreover have "hd (f (inorder T)) = a" unfolding as[symmetric] by simp
  moreover have "ends_ok t (inorder T)" "nil t \<notin> set (inorder T)"
    using t(1) core_nil[of key_of t T free] by (auto simp: multi_def bst_core_def)
  ultimately show ?thesis using t(3) unfolding bst_holds_def
    by (intro exI[of _ T] exI[of _ t']) auto
qed

interpretation bst_min: end_taker "bst_holds (\<lambda>xs. xs) key_of fuel" "out_smallest fuel"
  for key_of :: "'v \<Rightarrow> 'k :: linorder" and fuel
proof
  fix t x y xs assume "bst_holds (\<lambda>xs. xs) key_of fuel t (x # y # xs)"
  from holds_first[OF this] obtain T t' where "inorder T \<noteq> []" "ends_ok t (inorder T)" "nil t \<notin> set (inorder T)"
    "bst_detach_and_delete detach_nodes fuel t (hd (inorder T)) = Ret (t', x)" "bst_holds (\<lambda>xs. xs) key_of fuel t' (y # xs)" by auto
  moreover from this(1,3) have "hd (inorder T) \<noteq> nil t" by (metis hd_in_set)
  ultimately show "\<exists>t'. out_smallest fuel t = Ret (t', x) \<and> bst_holds (\<lambda>xs. xs) key_of fuel t' (y # xs)"
    by (simp add: out_smallest_def the_value_def jfs_bst_get_smallest_def ends_ok_def)
qed

interpretation bst_max: end_taker "bst_holds rev key_of fuel" "out_largest fuel"
  for key_of :: "'v \<Rightarrow> 'k :: linorder" and fuel
proof
  fix t x y xs assume "bst_holds rev key_of fuel t (x # y # xs)"
  from holds_first[OF this] obtain T t' where "inorder T \<noteq> []" "ends_ok t (inorder T)" "nil t \<notin> set (inorder T)"
    "bst_detach_and_delete detach_nodes fuel t (last (inorder T)) = Ret (t', x)" "bst_holds rev key_of fuel t' (y # xs)"
    by (auto simp: hd_rev)
  moreover from this(1,3) have "last (inorder T) \<noteq> nil t" by (metis last_in_set)
  ultimately show "\<exists>t'. out_largest fuel t = Ret (t', x) \<and> bst_holds rev key_of fuel t' (y # xs)"
    by (simp add: out_largest_def the_value_def jfs_bst_get_largest_def ends_ok_def)
qed

section \<open>The tree sorts\<close>

lemma drained:
  assumes mu: "multi key_of t T L free" and fuel: "size (bag t (set (inorder T)) L) < fuel" and n: "n < size (bag t (set (inorder T)) L)"
  shows "\<exists>t1 t2 xs ys. take_many (out_smallest fuel) n t = Ret (t1, take n xs) \<and> mset xs = bag t (set (inorder T)) L \<and> sorted (map key_of xs)
    \<and> take_many (out_largest fuel) n t = Ret (t2, take n ys) \<and> mset ys = bag t (set (inorder T)) L \<and> sorted_wrt (\<ge>) (map key_of ys)"
proof -
  let ?xs = "groups t L (inorder T)" and ?ys = "groups t L (rev (inorder T))"
  have core: "bst_core key_of t T free" and L: "lists_ok key_of t (set (inorder T)) L" using mu by (simp_all add: multi_def)
  have dis: "distinct (inorder T)" using core zrep_distinct[of t "[]" T] by (simp add: bst_core_def)
  have so: "sorted_wrt (<) (map (key_of \<circ> val_at t) (inorder T))" using core by (simp add: bst_core_def)
  have so': "sorted_wrt (>) (map (key_of \<circ> val_at t) (rev (inorder T)))" using so unfolding rev_map[symmetric] sorted_wrt_rev .
  have keys: "\<forall>a\<in>set (inorder T). \<forall>b\<in>set (L a). key_of (val_at t b) = key_of (val_at t a)" using lists_okD(3)[OF L] by blast
  have "sorted_wrt (\<le>) (map key_of ?xs)" by (rule groups_order[OF so keys]) auto
  moreover have "sorted_wrt (\<ge>) (map key_of ?ys)" by (rule groups_order[OF so']) (use keys in auto)
  moreover have bags: "mset ?xs = bag t (set (inorder T)) L" "mset ?ys = bag t (set (inorder T)) L"
    using mset_groups[OF dis, of t L] mset_groups[of "rev (inorder T)" t L] dis by simp_all
  moreover from this have len: "length ?xs = size (bag t (set (inorder T)) L)" "length ?ys = size (bag t (set (inorder T)) L)" by (metis size_mset)+
  moreover have "bst_holds (\<lambda>xs. xs) key_of fuel t ?xs" "bst_holds rev key_of fuel t ?ys"
    using mu fuel len unfolding bst_holds_def by (intro exI[of _ T] exI[of _ L] exI[of _ free]; simp)+
  ultimately show ?thesis
    using bst_min.take_many_prefix[of key_of fuel t ?xs n] bst_max.take_many_prefix[of key_of fuel t ?ys n] n by metis
qed

lemma init_multi:
  assumes "bst_inv key_of t Tip free" "\<forall>a\<in>set free. node_list t a = NULL"
  shows "multi key_of t Tip (\<lambda>_. []) free" and "filling t Tip (\<lambda>_. []) free"
  using assms by (auto simp: multi_def filling_def lists_ok_def bst_inv_core)

lemma filled_from_init:
  assumes "bst_memory conf nl (obj_bytes t_init)" "conf_cmp conf = Some cmp" "three_way cmp key_of"
    and "\<forall>a\<in>set (comp_objs (bst_component conf)). node_list t_init a = NULL"
    and "length vs \<le> unat (dcount (desc (bst_component conf)))" "length vs < fuel"
  obtains t0 t T L free where "jfs_bst_init nl t_init conf JCL_OK = Ret (t0, JCL_OK)"
    "put_all attach_nodes fuel key_of t0 vs = Ret (t, JCL_OK)" "multi key_of t T L free" "bag t (set (inorder T)) L = mset vs"
proof -
  let ?free = "rev (comp_objs (bst_component conf))"
  obtain t0 where t0: "jfs_bst_init nl t_init conf JCL_OK = Ret (t0, JCL_OK)" "bst_inv key_of t0 Tip ?free" "node_list t0 = node_list t_init"
    using bst_memory_init[OF assms(1-3)] by blast
  have zero: "\<forall>a\<in>set ?free. node_list t0 a = NULL" using assms(4) t0(3) by simp
  have b0: "bag t0 (set (inorder Tip)) (\<lambda>_. []) = {#}" by (simp add: bag_def)
  obtain t T L where "put_all attach_nodes fuel key_of t0 vs = Ret (t, JCL_OK)" "multi key_of t T L (drop (length vs) ?free)"
    "bag t (set (inorder T)) L = mset vs"
    using put_all_multi[OF init_multi[OF t0(2) zero], of vs fuel, unfolded b0] assms(5,6) by auto
  with t0(1) that show ?thesis by blast
qed

text \<open>
  C4. The tree sorts.  Initialised on a component of nodes that have room for the header and the value, and
  whose \<open>list\<close> fields are \<open>NULL\<close> before the initialisation (no code sets them), then filled with any values,
  among them values with equal keys, which go to the list of the node with this key, and then emptied from one
  end, it hands out the values in the order of their keys: all puts and takes return without an error, \<open>n\<close> calls
  of \<open>jfs_bst_get_smallest\<close> give the first \<open>n\<close> values of an ascending arrangement \<open>xs\<close> of all values, and \<open>n\<close>
  calls of \<open>jfs_bst_get_largest\<close> the first \<open>n\<close> of a descending arrangement \<open>ys\<close>, for every \<open>n\<close> below the number
  of values.
\<close>

theorem bst_sorts:
  assumes "bst_memory conf nl (obj_bytes t_init)" "conf_cmp conf = Some cmp" "three_way cmp key_of"
    and "\<forall>a\<in>set (comp_objs (bst_component conf)). node_list t_init a = NULL"
    and "length vs \<le> unat (dcount (desc (bst_component conf)))" "length vs < fuel" "n < length vs"
  shows "\<exists>t0 t t1 t2 xs ys. jfs_bst_init nl t_init conf JCL_OK = Ret (t0, JCL_OK) \<and> put_all attach_nodes fuel key_of t0 vs = Ret (t, JCL_OK)
    \<and> take_many (out_smallest fuel) n t = Ret (t1, take n xs) \<and> mset xs = mset vs \<and> sorted (map key_of xs)
    \<and> take_many (out_largest fuel) n t = Ret (t2, take n ys) \<and> mset ys = mset vs \<and> sorted_wrt (\<ge>) (map key_of ys)"
proof -
  obtain t0 t T L free where t: "jfs_bst_init nl t_init conf JCL_OK = Ret (t0, JCL_OK)"
    "put_all attach_nodes fuel key_of t0 vs = Ret (t, JCL_OK)" "multi key_of t T L free" "bag t (set (inorder T)) L = mset vs"
    by (rule filled_from_init[OF assms(1-6)])
  from drained[OF t(3), of fuel n] assms(6,7) t(1,2) show ?thesis unfolding t(4) by auto
qed

theorem bst_sorts_witness:
  "\<exists>t0 t t1 t2. jfs_bst_init 64 blank_tree bst_demo_conf JCL_OK = Ret (t0, JCL_OK)
     \<and> put_all attach_nodes 20 (\<lambda>v. v) t0 [5, 3, 5, 3] = Ret (t, JCL_OK)
     \<and> take_many (out_smallest 20) 3 t = Ret (t1, [3, 3, 5]) \<and> take_many (out_largest 20) 3 t = Ret (t2, [5, 5, 3])"
proof -
  let ?vs = "[5, 3, 5, 3 :: int]"
  have vs: "\<forall>a\<in>set (comp_objs (bst_component bst_demo_conf)). node_list blank_tree a = NULL"
    "length ?vs \<le> unat (dcount (desc (bst_component bst_demo_conf)))" "length ?vs < 20" "3 < length ?vs"
    by (simp_all add: bst_demo_conf_def blank_tree_def)
  obtain t0 t t1 t2 xs ys where r: "jfs_bst_init 64 blank_tree bst_demo_conf JCL_OK = Ret (t0, JCL_OK)"
    "put_all attach_nodes 20 (\<lambda>v. v) t0 ?vs = Ret (t, JCL_OK)" "take_many (out_smallest 20) 3 t = Ret (t1, take 3 xs)"
    "mset xs = mset ?vs" "sorted (map (\<lambda>v. v) xs)" "take_many (out_largest 20) 3 t = Ret (t2, take 3 ys)"
    "mset ys = mset ?vs" "sorted_wrt (\<ge>) (map (\<lambda>v. v) ys)"
    using bst_sorts[OF bst_demo_conf_ok demo_three_way vs] by blast
  have "xs = sort ?vs" using r(4,5) by (intro properties_for_sort[symmetric]) simp_all
  moreover have "rev ys = sort ?vs" using r(7,8) by (intro properties_for_sort[symmetric]) (simp_all add: sorted_wrt_rev)
  hence "ys = rev (sort ?vs)" by (metis rev_rev_ident)
  ultimately have "take 3 xs = [3, 3, 5]" "take 3 ys = [5, 5, 3]" by simp_all
  thus ?thesis using r(1-3,6) by auto
qed

end
