(* ===== verification/Bst_Bag.thy ===== *)
theory Bst_Bag
  imports Bst_Multi
begin

text \<open>
  Single operations of \<open>src/binary_search_tree.c\<close> on trees with lists of equal keys, seen as the multiset of their
  values: \<open>jfs_bst_takes\<close> of a key and \<open>jfs_bst_get_smallest\<close> and \<open>jfs_bst_get_largest\<close> remove one value each,
  and a search takes logarithmic time.  The invariant \<open>multi\<close> survives, but neither that \<open>cache.previous\<close> is a node
  of the tree nor that free nodes have no list: the last two properties show what becomes of a value that is put
  into such a node.
\<close>

section \<open>The multiset of the values\<close>

lemma bag_remove: "finite S \<Longrightarrow> a \<in> S \<Longrightarrow> bag t S L = image_mset (val_at t) (mset (a # L a)) + bag t (S - {a}) L"
  unfolding bag_def by (rule sum.remove)

lemma bag_cong: "val_at t' = val_at t \<Longrightarrow> \<forall>a\<in>S. L' a = L a \<Longrightarrow> bag t' S L' = bag t S L"
  unfolding bag_def by (intro sum.cong) auto

lemma in_bag:
  assumes "lists_ok key_of t S L" "finite S" "w \<in># bag t S L"
  shows "\<exists>a\<in>S. key_of w = key_of (val_at t a)"
  using assms lists_okD(3)[OF assms(1)] by (auto simp: bag_def set_mset_sum)

lemma node_in_bag: "finite S \<Longrightarrow> a \<in> S \<Longrightarrow> val_at t a \<in># bag t S L"
  by (auto simp: bag_def set_mset_sum)

lemma bag_keys:
  "multi key_of t T L free \<Longrightarrow> key_of ` set_mset (bag t (set (inorder T)) L) = (key_of \<circ> val_at t) ` set (inorder T)"
  using in_bag[of key_of t "set (inorder T)" L] node_in_bag[of "set (inorder T)" _ t L] by (fastforce simp: multi_def image_iff)

lemma two_values:
  assumes "multi key_of t T L free" "a \<in> set (inorder T)" "L a = []" "2 \<le> size (bag t (set (inorder T)) L)"
  shows "2 \<le> length (inorder T)"
proof (rule ccontr)
  assume "\<not> 2 \<le> length (inorder T)"
  hence "inorder T = [a]" using assms(2) by (cases "inorder T"; cases "tl (inorder T)") auto
  thus False using assms(3,4) by (simp add: bag_def)
qed

section \<open>Taking one value\<close>

lemma take_one:
  assumes mu: "multi key_of t T L free" and a: "a \<in> set (inorder T)" and two: "2 \<le> size (bag t (set (inorder T)) L)"
    and fuel: "height T < fuel"
  shows "\<exists>t' T' L' n v. bst_detach_and_delete detach_nodes fuel t a = Ret (t', v) \<and> multi key_of t' T' L' (n # free)
    \<and> key_of v = key_of (val_at t a) \<and> bag t (set (inorder T)) L = add_mset v (bag t' (set (inorder T')) L')
    \<and> length (inorder T') \<le> length (inorder T)"
proof (cases "L a")
  case Nil
  obtain t' T' where t': "bst_detach_and_delete detach_nodes fuel t a = Ret (t', val_at t a)" "multi key_of t' T' L (a # free)"
    "inorder T' = remove1 a (inorder T)" "val_at t' = val_at t"
    using take_plain[OF mu a Nil two_values[OF mu a Nil two] fuel] by blast
  have "distinct (inorder T)" using mu zrep_distinct[of t "[]" T] by (simp add: multi_def bst_core_def)
  hence "set (inorder T') = set (inorder T) - {a}" by (simp add: t'(3))
  moreover have "bag t' (set (inorder T) - {a}) L = bag t (set (inorder T) - {a}) L" by (rule bag_cong[OF t'(4)]) simp
  ultimately have "bag t (set (inorder T)) L = add_mset (val_at t a) (bag t' (set (inorder T')) L)"
    using bag_remove[OF _ a, of t L] Nil by simp
  moreover have "length (inorder T') \<le> length (inorder T)" by (simp add: t'(3) length_remove1)
  ultimately show ?thesis using t'(1,2)
    by (intro exI[of _ t'] exI[of _ T'] exI[of _ L] exI[of _ a] exI[of _ "val_at t a"]) simp
next
  case (Cons b bs)
  obtain t' where t': "bst_detach_and_delete detach_nodes fuel t a = Ret (t', val_at t b)" "multi key_of t' T (L(a := bs)) (b # free)"
    "val_at t' = val_at t" using take_listed[OF mu a Cons] by blast
  have "bag t' (set (inorder T) - {a}) (L(a := bs)) = bag t (set (inorder T) - {a}) L" by (rule bag_cong[OF t'(3)]) simp
  moreover have "bag t' (set (inorder T)) (L(a := bs)) = image_mset (val_at t) (mset (a # bs)) + bag t' (set (inorder T) - {a}) (L(a := bs))"
    using bag_remove[OF _ a, of t' "L(a := bs)"] by (simp add: t'(3))
  moreover have "bag t (set (inorder T)) L = image_mset (val_at t) (mset (a # b # bs)) + bag t (set (inorder T) - {a}) L"
    using bag_remove[OF _ a, of t L] by (simp add: Cons)
  ultimately have "bag t (set (inorder T)) L = add_mset (val_at t b) (bag t' (set (inorder T)) (L(a := bs)))"
    by (simp add: add_mset_commute)
  moreover have "key_of (val_at t b) = key_of (val_at t a)" 
    using lists_okD(3)[of key_of t "set (inorder T)" L a b] mu a Cons by (simp add: multi_def)
  ultimately show ?thesis using t'(1,2)
    by (intro exI[of _ t'] exI[of _ T] exI[of _ "L(a := bs)"] exI[of _ b] exI[of _ "val_at t b"]) simp
qed

lemma multi_ends:
  assumes "multi key_of t T L free" "2 \<le> size (bag t (set (inorder T)) L)"
  shows "smallest (cache t) = hd (inorder T)" "largest (cache t) = last (inorder T)" "inorder T \<noteq> []"
    and "smallest (cache t) \<noteq> nil t" "largest (cache t) \<noteq> nil t" "root t \<noteq> nil t"
proof -
  show ne: "inorder T \<noteq> []" using assms(2) by (auto simp: bag_def)
  have core: "bst_core key_of t T free" using assms(1) by (simp add: multi_def)
  show e: "smallest (cache t) = hd (inorder T)" "largest (cache t) = last (inorder T)"
    using core ne by (auto simp: bst_core_def ends_ok_def)
  show "smallest (cache t) \<noteq> nil t" "largest (cache t) \<noteq> nil t" using e ne core_nil[OF core] by (metis hd_in_set last_in_set)+
  show "root t \<noteq> nil t" using core ne by (cases T) (auto simp: bst_core_def zrep_def)
qed

lemma sorted_ends: "sorted (map f xs) \<Longrightarrow> x \<in> set xs \<Longrightarrow> f (hd xs) \<le> f x \<and> f x \<le> f (last xs)"
  by (induction xs) auto

lemma end_keys:
  assumes mu: "multi key_of t T L free" and w: "w \<in># bag t (set (inorder T)) L"
  shows "key_of (val_at t (hd (inorder T))) \<le> key_of w" "key_of w \<le> key_of (val_at t (last (inorder T)))"
proof -
  obtain a where a: "a \<in> set (inorder T)" "key_of w = key_of (val_at t a)"
    using in_bag[of key_of t "set (inorder T)" L w] mu w by (auto simp: multi_def)
  have "sorted (map (key_of \<circ> val_at t) (inorder T))"
    using mu by (auto simp: multi_def bst_core_def strict_sorted_iff)
  thus "key_of (val_at t (hd (inorder T))) \<le> key_of w" "key_of w \<le> key_of (val_at t (last (inorder T)))"
    using sorted_ends[of "key_of \<circ> val_at t" "inorder T" a] a by simp_all
qed

text \<open>A node that is not at an end of the tree is not alone.\<close>

lemma uncached_two:
  assumes mu: "multi key_of t T L free" and a: "a \<in> set (inorder T)" "smallest (cache t) = nil t \<or> smallest (cache t) \<noteq> a"
  shows "2 \<le> size (bag t (set (inorder T)) L)"
proof -
  have core: "bst_core key_of t T free" using mu by (simp add: multi_def)
  have "smallest (cache t) = hd (inorder T)" using core a(1) by (auto simp: bst_core_def ends_ok_def)
  hence hd: "hd (inorder T) \<noteq> a" using a core_nil[OF core] by auto
  have "distinct (inorder T)" using core zrep_distinct[of t "[]" T] by (simp add: bst_core_def)
  hence "length (inorder T) \<le> size (bag t (set (inorder T)) L)"
    using bag_size[of "set (inorder T)" t L] by (simp add: distinct_card)
  moreover have "2 \<le> length (inorder T)" using a(1) hd by (cases "inorder T"; cases "tl (inorder T)") auto
  ultimately show ?thesis by simp
qed

lemma find_by_height:
  assumes mu: "multi key_of t T L free" and h: "height T < fuel"
  shows "\<exists>loc. bst_find fuel t key = Ret loc
    \<and> (if key \<in> key_of ` set_mset (bag t (set (inorder T)) L)
       then loc_node loc \<noteq> nil t \<and> key_of (val_at t (loc_node loc)) = key else loc_node loc = nil t)"
proof -
  have core: "bst_core key_of t T free" using mu by (simp add: multi_def)
  show ?thesis
  proof (cases "key \<in> (key_of \<circ> val_at t) ` set (inorder T)")
    case True
    then obtain a where a: "a \<in> set (inorder T)" "key_of (val_at t a) = key" by auto
    hence "a \<noteq> nil t" using core_nil[OF core] by auto
    thus ?thesis using find_present_core[OF core a(1) h] a(2) True unfolding bag_keys[OF mu] by auto
  next
    case False
    thus ?thesis using find_absent_core[OF core False h] unfolding bag_keys[OF mu] by auto
  qed
qed

lemma find_in_bag:
  assumes mu: "multi key_of t T L free" and fuel: "length (inorder T) < fuel"
  shows "\<exists>loc. bst_find fuel t key = Ret loc \<and> (loc_node loc = nil t \<longleftrightarrow> key \<notin> key_of ` set_mset (bag t (set (inorder T)) L))"
  using find_by_height[OF mu, of fuel key] height_le_size[of T] fuel by (fastforce split: if_splits)

text \<open>The height in terms of the number of values.\<close>

lemma multi_size: "multi key_of t T L free \<Longrightarrow> length (inorder T) \<le> size (bag t (set (inorder T)) L)"
  using bag_size[of "set (inorder T)" t L] zrep_distinct[of t "[]" T] by (simp add: multi_def bst_core_def distinct_card)

lemma multi_height_log:
  assumes mu: "multi key_of t T L free" and r: "(Suc (size (bag t (set (inorder T)) L)))\<^sup>2 < 2 ^ r"
  shows "height T < r"
proof -
  have "2 ^ height T \<le> (Suc (length (inorder T)))\<^sup>2" using mu by (intro rb_height) (simp add: multi_def bst_core_def)
  also have "\<dots> \<le> (Suc (size (bag t (set (inorder T)) L)))\<^sup>2" using multi_size[OF mu] by (intro power_mono) simp_all
  also note r
  finally show ?thesis by (simp only: power_strict_increasing_iff[of "2::nat"])
qed

section \<open>A tree to try\<close>

definition filled_with :: "int list \<Rightarrow> (int, int) jfs_bst run" where
  "filled_with vs = run_bind (jfs_bst_init 64 blank_tree bst_demo_conf JCL_OK) (\<lambda>(t, _).
     run_bind (put_all attach_nodes 20 (\<lambda>v. v) t vs) (\<lambda>(t, _). Ret t))"

lemma filled_multi:
  assumes "length vs \<le> 4"
  obtains t T L free where "filled_with vs = Ret t" "multi (\<lambda>v. v) t T L free" "bag t (set (inorder T)) L = mset vs"
    "height T \<le> length vs" "length (inorder T) \<le> length vs"
proof -
  have zero: "\<forall>a\<in>set (comp_objs (bst_component bst_demo_conf)). node_list blank_tree a = NULL" by (simp add: blank_tree_def)
  have len: "length vs \<le> unat (dcount (desc (bst_component bst_demo_conf)))" "length vs < 20"
    using assms by (simp_all add: bst_demo_conf_def)
  obtain t0 t T L free where t0: "jfs_bst_init 64 blank_tree bst_demo_conf JCL_OK = Ret (t0, JCL_OK)"
    and t: "put_all attach_nodes 20 (\<lambda>v. v) t0 vs = Ret (t, JCL_OK)" "multi (\<lambda>v. v) t T L free" "bag t (set (inorder T)) L = mset vs"
    by (rule filled_from_init[OF bst_demo_conf_ok demo_three_way zero len])
  have "distinct (inorder T)" using t(2) zrep_distinct[of t "[]" T] by (simp add: multi_def bst_core_def)
  hence "length (inorder T) \<le> length vs"
    using bag_size[of "set (inorder T)" t L] t(3) by (simp add: distinct_card)
  moreover from this have "height T \<le> length vs" using height_le_size[of T] by simp
  ultimately show ?thesis using that t t0 by (simp add: filled_with_def)
qed

section \<open>Properties\<close>

text \<open>
  C15. On a tree with any values, equal keys among them, \<open>jfs_bst_takes\<close> of a key that is in the tree but is not the
  key of a cached node returns a value with this key without an error, removes exactly this value, keeps the
  invariant of the tree and of its lists, and frees one node.  A search for the key then finds a node as long as
  there is another value with the key, and ends at the nil node otherwise.
\<close>

theorem bst_takes_one_value:
  assumes "multi key_of t T L free" and "key \<in> key_of ` set_mset (bag t (set (inorder T)) L)" and "length (inorder T) < fuel"
    and "\<forall>c\<in>{previous (cache t), smallest (cache t), largest (cache t)}. c = nil t \<or> key_of (val_at t c) \<noteq> key"
  shows "\<exists>t' T' L' n v loc. jfs_bst_takes detach_nodes fuel t key err = Ret (t', Some v, err) \<and> key_of v = key
    \<and> multi key_of t' T' L' (n # free) \<and> bag t (set (inorder T)) L = add_mset v (bag t' (set (inorder T')) L')
    \<and> bst_find fuel t' key = Ret loc \<and> (loc_node loc = nil t' \<longleftrightarrow> key \<notin> key_of ` set_mset (bag t' (set (inorder T')) L'))"
proof -
  have core: "bst_core key_of t T free" using assms(1) by (simp add: multi_def)
  obtain a where a: "a \<in> set (inorder T)" "key_of (val_at t a) = key"
    using assms(2) unfolding bag_keys[OF assms(1)] by auto
  have two: "2 \<le> size (bag t (set (inorder T)) L)"
    by (rule uncached_two[OF assms(1) a(1)]) (use assms(4) a(2) in auto)
  have h: "height T < fuel" using height_le_size[of T] assms(3) by simp
  obtain c where c: "bst_check_cache t key = Ret c" "c = nil t"
    using check_cache_result[of t _ key_of key] core assms(4) unfolding bst_core_def by (metis insert_iff)
  obtain loc where "bst_find fuel t key = Ret loc" "loc_node loc = a"
    using find_present_core[OF core a(1) h] unfolding a(2) by blast
  moreover obtain t' T' L' n v where t': "bst_detach_and_delete detach_nodes fuel t a = Ret (t', v)" "multi key_of t' T' L' (n # free)"
    "key_of v = key" "bag t (set (inorder T)) L = add_mset v (bag t' (set (inorder T')) L')" "length (inorder T') \<le> length (inorder T)"
    using take_one[OF assms(1) a(1) two h] unfolding a(2) by blast
  moreover have "a \<noteq> nil t" using a(1) core_nil[OF core] by auto
  ultimately have "jfs_bst_takes detach_nodes fuel t key err = Ret (t', Some v, err)"
    using c multi_ends(6)[OF assms(1) two] by (simp add: jfs_bst_takes_def)
  moreover obtain loc' where "bst_find fuel t' key = Ret loc'"
    "loc_node loc' = nil t' \<longleftrightarrow> key \<notin> key_of ` set_mset (bag t' (set (inorder T')) L')"
    using find_in_bag[OF t'(2), of fuel key] t'(5) assms(3) by auto
  ultimately show ?thesis using t'(2-4) by blast
qed

lemma takes_demo:
  "run_bind (filled_with [5, 5, 3, 8]) (\<lambda>t. Ret (previous (cache t) = largest (cache t))) = Ret True"
  by code_simp

theorem bst_takes_one_value_witness:
  "\<exists>t t' loc. filled_with [5, 5, 3, 8] = Ret t \<and> jfs_bst_takes detach_nodes 20 t 5 JCL_OK = Ret (t', Some 5, JCL_OK)
     \<and> bst_find 20 t' 5 = Ret loc \<and> loc_node loc \<noteq> nil t'"
proof -
  obtain t T L free where t: "filled_with [5, 5, 3, 8] = Ret t" "multi (\<lambda>v. v) t T L free"
    "bag t (set (inorder T)) L = mset [5, 5, 3, 8]" "length (inorder T) < 20"
    by (rule filled_multi[of "[5, 5, 3, 8]"]) auto
  have miss: "\<forall>c\<in>{previous (cache t), smallest (cache t), largest (cache t)}. c = nil t \<or> val_at t c \<noteq> 5"
  proof -
    have two: "2 \<le> size (bag t (set (inorder T)) L)" unfolding t(3) by simp
    note e = multi_ends[OF t(2) two]
    have "previous (cache t) = largest (cache t)" using takes_demo t(1) by simp
    moreover have "val_at t (smallest (cache t)) \<le> 3" "8 \<le> val_at t (largest (cache t))"
      using end_keys[OF t(2)] unfolding t(3) e(1,2) by simp_all
    ultimately show ?thesis by auto
  qed
  have key: "5 \<in> (\<lambda>v. v) ` set_mset (bag t (set (inorder T)) L)" unfolding t(3) by simp
  obtain t' T' L' v loc where
    r: "jfs_bst_takes detach_nodes 20 t 5 JCL_OK = Ret (t', Some v, JCL_OK)" "v = 5" "bst_find 20 t' 5 = Ret loc"
    "mset [5, 5, 3, 8] = add_mset v (bag t' (set (inorder T')) L')"
    "loc_node loc = nil t' \<longleftrightarrow> 5 \<notin> (\<lambda>v. v) ` set_mset (bag t' (set (inorder T')) L')"
    using bst_takes_one_value[where key_of = "\<lambda>v. v" and err = JCL_OK, OF t(2) key t(4) miss, unfolded t(3)] by blast
  have "bag t' (set (inorder T')) L' = {#3, 5, 8#}" using r(4) unfolding r(2) by (simp add: add_mset_commute)
  thus ?thesis using t(1) r(1-3,5) by auto
qed

text \<open>
  C16. On a tree with at least two values \<open>jfs_bst_get_smallest\<close> and \<open>jfs_bst_get_largest\<close> return without an
  error a value whose key is the smallest or the largest of all, remove exactly this value, keep the invariant of
  the tree and of its lists, and free one node.
\<close>

theorem bst_get_ends_one_value:
  assumes "multi key_of t T L free" and "2 \<le> size (bag t (set (inorder T)) L)" and "height T < fuel"
  shows "\<exists>t1 T1 L1 n1 v1 t2 T2 L2 n2 v2.
      jfs_bst_get_smallest detach_nodes fuel t err = Ret (t1, Some v1, err) \<and> multi key_of t1 T1 L1 (n1 # free)
    \<and> bag t (set (inorder T)) L = add_mset v1 (bag t1 (set (inorder T1)) L1)
    \<and> (\<forall>w\<in>#bag t1 (set (inorder T1)) L1. key_of v1 \<le> key_of w)
    \<and> jfs_bst_get_largest detach_nodes fuel t err = Ret (t2, Some v2, err) \<and> multi key_of t2 T2 L2 (n2 # free)
    \<and> bag t (set (inorder T)) L = add_mset v2 (bag t2 (set (inorder T2)) L2)
    \<and> (\<forall>w\<in>#bag t2 (set (inorder T2)) L2. key_of w \<le> key_of v2)"
proof -
  note e = multi_ends[OF assms(1,2)]
  have in_T: "smallest (cache t) \<in> set (inorder T)" "largest (cache t) \<in> set (inorder T)" using e(1-3) by simp_all
  obtain t1 T1 L1 n1 v1 where 1: "bst_detach_and_delete detach_nodes fuel t (smallest (cache t)) = Ret (t1, v1)"
    "multi key_of t1 T1 L1 (n1 # free)" "key_of v1 = key_of (val_at t (smallest (cache t)))"
    "bag t (set (inorder T)) L = add_mset v1 (bag t1 (set (inorder T1)) L1)"
    using take_one[OF assms(1) in_T(1) assms(2,3)] by blast
  obtain t2 T2 L2 n2 v2 where 2: "bst_detach_and_delete detach_nodes fuel t (largest (cache t)) = Ret (t2, v2)"
    "multi key_of t2 T2 L2 (n2 # free)" "key_of v2 = key_of (val_at t (largest (cache t)))"
    "bag t (set (inorder T)) L = add_mset v2 (bag t2 (set (inorder T2)) L2)"
    using take_one[OF assms(1) in_T(2) assms(2,3)] by blast
  have "\<forall>w\<in>#bag t1 (set (inorder T1)) L1. key_of v1 \<le> key_of w" using end_keys(1)[OF assms(1)] 1(3,4) e(1) by simp
  moreover have "\<forall>w\<in>#bag t2 (set (inorder T2)) L2. key_of w \<le> key_of v2" using end_keys(2)[OF assms(1)] 2(3,4) e(2) by simp
  moreover have "jfs_bst_get_smallest detach_nodes fuel t err = Ret (t1, Some v1, err)" using 1(1) e(4) by (simp add: jfs_bst_get_smallest_def)
  moreover have "jfs_bst_get_largest detach_nodes fuel t err = Ret (t2, Some v2, err)" using 2(1) e(5) by (simp add: jfs_bst_get_largest_def)
  ultimately show ?thesis using 1(2,4) 2(2,4) by blast
qed

theorem bst_get_ends_one_value_witness:
  "\<exists>t t1 v1 t2 v2. filled_with [3, 3, 8] = Ret t \<and> jfs_bst_get_smallest detach_nodes 20 t JCL_OK = Ret (t1, Some v1, JCL_OK)
     \<and> jfs_bst_get_largest detach_nodes 20 t JCL_OK = Ret (t2, Some v2, JCL_OK) \<and> v1 \<le> 3 \<and> 3 \<le> v2"
proof -
  obtain t T L free where t: "filled_with [3, 3, 8] = Ret t" "multi (\<lambda>v. v) t T L free"
    "bag t (set (inorder T)) L = mset [3, 3, 8]" "height T < 20"
    by (rule filled_multi[of "[3, 3, 8]"]) auto
  have two: "2 \<le> size (bag t (set (inorder T)) L)" unfolding t(3) by simp
  from bst_get_ends_one_value[OF t(2) two t(4), of JCL_OK] obtain t1 v1 B1 t2 v2 B2 where
    r: "jfs_bst_get_smallest detach_nodes 20 t JCL_OK = Ret (t1, Some v1, JCL_OK)" "mset [3, 3, 8] = add_mset v1 B1" "\<forall>w\<in>#B1. v1 \<le> w"
    "jfs_bst_get_largest detach_nodes 20 t JCL_OK = Ret (t2, Some v2, JCL_OK)" "mset [3, 3, 8] = add_mset v2 B2" "\<forall>w\<in>#B2. w \<le> v2"
    unfolding t(3) by blast
  have "3 \<in># add_mset v1 B1" "3 \<in># add_mset v2 B2" unfolding r(2,5)[symmetric] by simp_all
  thus ?thesis using t(1) r by auto
qed

text \<open>
  C24. A search takes logarithmic time and is correct.  After the initialisation and any puts that the component has
  nodes for, \<open>bst_find\<close> of any key ends within \<open>rounds\<close> comparisons, for every \<open>rounds\<close> above twice the binary
  logarithm of one more than the number of values: at a node whose value has the key when one of the values has it,
  and at the nil node otherwise.
\<close>

theorem bst_find_logarithmic:
  assumes "bst_memory conf nl (obj_bytes t_init)" "conf_cmp conf = Some cmp" "three_way cmp key_of"
    and "\<forall>a\<in>set (comp_objs (bst_component conf)). node_list t_init a = NULL"
    and "length vs \<le> unat (dcount (desc (bst_component conf)))" "length vs < fuel" "(Suc (length vs))\<^sup>2 < 2 ^ rounds"
  shows "\<exists>t0 t. jfs_bst_init nl t_init conf JCL_OK = Ret (t0, JCL_OK) \<and> put_all attach_nodes fuel key_of t0 vs = Ret (t, JCL_OK)
    \<and> (\<forall>key. \<exists>loc. bst_find rounds t key = Ret loc
         \<and> (if key \<in> key_of ` set vs then loc_node loc \<noteq> nil t \<and> key_of (val_at t (loc_node loc)) = key
            else loc_node loc = nil t))"
proof -
  obtain t0 t T L free where t: "jfs_bst_init nl t_init conf JCL_OK = Ret (t0, JCL_OK)"
    "put_all attach_nodes fuel key_of t0 vs = Ret (t, JCL_OK)" "multi key_of t T L free" "bag t (set (inorder T)) L = mset vs"
    by (rule filled_from_init[OF assms(1-6)])
  have "height T < rounds" using multi_height_log[OF t(3), of rounds] assms(7) unfolding t(4) by simp
  from find_by_height[OF t(3) this, unfolded t(4) set_mset_mset] t(1,2) show ?thesis by blast
qed

theorem bst_find_logarithmic_witness:
  "\<exists>t0 t loc loc'. jfs_bst_init 64 blank_tree bst_demo_conf JCL_OK = Ret (t0, JCL_OK)
     \<and> put_all attach_nodes 20 (\<lambda>v. v) t0 [5, 3, 5] = Ret (t, JCL_OK)
     \<and> bst_find 5 t 3 = Ret loc \<and> val_at t (loc_node loc) = 3 \<and> bst_find 5 t 4 = Ret loc' \<and> loc_node loc' = nil t"
proof -
  let ?vs = "[5, 3, 5 :: int]"
  have vs: "\<forall>a\<in>set (comp_objs (bst_component bst_demo_conf)). node_list blank_tree a = NULL"
    "length ?vs \<le> unat (dcount (desc (bst_component bst_demo_conf)))" "length ?vs < 20" "(Suc (length ?vs))\<^sup>2 < 2 ^ 5"
    by (simp_all add: bst_demo_conf_def blank_tree_def power2_eq_square)
  obtain t0 t where t: "jfs_bst_init 64 blank_tree bst_demo_conf JCL_OK = Ret (t0, JCL_OK)" "put_all attach_nodes 20 (\<lambda>v. v) t0 ?vs = Ret (t, JCL_OK)"
    and find: "\<And>key. \<exists>loc. bst_find 5 t key = Ret loc \<and> (if key \<in> (\<lambda>v. v) ` set ?vs then loc_node loc \<noteq> nil t \<and> val_at t (loc_node loc) = key
            else loc_node loc = nil t)"
    using bst_find_logarithmic[OF bst_demo_conf_ok demo_three_way vs] by blast
  have "3 \<in> (\<lambda>v. v) ` set ?vs" "4 \<notin> (\<lambda>v. v) ` set ?vs" by simp_all
  with find[of 3] find[of 4] obtain loc loc' where "bst_find 5 t 3 = Ret loc" "val_at t (loc_node loc) = 3"
    "bst_find 5 t 4 = Ret loc'" "loc_node loc' = nil t" by (auto simp del: image_ident)
  thus ?thesis using t by blast
qed

text \<open>What a put does when \<open>cache.previous\<close> is the free node that the put takes: it attaches the node to itself.\<close>

lemma puts_stale:
  assumes core: "bst_core key_of t T (n # free)" and prev: "previous (cache t) = n"
  shows "\<exists>t'. jfs_bst_puts attach_nodes fuel t w (key_of w) err = Ret (t', err) \<and> bst_core key_of t' T free
    \<and> node_list t' n = n \<and> (\<forall>a\<in>set (inorder T). val_at t' a = val_at t a)"
proof -
  have off: "value_offset t > 0" "copy_fits t" and fr: "fl_rep (parent_color t) (free_list t) (n # free)"
    and n: "n \<noteq> nil t" "n \<notin> set (inorder T)" using core by (auto simp: bst_core_def)
  obtain cmp where cmp: "bst_cmp t = Some cmp" "three_way cmp key_of" using core by (auto simp: bst_core_def)
  obtain fl where fl: "jfs_fl_alloc cell_load (parent_color t) (free_list t) = (n, fl)" using alloc_rep[OF fr] by blast
  have cnt: "fl_count (free_list t) \<noteq> 0" using fr by (auto simp: fl_rep_def)
  let ?p = "packed t fl n w"
  have hit: "bst_check_cache ?p (key_of w) = Ret n"
    using cmp_node_val[of ?p cmp] off(1) cmp n(1) prev three_way_zero[OF cmp(2)]
    by (simp add: bst_check_cache_def val_at_packed)
  let ?t' = "?p\<lparr>node_list := (node_list t)(n := n), cache := (cache t)\<lparr>previous := n\<rparr>\<rparr>"
  have att: "attach_nodes ?p (n + value_offset t) (n + value_offset t) = ?p\<lparr>node_list := (node_list t)(n := n)\<rparr>"
    by (simp add: attach_nodes_def bst_attach_node_def bst_container_node_def packed_def)
  have "jfs_bst_puts attach_nodes fuel t w (key_of w) err = Ret (?t', err)"
    using cnt fl off hit n(1) att unfolding packed_def
    by (simp add: jfs_bst_puts_def bst_pack_node_def container_value_off Let_def)
  moreover have "bst_core key_of ?t' T free"
    using core_relist[OF packed_core[OF core fl], of "t\<lparr>cache := (cache t)\<lparr>previous := n\<rparr>\<rparr>"] by simp
  moreover have "val_at ?t' a = val_at t a" if "a \<in> set (inorder T)" for a
    using that n(2) val_at_packed[of t fl n w a] by (auto simp: val_at_def)
  ultimately show ?thesis by (intro exI[of _ ?t']) simp
qed



text \<open>
  C37. A node keeps its list when it is used again.  If the node of the smallest key has at least two values in its
  list, the first of them is taken, and then a value with a new largest key is put, into the node that has
  become free, then \<open>jfs_bst_get_largest\<close> does not return this value but the second one of the old list, with a
  smaller key, and without an error.
\<close>

theorem bst_reused_node_keeps_list:
  assumes "multi key_of t T L free" and "inorder T \<noteq> []" and "L (hd (inorder T)) = b # c # cs" and "height T < fuel"
    and "\<forall>a\<in>set (inorder T). key_of (val_at t a) < key_of v"
    and "previous (cache t) \<in> insert (nil t) (set (inorder T))"
  shows "\<exists>t1 t2 t3. jfs_bst_get_smallest detach_nodes fuel t err = Ret (t1, Some (val_at t b), err)
    \<and> jfs_bst_puts attach_nodes fuel t1 v (key_of v) err = Ret (t2, err)
    \<and> jfs_bst_get_largest detach_nodes fuel t2 err = Ret (t3, Some (val_at t c), err) \<and> key_of (val_at t c) < key_of v"
proof -
  let ?a = "hd (inorder T)"
  have a: "?a \<in> set (inorder T)" using assms(2) by simp
  have core: "bst_core key_of t T free" and L: "lists_ok key_of t (set (inorder T)) L" using assms(1) by (simp_all add: multi_def)
  note Lb = lists_okD(3)[OF L a, unfolded assms(3)]
  have ch: "node_list t b = c" "c \<noteq> NULL" "b \<noteq> c" using lists_okD(1,2)[OF L a] unfolding assms(3) by auto
  have c: "key_of (val_at t c) < key_of v" using Lb[of c] assms(5) a by simp
  obtain t1 where t1: "bst_detach_and_delete detach_nodes fuel t ?a = Ret (t1, val_at t b)" "multi key_of t1 T (L(?a := c # cs)) (b # free)"
    "val_at t1 = val_at t" "node_list t1 b = c" "nil t1 = nil t"
    "previous (cache t1) = previous (cache t)"
    using take_listed[OF assms(1) a assms(3)] ch(1) by auto
  have core1: "bst_core key_of t1 T (b # free)" using t1(2) by (simp add: multi_def)
  have "smallest (cache t) = ?a" "?a \<noteq> nil t" using core a core_nil[OF core] by (auto simp: bst_core_def ends_ok_def)
  hence get: "jfs_bst_get_smallest detach_nodes fuel t err = Ret (t1, Some (val_at t b), err)"
    using t1(1) by (simp add: jfs_bst_get_smallest_def)
  have new: "key_of v \<notin> (key_of \<circ> val_at t1) ` set (inorder T)" using assms(5) t1(3) by auto
  have "previous (cache t1) \<in> insert (nil t) (set (inorder T))" using assms(6) t1(6) by simp
  hence prev: "previous (cache t1) \<noteq> nil t1 \<longrightarrow> previous (cache t1) \<noteq> b \<and> key_of (val_at t1 (previous (cache t1))) \<noteq> key_of v"
    using assms(5) t1(3,5) Lb[of b] by auto
  obtain t2 T2 where t2: "jfs_bst_puts attach_nodes fuel t1 v (key_of v) err = Ret (t2, err)" "bst_core key_of t2 T2 free"
    "set (inorder T2) = insert b (set (inorder T))" "node_list t2 = node_list t1" "\<forall>x. val_at t2 x = (if x = b then v else val_at t1 x)"
    using puts_new_core[OF core1 new prev assms(4)] by blast
  have b2: "b \<in> set (inorder T2)" using t2(3) by simp
  have "sorted (map (key_of \<circ> val_at t2) (inorder T2))" using t2(2) by (auto simp: bst_core_def strict_sorted_iff)
  hence "key_of (val_at t2 b) \<le> key_of (val_at t2 (last (inorder T2)))" using sorted_ends[of "key_of \<circ> val_at t2"] b2 by simp
  moreover have "last (inorder T2) \<in> insert b (set (inorder T))" unfolding t2(3)[symmetric] using b2 by (intro last_in_set) auto
  ultimately have "last (inorder T2) = b" using t2(5) t1(3) assms(5) by (auto simp: not_less[symmetric] split: if_splits)
  hence la: "largest (cache t2) = b" using t2(2) b2 by (auto simp: bst_core_def ends_ok_def)
  have "b \<noteq> nil t2" "root t2 \<noteq> nil t2" "value_offset t2 > 0" "copy_fits t2"
    using t2(2) b2 core_nil[OF t2(2)] by (cases T2; auto simp: bst_core_def zrep_def)+
  hence "jfs_bst_get_largest detach_nodes fuel t2 err = Ret (bst_fl_free (t2\<lparr>node_list := (node_list t2)(b := node_list t2 c)\<rparr>) c, Some (val_at t c), err)"
    using detach_listed[of t2 b c] ch(2,3) t1(3,4) t2(4) t2(5)[rule_format, of c] la
    by (simp add: jfs_bst_get_largest_def bst_detach_and_delete_def container_value_off bst_container_node_def val_at_def Let_def)
  thus ?thesis using get t2(1) c by blast
qed

lemma reuse_demo:
  "run_bind (filled_with [3, 3, 3, 8]) (\<lambda>t. let b = node_list t (smallest (cache t)) in
     Ret (b \<noteq> NULL \<and> node_list t b \<noteq> NULL \<and> previous (cache t) = largest (cache t)))
   = Ret True"
  by code_simp

theorem bst_reused_node_keeps_list_witness:
  "\<exists>t t1 t2 t3. filled_with [3, 3, 3, 8] = Ret t \<and> jfs_bst_get_smallest detach_nodes 20 t JCL_OK = Ret (t1, Some 3, JCL_OK)
     \<and> jfs_bst_puts attach_nodes 20 t1 9 9 JCL_OK = Ret (t2, JCL_OK) \<and> jfs_bst_get_largest detach_nodes 20 t2 JCL_OK = Ret (t3, Some 3, JCL_OK)"
proof -
  obtain t T L free where t: "filled_with [3, 3, 3, 8] = Ret t" "multi (\<lambda>v. v) t T L free"
    "bag t (set (inorder T)) L = mset [3, 3, 3, 8]" "height T < 20"
    by (rule filled_multi[of "[3, 3, 3, 8]"]) auto
  have "2 \<le> size (bag t (set (inorder T)) L)" unfolding t(3) by simp
  note e = multi_ends[OF t(2) this]
  let ?a = "hd (inorder T)"
  have a: "?a \<in> set (inorder T)" "last (inorder T) \<in> set (inorder T)" using e(3) by simp_all
  have L: "lists_ok (\<lambda>v. v) t (set (inorder T)) L" using t(2) by (simp add: multi_def)
  have d: "node_list t ?a \<noteq> NULL" "node_list t (node_list t ?a) \<noteq> NULL" "previous (cache t) = last (inorder T)"
    using reuse_demo t(1) e(1,2) by (simp_all add: Let_def)
  have "fl_chain (node_list t) (node_list t ?a) (L ?a)" using lists_okD(1)[OF L a(1)] .
  then obtain b c cs where bc: "L ?a = b # c # cs" using d(1,2) by (cases "L ?a"; cases "tl (L ?a)") auto
  have keys: "val_at t ` set (inorder T) = {3, 8}" using bag_keys[OF t(2)] unfolding t(3) by auto
  have lt: "\<forall>a\<in>set (inorder T). val_at t a < 9"
  proof
    fix x assume "x \<in> set (inorder T)"
    hence "val_at t x \<in> {3, 8}" unfolding keys[symmetric] by (rule imageI)
    thus "val_at t x < 9" by auto
  qed
  have prev: "previous (cache t) \<in> insert (nil t) (set (inorder T))" using d(3) a(2) by simp
  have same: "val_at t b = val_at t ?a" "val_at t c = val_at t ?a" using lists_okD(3)[OF L a(1)] bc by auto
  have "val_at t ?a \<le> 3" using end_keys(1)[OF t(2), of 3] t(3) by simp
  moreover have "val_at t ?a \<in> {3, 8}" unfolding keys[symmetric] using a(1) by (rule imageI)
  ultimately have "val_at t ?a = 3" by auto
  with bst_reused_node_keeps_list[where key_of = "\<lambda>v. v" and v = 9 and err = JCL_OK, OF t(2) e(3) bc t(4) lt prev] same t(1)
  show ?thesis by auto
qed

end
