(* ===== verification/Slab_Alloc.thy ===== *)
theory Slab_Alloc
  imports Free_List
begin

unbundle bit_operations_syntax

text \<open>
  \<open>src/slab_allocator.c\<close>: the functions of the slab allocator that have a body.  The configuration
  record is filled field by field as in \<open>sa_config_init\<close>, with \<open>size_t\<close> fields as 64-bit and
  \<open>uint32_t\<close> fields as 32-bit words.  \<open>mapped\<close> is the set of addresses the process has mapped; the
  results of \<open>mmap\<close> and \<open>munmap\<close> are parameters.
\<close>

section \<open>Configuration\<close>

definition DEFAULT_CACHE_STORE_CAPACITY :: "32 word" where "DEFAULT_CACHE_STORE_CAPACITY = 2"
definition DEFAULT_CACHE_ACQUIRE_AMOUNT :: "32 word" where "DEFAULT_CACHE_ACQUIRE_AMOUNT = 1"
definition DEFAULT_CACHE_RELEASE_AMOUNT :: "32 word" where "DEFAULT_CACHE_RELEASE_AMOUNT = 1"
definition DEFAULT_BATCH_CAPACITY :: "32 word" where "DEFAULT_BATCH_CAPACITY = 64"
definition DEFAULT_ACQUIRE_PER_SLAB :: size_t where "DEFAULT_ACQUIRE_PER_SLAB = 8"
definition DEFAULT_ALLOC_STORE_CAPACITY :: "32 word" where "DEFAULT_ALLOC_STORE_CAPACITY = 4"
definition SA_MIN_OBJ_SIZE :: size_t where "SA_MIN_OBJ_SIZE = 8"
definition PAGE_SIZE :: size_t where "PAGE_SIZE = 4096"
definition SIZEOF_SA_SLAB :: size_t where "SIZEOF_SA_SLAB = 16"
definition ULONG_MAX :: size_t where "ULONG_MAX = -1"

record jfs_sa_allocator_config =
  ac_obj_size :: size_t
  ac_obj_align :: size_t
  ac_batch_capacity :: "32 word"
  ac_alloc_store_capacity :: "32 word"
  ac_cache_store_capacity :: "32 word"
  ac_cache_acquire_amount :: "32 word"
  ac_cache_release_amount :: "32 word"
  ac_slab_acquire_count :: "32 word"

record sa_config =
  obj_align :: size_t
  obj_padded_size :: size_t
  slab_size :: size_t
  slab_offset :: addr
  slab_obj_mask :: addr
  batch_capacity :: "32 word"
  batch_per_slab :: size_t
  alloc_store_capacity :: "32 word"
  cache_store_capacity :: "32 word"
  cache_acquire_amount :: "32 word"
  cache_release_amount :: "32 word"

text \<open>The loop that doubles \<open>pages_per_slab\<close> until it reaches \<open>min_pages_needed\<close>, with fuel.\<close>

fun sa_pages_loop :: "nat \<Rightarrow> size_t \<Rightarrow> size_t \<Rightarrow> size_t run" where
  "sa_pages_loop 0 pages_per_slab min_pages_needed = Loop"
| "sa_pages_loop (Suc fuel) pages_per_slab min_pages_needed =
     (if pages_per_slab < min_pages_needed then sa_pages_loop fuel (pages_per_slab * 2) min_pages_needed
      else Ret pages_per_slab)"

definition mod_c :: "size_t \<Rightarrow> size_t \<Rightarrow> size_t run" where
  "mod_c a b = (if b = 0 then Fault else Ret (a mod b))"

definition div_c :: "size_t \<Rightarrow> size_t \<Rightarrow> size_t run" where
  "div_c a b = (if b = 0 then Fault else Ret (a div b))"

text \<open>The part of \<open>sa_config_init\<close> up to the checks of the amounts against the capacities.\<close>

definition sa_config_amounts ::
  "sa_config \<Rightarrow> jfs_sa_allocator_config \<Rightarrow> sa_config" where
  "sa_config_amounts conf alloc_conf =
     (let conf = conf\<lparr>batch_capacity := if ac_batch_capacity alloc_conf \<noteq> 0 then ac_batch_capacity alloc_conf else DEFAULT_BATCH_CAPACITY\<rparr>;
          conf = conf\<lparr>cache_acquire_amount := if ac_cache_acquire_amount alloc_conf \<noteq> 0 then ac_cache_acquire_amount alloc_conf else DEFAULT_CACHE_ACQUIRE_AMOUNT\<rparr>;
          conf = conf\<lparr>cache_release_amount := if ac_cache_release_amount alloc_conf \<noteq> 0 then ac_cache_release_amount alloc_conf else DEFAULT_CACHE_RELEASE_AMOUNT\<rparr>;
          conf = conf\<lparr>cache_store_capacity := if ac_cache_store_capacity alloc_conf \<noteq> 0 then ac_alloc_store_capacity alloc_conf else DEFAULT_CACHE_STORE_CAPACITY\<rparr>
      in conf\<lparr>alloc_store_capacity := if ac_alloc_store_capacity alloc_conf \<noteq> 0 then ac_alloc_store_capacity alloc_conf else DEFAULT_ALLOC_STORE_CAPACITY\<rparr>)"

text \<open>The part of \<open>sa_config_init\<close> from the computation of the slab size on.\<close>

definition sa_config_slab ::
  "sa_config \<Rightarrow> jfs_sa_allocator_config \<Rightarrow> jcl_err \<Rightarrow> (sa_config \<times> jcl_err) run" where
  "sa_config_slab conf alloc_conf err =
     (let acquire_per_slab = if ac_slab_acquire_count alloc_conf \<noteq> 0 then ucast (ac_slab_acquire_count alloc_conf) else DEFAULT_ACQUIRE_PER_SLAB;
          slab_size_needed =
            (acquire_per_slab * ucast (cache_acquire_amount conf) * ucast (batch_capacity conf) * obj_padded_size conf) + slab_offset conf;
          min_pages_needed = (slab_size_needed + PAGE_SIZE - 1) div PAGE_SIZE
      in if min_pages_needed > ULONG_MAX div 2 then Ret (conf, JCL_ERR_BAD_CONF)
      else run_bind (sa_pages_loop 64 1 min_pages_needed) (\<lambda>pages_per_slab.
      let conf = conf\<lparr>slab_size := pages_per_slab * PAGE_SIZE\<rparr>
      in if slab_size conf \<ge> slab_size_needed then Ret (conf, JCL_ERR_BAD_CONF)
      else assert_c ((slab_size conf AND (slab_size conf - 1)) \<noteq> 0)
      (let conf = conf\<lparr>slab_obj_mask := NOT (slab_size conf - 1)\<rparr>;
           batch_total_bytes = ucast (batch_capacity conf) * obj_padded_size conf
       in run_bind (div_c (slab_size conf - slab_offset conf + batch_total_bytes - 1) batch_total_bytes) (\<lambda>per_slab.
       let conf = conf\<lparr>batch_per_slab := per_slab\<rparr>
       in assert_c (acquire_per_slab * ucast (cache_acquire_amount conf) \<le> batch_per_slab conf)
       (if batch_per_slab conf > ucast (alloc_store_capacity conf) then Ret (conf, JCL_ERR_BAD_CONF)
        else Ret (conf, err))))))"

definition sa_config_init ::
  "sa_config \<Rightarrow> jfs_sa_allocator_config \<Rightarrow> jcl_err \<Rightarrow> (sa_config \<times> jcl_err) run" where
  "sa_config_init conf_init alloc_conf err =
     (let conf = conf_init\<lparr>obj_align := ac_obj_align alloc_conf\<rparr>
      in if obj_align conf = 0 then Ret (conf, JCL_ERR_BAD_CONF)
      else if (obj_align conf AND (obj_align conf - 1)) \<noteq> 0 then Ret (conf, JCL_ERR_BAD_CONF)
      else
      let obj_sz = if ac_obj_size alloc_conf > SA_MIN_OBJ_SIZE then ac_obj_size alloc_conf else SA_MIN_OBJ_SIZE;
          conf = conf\<lparr>obj_padded_size := (obj_sz + obj_align conf - 1) AND NOT (obj_align conf - 1)\<rparr>
      in run_bind (mod_c (obj_padded_size conf) (obj_align conf)) (\<lambda>r. assert_c (r = 0)
      (let conf = conf\<lparr>slab_offset := (SIZEOF_SA_SLAB + obj_align conf - 1) AND NOT (obj_align conf - 1)\<rparr>
       in run_bind (mod_c (slab_offset conf) (obj_align conf)) (\<lambda>r. assert_c (r = 0)
       (let conf = sa_config_amounts conf alloc_conf
        in if cache_acquire_amount conf > cache_store_capacity conf then Ret (conf, JCL_ERR_BAD_CONF)
        else if cache_release_amount conf > cache_store_capacity conf then Ret (conf, JCL_ERR_BAD_CONF)
        else if cache_acquire_amount conf > alloc_store_capacity conf then Ret (conf, JCL_ERR_BAD_CONF)
        else if cache_release_amount conf > alloc_store_capacity conf then Ret (conf, JCL_ERR_BAD_CONF)
        else sa_config_slab conf alloc_conf err)))))"

section \<open>Slabs\<close>

definition bytes_from :: "addr \<Rightarrow> size_t \<Rightarrow> addr set" where
  "bytes_from p n = {a. unat p \<le> unat a \<and> unat a < unat p + unat n}"

text \<open>
  \<open>os_mmap len\<close> is what \<open>mmap\<close> returns with the value of \<open>errno\<close>; \<open>os_munmap p len\<close> the status of
  \<open>munmap\<close>.
\<close>

definition map_pages :: "(size_t \<Rightarrow> addr \<times> errno) \<Rightarrow> size_t \<Rightarrow> addr set \<Rightarrow> jcl_err \<Rightarrow> addr \<times> addr set \<times> jcl_err" where
  "map_pages os_mmap len mapped err =
     (case os_mmap len of (mem, errno) \<Rightarrow>
      case jcl_mmap mem errno err of (p, err) \<Rightarrow>
        (p, if mem = MAP_FAILED then mapped else mapped \<union> bytes_from mem len, err))"

definition unmap_pages :: "(addr \<Rightarrow> size_t \<Rightarrow> int) \<Rightarrow> addr \<Rightarrow> size_t \<Rightarrow> addr set \<Rightarrow> int \<times> addr set" where
  "unmap_pages os_munmap p len mapped =
     (os_munmap p len, if os_munmap p len = 0 then mapped - bytes_from p len else mapped)"

definition sa_aligned_mmap ::
  "(size_t \<Rightarrow> addr \<times> errno) \<Rightarrow> (addr \<Rightarrow> size_t \<Rightarrow> int) \<Rightarrow> sa_config \<Rightarrow> addr set \<Rightarrow> jcl_err \<Rightarrow>
   (addr \<times> addr set \<times> jcl_err) run" where
  "sa_aligned_mmap os_mmap os_munmap conf mapped err =
     assert_c (slab_size conf > 0)
     (case map_pages os_mmap (slab_size conf * 2) mapped err of (raw_addr, mapped, err) \<Rightarrow>
      if err \<noteq> JCL_OK then Ret (NULL, mapped, err)
      else
      let aligned_addr = (raw_addr + slab_size conf - 1) AND NOT (slab_size conf - 1);
          leading_trim = aligned_addr - raw_addr;
          trailing_trim = (raw_addr + 2 * slab_size conf) - (aligned_addr + slab_size conf)
      in assert_c (raw_addr mod PAGE_SIZE = 0)
      (assert_c (aligned_addr mod slab_size conf = 0)
      (assert_c (leading_trim mod PAGE_SIZE = 0)
      (assert_c (trailing_trim mod PAGE_SIZE = 0)
      (run_bind
         (if leading_trim > 0
          then case unmap_pages os_munmap raw_addr leading_trim mapped of (ret, mapped) \<Rightarrow> assert_c (ret = 0) (Ret mapped)
          else Ret mapped) (\<lambda>mapped.
       run_bind
         (if trailing_trim > 0
          then case unmap_pages os_munmap (aligned_addr + slab_size conf) trailing_trim mapped of (ret, mapped) \<Rightarrow> assert_c (ret = 0) (Ret mapped)
          else Ret mapped) (\<lambda>mapped.
       Ret (aligned_addr, mapped, err))))))))"

definition sa_allocator_find_slab :: "sa_config \<Rightarrow> addr \<Rightarrow> addr" where
  "sa_allocator_find_slab conf obj = obj AND NOT (slab_size conf - 1)"

record sa_slab =
  slab_id :: "64 word"
  used_count :: size_t

text \<open>The slab header that is written at the start of the block is returned with its address.\<close>

definition sa_slab_create ::
  "(size_t \<Rightarrow> addr \<times> errno) \<Rightarrow> (addr \<Rightarrow> size_t \<Rightarrow> int) \<Rightarrow> sa_config \<Rightarrow> 64 word \<Rightarrow> addr set \<Rightarrow> jcl_err \<Rightarrow>
   ((addr \<times> sa_slab option) \<times> addr set \<times> jcl_err) run" where
  "sa_slab_create os_mmap os_munmap conf new_slab_id mapped err =
     run_bind (sa_aligned_mmap os_mmap os_munmap conf mapped err) (\<lambda>(slab, mapped, err).
     if err \<noteq> JCL_OK then Ret ((NULL, None), mapped, err)
     else Ret ((slab, Some \<lparr>slab_id = new_slab_id, used_count = 0\<rparr>), mapped, err))"

text \<open>
  \<open>sa_print_config\<close> has an empty body, and the two nested loops of \<open>sa_slab_link_batches\<close> have one too: the function
  walks over the batches of a slab and the objects of a batch and writes nothing.  \<open>m\<close> stands for the memory that
  the functions could change.
\<close>

record sa_batch =
  batch_slab_id :: "64 word"
  batch_free_list :: jfs_fl

definition sa_print_config :: "sa_config \<Rightarrow> 'm \<Rightarrow> 'm" where
  "sa_print_config config m = m"

fun sa_link_objs :: "nat \<Rightarrow> 'm \<Rightarrow> 'm" where
  "sa_link_objs 0 m = m"
| "sa_link_objs (Suc n) m = sa_link_objs n m"

fun sa_link_loop :: "nat \<Rightarrow> nat \<Rightarrow> 'm \<Rightarrow> 'm" where
  "sa_link_loop 0 objs m = m"
| "sa_link_loop (Suc n) objs m = sa_link_loop n objs (sa_link_objs objs m)"

definition sa_slab_link_batches :: "sa_config \<Rightarrow> addr \<Rightarrow> sa_batch list \<Rightarrow> 'm \<Rightarrow> 'm" where
  "sa_slab_link_batches conf slab batch_buffer m =
     (let batch = \<lparr>batch_slab_id = 0, batch_free_list = \<lparr>fl_list = NULL, fl_count = 0\<rparr>\<rparr>;
          slab_ptr_index = slab + slab_offset conf
      in sa_link_loop (unat (batch_per_slab conf)) (unat (batch_capacity conf)) m)"

lemma sa_link_objs_id [simp]: "sa_link_objs n m = m"
  by (induction n) auto

lemma sa_link_loop_id [simp]: "sa_link_loop n objs m = m"
  by (induction n) auto

lemma sa_slab_link_batches_id: "sa_slab_link_batches conf slab buf m = m"
  by (simp add: sa_slab_link_batches_def Let_def)

section \<open>The slab size\<close>

lemma pages_loop_least:
  assumes "j + fuel = 64" "j \<le> 63" "unat m \<le> 2 ^ 63" "\<forall>l<j. (2 :: size_t) ^ l < m"
  shows "\<exists>i\<le>63. sa_pages_loop fuel (2 ^ j) m = Ret (2 ^ i) \<and> m \<le> 2 ^ i \<and> (\<forall>l<i. (2 :: size_t) ^ l < m)"
  using assms
proof (induction fuel arbitrary: j)
  case (Suc fuel)
  show ?case
  proof (cases "(2 :: size_t) ^ j < m")
    case True
    hence "2 ^ j < (2 :: nat) ^ 63" using Suc.prems unat_pow2_64[of j] by (simp add: word_less_nat_alt)
    hence "j < 63" by (simp only: power_strict_increasing_iff[of "2::nat"])
    moreover have "\<forall>l<Suc j. (2 :: size_t) ^ l < m" using Suc.prems(4) True less_Suc_eq by auto
    ultimately show ?thesis using Suc.IH[of "Suc j"] Suc.prems True by (simp add: mult.commute)
  qed (use Suc.prems in \<open>auto simp: not_less intro!: exI[of _ j]\<close>)
qed simp

lemma pow2_and_pred: "((2 :: 64 word) ^ j) AND (2 ^ j - 1) = 0"
proof (cases "j < 64")
  case True
  hence "(2 :: 64 word) ^ j \<noteq> 0" using unat_pow2_64[OF True] by (metis power_not_zero unat_0 zero_neq_numeral)
  thus ?thesis using valid_align_word[of "2 ^ j"] True by (auto simp: and.commute)
next
  case False
  hence "(2 :: 64 word) ^ j = 0" by (simp add: exp_eq_zero_iff)
  thus ?thesis by (simp only: zero_and_eq)
qed

lemma div_page_le: "n < 2 ^ 64 \<Longrightarrow> n div 4096 \<le> (2 :: nat) ^ 63"
  by simp

lemma config_slab_fails:
  "sa_config_slab conf ac err = Abort \<or> (\<exists>conf'. sa_config_slab conf ac err = Ret (conf', JCL_ERR_BAD_CONF))"
proof -
  let ?aps = "if ac_slab_acquire_count ac \<noteq> 0 then ucast (ac_slab_acquire_count ac) else DEFAULT_ACQUIRE_PER_SLAB"
  let ?need = "(?aps * ucast (cache_acquire_amount conf) * ucast (batch_capacity conf) * obj_padded_size conf) + slab_offset conf"
  let ?min = "(?need + PAGE_SIZE - 1) div PAGE_SIZE"
  have "unat ?min = unat (?need + PAGE_SIZE - 1) div 4096" by (simp add: PAGE_SIZE_def unat_div)
  also have "\<dots> \<le> 2 ^ 63" by (intro div_page_le unat_lt64)
  finally obtain i where i: "sa_pages_loop 64 1 ?min = Ret (2 ^ i)" using pages_loop_least[of 0 64 ?min] by auto
  have pg: "PAGE_SIZE = 2 ^ 12" by (simp add: PAGE_SIZE_def)
  have "(2 ^ i * PAGE_SIZE) AND (2 ^ i * PAGE_SIZE - 1) = 0"
    using pow2_and_pred[of "i + 12"] unfolding pg power_add .
  thus ?thesis by (auto simp: sa_config_slab_def Let_def i simp del: mult_eq_0_iff)
qed

section \<open>Aligned blocks\<close>

definition slab_pow2 :: "sa_config \<Rightarrow> nat \<Rightarrow> bool" where
  "slab_pow2 conf k \<longleftrightarrow> slab_size conf = 2 ^ k \<and> 12 \<le> k \<and> k < 62"

text \<open>
  What \<open>mmap\<close> promises for an anonymous mapping: a page-aligned range inside the address space that
  was not mapped; and \<open>munmap\<close> succeeds on every non-empty page-aligned range.
\<close>

definition mmap_contract :: "(size_t \<Rightarrow> addr \<times> errno) \<Rightarrow> size_t \<Rightarrow> addr set \<Rightarrow> bool" where
  "mmap_contract os_mmap len mapped \<longleftrightarrow>
     fst (os_mmap len) \<noteq> MAP_FAILED \<longrightarrow>
       4096 dvd unat (fst (os_mmap len)) \<and> unat (fst (os_mmap len)) + unat len < 2 ^ 64
       \<and> bytes_from (fst (os_mmap len)) len \<inter> mapped = {}"

definition munmap_contract :: "(addr \<Rightarrow> size_t \<Rightarrow> int) \<Rightarrow> bool" where
  "munmap_contract os_munmap \<longleftrightarrow>
     (\<forall>p len. 4096 dvd unat p \<and> 4096 dvd unat len \<and> len \<noteq> 0 \<longrightarrow> os_munmap p len = 0)"

lemma unat_minus_le: "b \<le> (a :: 64 word) \<Longrightarrow> unat (a - b) = unat a - unat b"
  by (rule unat_sub)

lemma unat_plus_lt: "unat a + unat b < 2 ^ 64 \<Longrightarrow> unat (a + b :: 64 word) = unat a + unat b"
  using unat_add_lem[of a b] by simp

lemma aligned_block:
  assumes k: "12 \<le> k" "k < 62" and raw: "4096 dvd unat raw" "unat raw + 2 * 2 ^ k < 2 ^ 64"
  defines "sz \<equiv> (2 :: 64 word) ^ k"
  defines "al \<equiv> (raw + sz - 1) AND NOT (sz - 1)"
  shows "2 ^ k dvd unat al" "unat raw \<le> unat al" "unat al < unat raw + 2 ^ k"
    "unat (al - raw) = unat al - unat raw" "unat (al + sz) = unat al + 2 ^ k"
    "unat ((raw + 2 * sz) - (al + sz)) = unat raw + 2 ^ k - unat al" "4096 dvd unat al"
proof -
  have us: "unat sz = 2 ^ k" unfolding sz_def using k by (simp add: unat_pow2_64)
  have "unat raw + 2 ^ k - 1 < 2 ^ 64" using raw(2) by linarith
  hence al: "unat al = align_up (2 ^ k) (unat raw)" unfolding al_def sz_def using unat_mask_align[of k raw] k by simp
  show d: "2 ^ k dvd unat al" and le: "unat raw \<le> unat al" and lt: "unat al < unat raw + 2 ^ k"
    unfolding al by (simp_all add: align_up_ge align_up_less)
  show "4096 dvd unat al" using le_imp_power_dvd[of 12 k "2::nat"] k(1) d dvd_trans by (simp add: dvd_trans)
  show "unat (al - raw) = unat al - unat raw" using le by (intro unat_minus_le) (simp add: word_le_nat_alt)
  show e: "unat (al + sz) = unat al + 2 ^ k" using lt raw(2) us unat_plus_lt[of al sz] by simp
  have "unat (2 * sz) = 2 * 2 ^ k"
    using us k unat_mult_lem[of 2 sz] power_strict_increasing[of k 62 "2::nat"] by simp
  hence r: "unat (raw + 2 * sz) = unat raw + 2 * 2 ^ k" using raw(2) unat_plus_lt[of raw "2 * sz"] by simp
  have "unat ((raw + 2 * sz) - (al + sz)) = unat (raw + 2 * sz) - unat (al + sz)"
    using lt r e by (intro unat_minus_le) (simp add: word_le_nat_alt)
  thus "unat ((raw + 2 * sz) - (al + sz)) = unat raw + 2 ^ k - unat al" using r e by simp
qed

lemma bytes_trim:
  assumes "unat a = unat raw + l" "unat b = unat a + n" "unat ln = l" "unat tn = m" "unat len = l + n + m" "unat nn = n"
  shows "bytes_from raw len - bytes_from raw ln - bytes_from b tn = bytes_from a nn"
  using assms by (auto simp: bytes_from_def)

lemma minus_disjoint: "A \<inter> mapped = {} \<Longrightarrow> X \<subseteq> A \<Longrightarrow> Y \<subseteq> A \<Longrightarrow> (mapped \<union> A) - X - Y = mapped \<union> (A - X - Y)"
  by auto

lemma unmap_opt:
  assumes "munmap_contract os_munmap" "4096 dvd unat p" "4096 dvd unat len"
  shows "(if len > 0 then case unmap_pages os_munmap p len mapped of (ret, mapped) \<Rightarrow> assert_c (ret = 0) (Ret mapped) else Ret mapped)
    = Ret (mapped - bytes_from p len)"
  using assms by (auto simp: munmap_contract_def unmap_pages_def bytes_from_def word_less_nat_alt unat_eq_0)

lemma word_mod_zero: "unat b dvd unat a \<Longrightarrow> a mod b = (0 :: 64 word)"
  by (simp add: unat_mod dvd_imp_mod_0 flip: unat_eq_0)

lemma mod_page_zero: "4096 dvd unat p \<Longrightarrow> p mod PAGE_SIZE = 0"
  by (rule word_mod_zero) (simp add: PAGE_SIZE_def)

lemma aligned_mmap_ok:
  assumes sp: "slab_pow2 conf k" and mm: "mmap_contract os_mmap (slab_size conf * 2) mapped" and mu: "munmap_contract os_munmap"
    and ok: "os_mmap (slab_size conf * 2) = (raw, e)" "raw \<noteq> MAP_FAILED"
  shows "\<exists>p. sa_aligned_mmap os_mmap os_munmap conf mapped JCL_OK = Ret (p, mapped \<union> bytes_from p (slab_size conf), JCL_OK)
    \<and> unat (slab_size conf) dvd unat p \<and> bytes_from p (slab_size conf) \<inter> mapped = {} \<and> unat raw \<le> unat p"
proof -
  have k: "12 \<le> k" "k < 62" and sz: "slab_size conf = 2 ^ k" using sp by (auto simp: slab_pow2_def)
  have us: "unat (slab_size conf) = 2 ^ k" using sz k by (simp add: unat_pow2_64)
  have u2: "unat (slab_size conf * 2) = 2 ^ k + 2 ^ k"
    using us k unat_mult_lem[of "slab_size conf" 2] power_strict_increasing[of k 62 "2::nat"] by simp
  have raw: "4096 dvd unat raw" "unat raw + 2 * 2 ^ k < 2 ^ 64" "bytes_from raw (slab_size conf * 2) \<inter> mapped = {}"
    using mm ok u2 by (auto simp: mmap_contract_def)
  define al where "al = (raw + slab_size conf - 1) AND NOT (slab_size conf - 1)"
  note ab = aligned_block[OF k raw(1,2), folded sz, folded al_def]
  let ?l = "al - raw" and ?b = "al + slab_size conf" and ?t = "slab_size conf + (raw - al)"
  have ut: "unat ?t = unat raw + 2 ^ k - unat al" using ab(6) by simp
  have p12: "4096 dvd (2 :: nat) ^ k" using le_imp_power_dvd[of 12 k "2::nat"] k(1) by simp
  have d: "4096 dvd unat ?l" "4096 dvd unat ?b" "4096 dvd unat ?t"
    unfolding ab(4,5) ut using ab(7) raw(1) p12 ab(2,3) by (simp_all add: dvd_diff_nat)
  have "bytes_from raw (slab_size conf * 2) - bytes_from raw ?l - bytes_from ?b ?t = bytes_from al (slab_size conf)"
    using ab(2-5) ut u2 us by (intro bytes_trim[where l = "unat al - unat raw" and n = "2 ^ k" and m = "unat raw + 2 ^ k - unat al"]) auto
  moreover have "bytes_from raw ?l \<subseteq> bytes_from raw (slab_size conf * 2)" "bytes_from ?b ?t \<subseteq> bytes_from raw (slab_size conf * 2)"
    "bytes_from al (slab_size conf) \<subseteq> bytes_from raw (slab_size conf * 2)"
    using ab(2-5) ut u2 us by (auto simp: bytes_from_def)
  ultimately have rest: "(mapped \<union> bytes_from raw (slab_size conf * 2)) - bytes_from raw ?l - bytes_from ?b ?t = mapped \<union> bytes_from al (slab_size conf)"
    "bytes_from al (slab_size conf) \<inter> mapped = {}"
    using minus_disjoint[OF raw(3), of "bytes_from raw ?l" "bytes_from ?b ?t"] raw(3) by auto
  have "al mod slab_size conf = 0"
    using ab(1) us by (intro word_mod_zero) simp
  moreover have "slab_size conf > 0" using us by (simp add: word_less_nat_alt)
  ultimately have "sa_aligned_mmap os_mmap os_munmap conf mapped JCL_OK = Ret (al, mapped \<union> bytes_from al (slab_size conf), JCL_OK)"
    using ok mod_page_zero[OF raw(1)] mod_page_zero[OF d(1)] mod_page_zero[OF d(3)]
    by (simp add: sa_aligned_mmap_def map_pages_def jcl_mmap_def Let_def unmap_opt[OF mu raw(1) d(1)] unmap_opt[OF mu d(2,3)] rest(1)
        flip: al_def del: mult_2)
  thus ?thesis using ab(1,2) us rest(2) by auto
qed

lemma find_slab_base:
  assumes "slab_pow2 conf k" "2 ^ k dvd unat p" "a \<in> bytes_from p (slab_size conf)"
  shows "sa_allocator_find_slab conf a = p"
proof -
  have k: "k < 64" and sz: "slab_size conf = 2 ^ k" using assms(1) by (auto simp: slab_pow2_def)
  obtain q where q: "unat p = 2 ^ k * q" using assms(2) by (auto simp: dvd_def)
  have b: "2 ^ k * q \<le> unat a" "unat a < 2 ^ k * q + 2 ^ k"
    using assms(3) q k sz by (auto simp: bytes_from_def unat_pow2_64)
  have "unat a div 2 ^ k = q" using b by (intro div_nat_eqI) (simp_all add: mult.commute)
  hence "unat (sa_allocator_find_slab conf a) = unat p"
    unfolding sa_allocator_find_slab_def sz mask_align_eq unat_and_not_mask using q by (simp add: mult.commute)
  thus ?thesis by (simp only: word_unat_eq_iff)
qed

section \<open>Properties\<close>

text \<open>
  C39. No configuration is accepted: for every requested configuration \<open>sa_config_init\<close> either reports
  \<open>JFS_ERR_BAD_CONF\<close> or fails the assertion on the slab size.  The check \<open>slab_size >= slab_size_needed\<close>
  rejects every slab that is large enough, and \<open>assert(slab_size & (slab_size - 1))\<close> rejects every power of
  two.
\<close>

theorem sa_config_init_never_succeeds:
  "sa_config_init conf alloc_conf err = Abort
   \<or> (\<exists>conf'. sa_config_init conf alloc_conf err = Ret (conf', JCL_ERR_BAD_CONF))"
  using config_slab_fails unfolding sa_config_init_def Let_def mod_c_def by (auto simp: assert_c_def)

text \<open>
  The number of pages of a slab: for every number of needed pages that the preceding check lets
  through, the doubling loop ends within 64 rounds with the least power of two that is large enough.
\<close>

theorem sa_pages_least_power:
  assumes "min_pages \<le> ULONG_MAX div 2"
  shows "\<exists>i\<le>63. sa_pages_loop 64 1 min_pages = Ret (2 ^ i) \<and> min_pages \<le> 2 ^ i \<and> (\<forall>l<i. (2 :: size_t) ^ l < min_pages)"
proof -
  have "unat min_pages \<le> 2 ^ 63" using assms by (simp add: word_le_nat_alt ULONG_MAX_def)
  thus ?thesis using pages_loop_least[of 0 64 min_pages] by auto
qed

theorem sa_pages_least_power_witness:
  "\<exists>i\<le>63. sa_pages_loop 64 1 5 = Ret (2 ^ i) \<and> 5 \<le> (2 :: size_t) ^ i"
  using sa_pages_least_power[of 5] by (auto simp: ULONG_MAX_def)

text \<open>
  C25. \<open>sa_aligned_mmap\<close>, for a slab size that is a power of two of at least a page: when \<open>mmap\<close> fails
  it returns \<open>NULL\<close> with the error and maps nothing; otherwise it passes all its assertions and returns a
  block aligned to the slab size, and of the doubled mapping exactly the bytes of this block stay mapped.
\<close>

theorem sa_aligned_mmap_block:
  assumes "slab_pow2 conf k" "mmap_contract os_mmap (slab_size conf * 2) mapped" "munmap_contract os_munmap"
    and "os_mmap (slab_size conf * 2) = (raw, e)"
  shows "if raw = MAP_FAILED
    then sa_aligned_mmap os_mmap os_munmap conf mapped JCL_OK = Ret (NULL, mapped, JCL_ERR_SYS)
    else \<exists>p. sa_aligned_mmap os_mmap os_munmap conf mapped JCL_OK = Ret (p, mapped \<union> bytes_from p (slab_size conf), JCL_OK)
      \<and> unat (slab_size conf) dvd unat p \<and> bytes_from p (slab_size conf) \<inter> mapped = {}"
proof (cases "raw = MAP_FAILED")
  case True
  have "slab_size conf > 0" using assms(1) by (auto simp: slab_pow2_def word_less_nat_alt unat_pow2_64)
  thus ?thesis using True assms(4) by (simp add: sa_aligned_mmap_def map_pages_def jcl_mmap_def)
qed (use aligned_mmap_ok[OF assms(1-4)] in auto)

definition demo_slab_conf :: sa_config where
  "demo_slab_conf = \<lparr>obj_align = 8, obj_padded_size = 64, slab_size = 16384, slab_offset = 16, slab_obj_mask = NOT 16383,
     batch_capacity = 64, batch_per_slab = 4, alloc_store_capacity = 4, cache_store_capacity = 2, cache_acquire_amount = 1,
     cache_release_amount = 1\<rparr>"

lemma demo_slab_pow2: "slab_pow2 demo_slab_conf 14"
  by (simp add: slab_pow2_def demo_slab_conf_def)

lemma demo_mmap_ok: "mmap_contract (\<lambda>_. (20480, EOTHER 0)) (slab_size demo_slab_conf * 2) {}" "munmap_contract (\<lambda>_ _. 0)"
  by (simp_all add: mmap_contract_def munmap_contract_def demo_slab_conf_def)

theorem sa_aligned_mmap_block_witness:
  "\<exists>p. sa_aligned_mmap (\<lambda>_. (20480, EOTHER 0)) (\<lambda>_ _. 0) demo_slab_conf {} JCL_OK = Ret (p, bytes_from p 16384, JCL_OK)
     \<and> 16384 dvd unat p"
  using sa_aligned_mmap_block[OF demo_slab_pow2 demo_mmap_ok refl] by (auto simp: demo_slab_conf_def MAP_FAILED_def)

text \<open>
  C26. A slab that \<open>sa_slab_create\<close> returns has the requested id and no used objects, and
  \<open>sa_allocator_find_slab\<close> maps every address inside the slab back to it.
\<close>

theorem sa_find_slab_of_created:
  assumes "slab_pow2 conf k" "mmap_contract os_mmap (slab_size conf * 2) mapped" "munmap_contract os_munmap"
    and "sa_slab_create os_mmap os_munmap conf new_id mapped JCL_OK = Ret ((slab, hdr), mapped', JCL_OK)"
  shows "hdr = Some \<lparr>slab_id = new_id, used_count = 0\<rparr> \<and> bytes_from slab (slab_size conf) \<subseteq> mapped'
    \<and> (\<forall>a\<in>bytes_from slab (slab_size conf). sa_allocator_find_slab conf a = slab)"
proof -
  obtain raw e where o: "os_mmap (slab_size conf * 2) = (raw, e)" by fastforce
  have pos: "slab_size conf > 0" using assms(1) by (auto simp: slab_pow2_def word_less_nat_alt unat_pow2_64)
  have "raw \<noteq> MAP_FAILED"
    using assms(4) o pos by (auto simp: sa_slab_create_def sa_aligned_mmap_def map_pages_def jcl_mmap_def)
  from aligned_mmap_ok[OF assms(1-3) o this] obtain p where
    p: "sa_aligned_mmap os_mmap os_munmap conf mapped JCL_OK = Ret (p, mapped \<union> bytes_from p (slab_size conf), JCL_OK)"
    "unat (slab_size conf) dvd unat p" by blast
  have "2 ^ k dvd unat p" using p(2) assms(1) by (simp add: slab_pow2_def unat_pow2_64)
  thus ?thesis using find_slab_base[OF assms(1)] assms(4) p(1) by (auto simp: sa_slab_create_def)
qed

theorem sa_find_slab_of_created_witness:
  "\<exists>slab hdr mapped'. sa_slab_create (\<lambda>_. (20480, EOTHER 0)) (\<lambda>_ _. 0) demo_slab_conf 7 {} JCL_OK = Ret ((slab, hdr), mapped', JCL_OK)
     \<and> (\<forall>a\<in>bytes_from slab (slab_size demo_slab_conf). sa_allocator_find_slab demo_slab_conf a = slab)"
proof -
  obtain slab hdr mapped' where c:
    "sa_slab_create (\<lambda>_. (20480, EOTHER 0)) (\<lambda>_ _. 0) demo_slab_conf 7 {} JCL_OK = Ret ((slab, hdr), mapped', JCL_OK)"
    using aligned_mmap_ok[OF demo_slab_pow2 demo_mmap_ok refl] by (auto simp: sa_slab_create_def MAP_FAILED_def)
  from sa_find_slab_of_created[OF demo_slab_pow2 demo_mmap_ok c] show ?thesis using c by blast
qed

end
