(* ===== verification/Io_Transfer.thy ===== *)
theory Io_Transfer
  imports Jcl_Error
begin

text \<open>
  What \<open>file_io.c\<close> and \<open>net_socket.c\<close> share: loops that call \<open>read\<close>, \<open>write\<close>, \<open>recv\<close> or \<open>send\<close> until a
  whole buffer has been transferred.  The system calls are a parameter: a function from the state of
  the outside world and the request to the returned status, \<open>errno\<close> and the next state.  The locales
  \<open>write_loop\<close> and \<open>read_loop\<close> hold the common proofs; \<open>File_IO\<close> and \<open>Net_Socket\<close> interpret them for
  their loops, which differ in the wrapper, in the error at the end of the input, and in the value of
  \<open>*err\<close> with which they go on after an interruption (\<open>resume\<close>).
\<close>

section \<open>System calls\<close>

type_synonym 'w os_write = "'w \<Rightarrow> byte list \<Rightarrow> int \<times> errno \<times> 'w"
type_synonym 'w os_read = "'w \<Rightarrow> size_t \<Rightarrow> int \<times> errno \<times> byte list \<times> 'w"

text \<open>\<open>store_at buf i bs\<close>: the bytes \<open>bs\<close> stored into the buffer from index \<open>i\<close> on.\<close>

definition store_at :: "byte list \<Rightarrow> nat \<Rightarrow> byte list \<Rightarrow> byte list" where
  "store_at buf i bs = take i buf @ bs @ drop (i + length bs) buf"

definition writer_contract :: "'w os_write \<Rightarrow> ('w \<Rightarrow> byte list) \<Rightarrow> bool" where
  "writer_contract os out \<longleftrightarrow> (\<forall>w req st e w'. os w req = (st, e, w') \<longrightarrow>
     (st = -1 \<and> out w' = out w) \<or> (0 \<le> st \<and> st \<le> int (length req) \<and> out w' = out w @ take (nat st) req))"

definition progressing :: "'w os_write \<Rightarrow> bool" where
  "progressing os \<longleftrightarrow> (\<forall>w req st e w'. os w req = (st, e, w') \<and> req \<noteq> [] \<longrightarrow> st \<noteq> 0)"

definition uninterrupted :: "('w \<Rightarrow> 'r \<Rightarrow> int \<times> errno \<times> 'x) \<Rightarrow> bool" where
  "uninterrupted os \<longleftrightarrow> (\<forall>w req st e x. os w req = (st, e, x) \<and> st = -1 \<longrightarrow> e \<noteq> EINTR)"

definition reader_contract :: "'w os_read \<Rightarrow> ('w \<Rightarrow> byte list) \<Rightarrow> bool" where
  "reader_contract os inp \<longleftrightarrow> (\<forall>w n st e bs w'. os w n = (st, e, bs, w') \<longrightarrow>
     (st = -1 \<and> bs = [] \<and> inp w' = inp w) \<or>
     (st = int (length bs) \<and> length bs \<le> unat n \<and> inp w = bs @ inp w' \<and> (n \<noteq> 0 \<and> inp w \<noteq> [] \<longrightarrow> bs \<noteq> [])))"

lemma writer_ok:
  "writer_contract os out \<Longrightarrow> os w req = (st, e, w') \<Longrightarrow> st \<noteq> -1 \<Longrightarrow>
   0 \<le> st \<and> st \<le> int (length req) \<and> out w' = out w @ take (nat st) req"
  unfolding writer_contract_def by blast

lemma writer_fail: "writer_contract os out \<Longrightarrow> os w req = (-1, e, w') \<Longrightarrow> out w' = out w"
  unfolding writer_contract_def by fastforce

lemma progressingD: "progressing os \<Longrightarrow> os w req = (st, e, w') \<Longrightarrow> req \<noteq> [] \<Longrightarrow> st \<noteq> 0"
  unfolding progressing_def by blast

lemma uninterruptedD: "uninterrupted os \<Longrightarrow> os w req = (-1, e, x) \<Longrightarrow> e \<noteq> EINTR"
  unfolding uninterrupted_def by blast

lemma not_less_unat_eq: "\<not> t < sz \<Longrightarrow> unat t \<le> unat sz \<Longrightarrow> t = (sz :: size_t)"
  by (simp add: word_less_nat_alt word_unat_eq_iff)

lemma reader_ok:
  "reader_contract os inp \<Longrightarrow> os w n = (st, e, bs, w') \<Longrightarrow> st \<noteq> -1 \<Longrightarrow>
   st = int (length bs) \<and> length bs \<le> unat n \<and> inp w = bs @ inp w' \<and> (n \<noteq> 0 \<and> inp w \<noteq> [] \<longrightarrow> bs \<noteq> [])"
  unfolding reader_contract_def by blast

lemma reader_fail: "reader_contract os inp \<Longrightarrow> os w n = (-1, e, bs, w') \<Longrightarrow> bs = [] \<and> inp w' = inp w"
  unfolding reader_contract_def by fastforce

lemma unat_word_of_status: "0 \<le> st \<Longrightarrow> st \<le> int m \<Longrightarrow> m < 2 ^ 64 \<Longrightarrow> unat (word_of_int st :: size_t) = nat st"
proof -
  assume a: "0 \<le> st" "st \<le> int m" "m < 2 ^ 64"
  have "(word_of_int st :: size_t) = of_nat (nat st)" using a(1) by simp
  thus ?thesis using unat_of_nat_64[of "nat st"] a by simp
qed

lemma unat_advance:
  "unat t + k \<le> unat (sz :: size_t) \<Longrightarrow> unat x = k \<Longrightarrow> unat (t + x :: size_t) = unat t + k"
  using unat_add_lem[of t x] unat_lt64[of sz] by simp

text \<open>The calls are interrupted only finitely often: \<open>pending w\<close> bounds the interruptions still to come.\<close>

definition finite_interrupts :: "('w \<Rightarrow> 'r \<Rightarrow> int \<times> errno \<times> 'x) \<Rightarrow> ('x \<Rightarrow> 'w) \<Rightarrow> ('w \<Rightarrow> nat) \<Rightarrow> bool" where
  "finite_interrupts os nxt pending \<longleftrightarrow> (\<forall>w req st e x. os w req = (st, e, x) \<longrightarrow>
     pending (nxt x) \<le> pending w \<and> (st = -1 \<and> e = EINTR \<longrightarrow> pending (nxt x) < pending w))"

lemma finite_interruptsD:
  assumes "finite_interrupts os nxt pending" "os w req = (st, e, x)"
  shows "pending (nxt x) \<le> pending w" "st = -1 \<Longrightarrow> e = EINTR \<Longrightarrow> pending (nxt x) < pending w"
  using assms unfolding finite_interrupts_def by blast+

lemma store_at_length [simp]: "i + length bs \<le> length buf \<Longrightarrow> length (store_at buf i bs) = length buf"
  by (simp add: store_at_def)

lemma take_store_at: "i + length bs \<le> length buf \<Longrightarrow> take (i + length bs) (store_at buf i bs) = take i buf @ bs"
  by (simp add: store_at_def)

definition read_post :: "jcl_err \<Rightarrow> ('w \<Rightarrow> byte list) \<Rightarrow> byte list \<Rightarrow> size_t \<Rightarrow> size_t \<Rightarrow> byte list \<Rightarrow> size_t \<Rightarrow> byte list \<Rightarrow> 'w \<Rightarrow> jcl_err \<Rightarrow> bool" where
  "read_post eof inp buf sz tot input n buf' w' err' \<longleftrightarrow>
     unat tot \<le> unat n \<and> unat n \<le> unat sz \<and> length buf' = length buf
     \<and> take (unat n) buf' = take (unat tot) buf @ take (unat n - unat tot) input
     \<and> inp w' = drop (unat n - unat tot) input \<and> unat n - unat tot \<le> length input
     \<and> (err' = JCL_OK \<longleftrightarrow> n = sz) \<and> (err' = eof \<longrightarrow> length input = unat n - unat tot)"

lemma read_post_step:
  assumes "inp w = bs @ input1" "unat tot + length bs \<le> length buf" "unat t1 = unat tot + length bs"
    and "read_post eof inp (store_at buf (unat tot) bs) sz t1 input1 n buf' w' err'"
  shows "read_post eof inp buf sz tot (inp w) n buf' w' err'"
proof -
  note p = assms(4)[unfolded read_post_def]
  define m where "m = unat n - unat t1"
  have n: "unat n = unat tot + length bs + m" using p assms(3) by (simp add: m_def)
  have "take (unat tot + length bs + m) buf' = (take (unat tot) buf @ bs) @ take m input1"
    using p take_store_at[OF assms(2)] assms(3) unfolding m_def[symmetric] n[symmetric] by simp
  moreover have "inp w' = drop m input1" "m \<le> length input1" "length buf' = length buf"
    using p assms(2) by (simp_all add: m_def)
  moreover have "err' = eof \<longrightarrow> length input1 = m" using p by (simp add: m_def)
  ultimately show ?thesis unfolding read_post_def n assms(1) using p n by simp
qed

section \<open>Loops that write\<close>

locale write_loop = retryable_wrapper wrap "\<lambda>r. r = -1" word_of_int "0 :: size_t" for wrap :: "int \<Rightarrow> errno \<Rightarrow> jcl_err \<Rightarrow> size_t \<times> jcl_err" +
  fixes loop :: "nat \<Rightarrow> 'w os_write \<Rightarrow> byte list \<Rightarrow> size_t \<Rightarrow> 'w \<Rightarrow> size_t \<Rightarrow> jcl_err \<Rightarrow> (size_t \<times> 'w \<times> jcl_err) run"
    and resume :: jcl_err
  assumes loop_Suc: "loop (Suc fuel) os buf sz w tot JCL_OK =
     (if tot < sz then
        case os w (drop (unat tot) buf) of (status, errno, w) \<Rightarrow>
        case wrap status errno JCL_OK of (n, err) \<Rightarrow>
        if err = JCL_ERR_INTER then loop fuel os buf sz w tot resume
        else if err \<noteq> JCL_OK then Ret (tot, w, err)
        else loop fuel os buf sz w (tot + n) JCL_OK
      else Ret (tot, w, JCL_OK))"
begin

lemma whole_buffer:
  assumes os: "writer_contract os out" "progressing os" "finite_interrupts os (\<lambda>w. w) pending" "resume = JCL_OK \<or> uninterrupted os"
    and "length buf = unat sz" "unat tot \<le> unat sz" "unat sz - unat tot + pending w < fuel"
  shows "\<exists>n w' err'. loop fuel os buf sz w tot JCL_OK = Ret (n, w', err')
    \<and> unat tot \<le> unat n \<and> unat n \<le> unat sz \<and> out w' = out w @ take (unat n - unat tot) (drop (unat tot) buf)
    \<and> (err' = JCL_OK \<longleftrightarrow> n = sz) \<and> pending w' \<le> pending w"
  using assms(5-)
proof (induction fuel arbitrary: w tot)
  case (Suc fuel)
  show ?case
  proof (cases "tot < sz")
    case True
    hence lt: "unat tot < unat sz" by (simp add: word_less_nat_alt)
    let ?req = "drop (unat tot) buf"
    have ne: "?req \<noteq> []" using lt Suc.prems(1) by simp
    obtain st e w1 where c: "os w ?req = (st, e, w1)" by (metis prod_cases3)
    note pend = finite_interruptsD[OF os(3) c]
    consider (inter) "st = -1" "e = EINTR" | (fail) "st = -1" "e \<noteq> EINTR" | (ok) "st \<noteq> -1" by blast
    thus ?thesis
    proof cases
      case inter
      have "out w1 = out w" using writer_fail[OF os(1)] c inter by blast
      moreover have "resume = JCL_OK" using os(4) uninterruptedD[of os w ?req e w1] c inter by auto
      moreover obtain m where "wrap st e JCL_OK = (m, JCL_ERR_INTER)"
        using interrupted[of st e JCL_OK] inter by (metis prod.collapse)
      ultimately show ?thesis using Suc.IH[OF Suc.prems(1,2), of w1] Suc.prems(3) pend(2)[OF inter] True c
        by (fastforce simp: loop_Suc)
    next
      case fail
      have "snd (wrap st e JCL_OK) \<notin> {JCL_ERR_INTER, JCL_OK}"
        using interrupted[of st e JCL_OK] failure_code[of st e JCL_OK] fail by simp
      moreover have "out w1 = out w" using writer_fail[OF os(1)] c fail by blast
      ultimately show ?thesis using True c lt pend(1) by (auto simp: loop_Suc split: prod.splits)
    next
      case ok
      have st: "0 \<le> st" "st \<le> int (length ?req)" "out w1 = out w @ take (nat st) ?req" "st \<noteq> 0"
        using writer_ok[OF os(1) c ok] progressingD[OF os(2) c ne] by auto
      have len: "nat st \<le> unat sz - unat tot" "length ?req < 2 ^ 64" using st(2) Suc.prems(1) unat_lt64[of sz] by auto
      have wr: "wrap st e JCL_OK = (word_of_int st, JCL_OK)" using success[of st] ok by simp
      have uw: "unat (word_of_int st :: size_t) = nat st" using unat_word_of_status[OF st(1,2) len(2)] .
      have ut: "unat (tot + word_of_int st) = unat tot + nat st" using unat_advance[OF _ uw, of tot sz] len(1) lt by simp
      have "0 < nat st" using st(1,4) by simp
      hence pr: "unat tot + nat st \<le> unat sz" "unat sz - (unat tot + nat st) + pending w1 < fuel"
        using Suc.prems(3) len(1) lt pend(1) by linarith+
      obtain n w' err' where r: "loop fuel os buf sz w1 (tot + word_of_int st) JCL_OK = Ret (n, w', err')"
        "unat tot + nat st \<le> unat n" "unat n \<le> unat sz"
        "out w' = out w1 @ take (unat n - (unat tot + nat st)) (drop (unat tot + nat st) buf)" "err' = JCL_OK \<longleftrightarrow> n = sz"
        "pending w' \<le> pending w1"
        using Suc.IH[OF Suc.prems(1), of "tot + word_of_int st" w1, unfolded ut, OF pr] by blast
      have "take (nat st) ?req @ take (unat n - (unat tot + nat st)) (drop (unat tot + nat st) buf) = take (unat n - unat tot) ?req"
        using take_add[of "nat st" "unat n - unat tot - nat st" ?req] r(2) by (simp add: add.commute)
      thus ?thesis using True c wr r st(3) pend(1) by (auto simp: loop_Suc)
    qed
  next
    case False
    hence "tot = sz" using Suc.prems(2) by (rule not_less_unat_eq)
    thus ?thesis by (simp add: loop_Suc)
  qed
qed simp

end

section \<open>Loops that read\<close>

locale read_loop = retryable_wrapper wrap "\<lambda>r. r = -1" word_of_int "0 :: size_t" for wrap :: "int \<Rightarrow> errno \<Rightarrow> jcl_err \<Rightarrow> size_t \<times> jcl_err" +
  fixes loop :: "nat \<Rightarrow> 'w os_read \<Rightarrow> byte list \<Rightarrow> size_t \<Rightarrow> 'w \<Rightarrow> size_t \<Rightarrow> jcl_err \<Rightarrow> (size_t \<times> byte list \<times> 'w \<times> jcl_err) run"
    and resume eof :: jcl_err
  assumes loop_Suc: "loop (Suc fuel) os buf sz w tot JCL_OK =
     (if tot < sz then
        case os w (sz - tot) of (status, errno, bs, w) \<Rightarrow>
        case wrap status errno JCL_OK of (n, err) \<Rightarrow>
        if err = JCL_ERR_INTER then loop fuel os (store_at buf (unat tot) bs) sz w tot resume
        else if err \<noteq> JCL_OK then Ret (tot, store_at buf (unat tot) bs, w, err)
        else if n = 0 then Ret (tot, store_at buf (unat tot) bs, w, eof)
        else loop fuel os (store_at buf (unat tot) bs) sz w (tot + n) JCL_OK
      else Ret (tot, buf, w, JCL_OK))"
    and eof_code: "eof \<noteq> JCL_OK" "snd (wrap (-1) e JCL_OK) \<noteq> eof"
begin

lemma whole_buffer:
  assumes os: "reader_contract os inp" "finite_interrupts os snd pending" "resume = JCL_OK \<or> uninterrupted os"
    and "length buf = unat sz" "unat tot \<le> unat sz" "unat sz - unat tot + pending w < fuel"
  shows "\<exists>n buf' w' err'. loop fuel os buf sz w tot JCL_OK = Ret (n, buf', w', err')
    \<and> read_post eof inp buf sz tot (inp w) n buf' w' err' \<and> pending w' \<le> pending w"
  using assms(4-)
proof (induction fuel arbitrary: w tot buf)
  case (Suc fuel)
  show ?case
  proof (cases "tot < sz")
    case True
    hence lt: "unat tot < unat sz" by (simp add: word_less_nat_alt)
    have req: "unat (sz - tot) = unat sz - unat tot" using lt by (intro unat_sub) (simp add: word_le_nat_alt)
    obtain st e bs w1 where c: "os w (sz - tot) = (st, e, bs, w1)" by (metis prod_cases4)
    note pend = finite_interruptsD[OF os(2) c, unfolded snd_conv]
    consider (inter) "st = -1" "e = EINTR" | (fail) "st = -1" "e \<noteq> EINTR" | (ok) "st \<noteq> -1" by blast
    thus ?thesis
    proof cases
      case inter
      have "bs = []" "inp w1 = inp w" using reader_fail[OF os(1)] c inter by blast+
      moreover have "resume = JCL_OK" using os(3) uninterruptedD[of os w "sz - tot" e "(bs, w1)"] c inter by auto
      moreover obtain m where "wrap st e JCL_OK = (m, JCL_ERR_INTER)"
        using interrupted[of st e JCL_OK] inter by (metis prod.collapse)
      ultimately show ?thesis using Suc.IH[OF Suc.prems(1,2), of w1] Suc.prems(3) pend(2)[OF inter] True c
        by (fastforce simp: loop_Suc store_at_def)
    next
      case fail
      have "snd (wrap st e JCL_OK) \<notin> {JCL_ERR_INTER, JCL_OK, eof}"
        using interrupted[of st e JCL_OK] failure_code[of st e JCL_OK] eof_code(2)[of e] fail by simp
      moreover have "bs = [] \<and> inp w1 = inp w" using reader_fail[OF os(1)] c fail by blast
      ultimately show ?thesis using True c lt pend(1) by (auto simp: loop_Suc read_post_def store_at_def split: prod.splits)
    next
      case ok
      have st: "st = int (length bs)" "length bs \<le> unat (sz - tot)" "inp w = bs @ inp w1"
        "sz - tot \<noteq> 0 \<and> inp w \<noteq> [] \<longrightarrow> bs \<noteq> []" using reader_ok[OF os(1) c ok] by blast+
      have len: "unat tot + length bs \<le> unat sz" using st(2) lt unfolding req by linarith
      have len2: "length bs < 2 ^ 64" using st(2) unat_lt64 by (rule le_less_trans)
      have rd: "wrap st e JCL_OK = (word_of_int st, JCL_OK)" using success[of st] ok by simp
      have uw: "unat (word_of_int st :: size_t) = length bs" using unat_word_of_status[of st "length bs"] st(1) len2 by simp
      have ut: "unat (tot + word_of_int st) = unat tot + length bs" using unat_advance[OF len uw] .
      show ?thesis
      proof (cases "bs = []")
        case True2: True
        have "sz - tot \<noteq> 0" using req lt by auto
        hence i0: "inp w = []" using st(4) True2 by blast
        hence "inp w1 = []" using st(3) by (metis append_is_Nil_conv)
        thus ?thesis using i0 True True2 c rd lt st(1) eof_code(1) pend(1) by (auto simp: loop_Suc read_post_def store_at_def)
      next
        case False2: False
        hence "unat (word_of_int st :: size_t) \<noteq> 0" using uw by simp
        hence nz: "(word_of_int st :: size_t) \<noteq> 0" by auto
        have l2: "length (store_at buf (unat tot) bs) = unat sz" using Suc.prems(1) len by simp
        have "0 < length bs" using False2 by simp
        hence pr: "unat tot + length bs \<le> unat sz" "unat sz - (unat tot + length bs) + pending w1 < fuel"
          using Suc.prems(3) len lt pend(1) by linarith+
        obtain n buf' w' err' where
          r: "loop fuel os (store_at buf (unat tot) bs) sz w1 (tot + word_of_int st) JCL_OK = Ret (n, buf', w', err')"
          "read_post eof inp (store_at buf (unat tot) bs) sz (tot + word_of_int st) (inp w1) n buf' w' err'"
          "pending w' \<le> pending w1"
          using Suc.IH[OF l2, of "tot + word_of_int st" w1, unfolded ut, OF pr] by blast
        have "read_post eof inp buf sz tot (inp w) n buf' w' err'"
          using Suc.prems(1) len by (intro read_post_step[where inp = inp and w = w, OF st(3) _ ut r(2)]) simp
        thus ?thesis using True c rd nz r(1,3) pend(1) by (auto simp: loop_Suc)
      qed
    qed
  next
    case False
    hence "tot = sz" using Suc.prems(2) by (rule not_less_unat_eq)
    thus ?thesis using eof_code(1) by (auto simp: read_post_def loop_Suc)
  qed
qed simp

end

end
