(* ===== verification/File_IO.thy ===== *)
theory File_IO
  imports Io_Transfer
begin

text \<open>
  \<open>src/file_io.c\<close>: whole-buffer reads and writes on a file descriptor, and paths and names.

  The system calls behind \<open>jfs_write\<close> and \<open>jfs_read\<close> are a parameter: a function from the state of
  the outside world and the request to the returned status, \<open>errno\<close> and the next state.  The loops
  take fuel.  The strings of paths and names live in a heap \<open>addr \<rightharpoonup> string\<close>, so that freeing and
  moving them is visible; a C string is the list of its characters before the terminating zero.
\<close>

section \<open>Reading and writing\<close>

fun fio_write_loop ::
  "nat \<Rightarrow> 'w os_write \<Rightarrow> byte list \<Rightarrow> size_t \<Rightarrow> 'w \<Rightarrow> size_t \<Rightarrow> jcl_err \<Rightarrow> (size_t \<times> 'w \<times> jcl_err) run" where
  "fio_write_loop 0 os write_buf sz w total_written err = Loop"
| "fio_write_loop (Suc fuel) os write_buf sz w total_written err =
     (if total_written < sz then
        case os w (drop (unat total_written) write_buf) of (status, errno, w) \<Rightarrow>
        case jcl_write status errno err of (written, err) \<Rightarrow>
        if err = JCL_ERR_INTER then fio_write_loop fuel os write_buf sz w total_written err
        else if err \<noteq> JCL_OK then Ret (total_written, w, err)
        else fio_write_loop fuel os write_buf sz w (total_written + written) err
      else Ret (total_written, w, err))"

definition jfs_fio_write ::
  "nat \<Rightarrow> 'w os_write \<Rightarrow> byte list \<Rightarrow> size_t \<Rightarrow> 'w \<Rightarrow> jcl_err \<Rightarrow> (size_t \<times> 'w \<times> jcl_err) run" where
  "jfs_fio_write fuel os buf sz w err = fio_write_loop fuel os buf sz w 0 err"

fun fio_read_loop ::
  "nat \<Rightarrow> 'w os_read \<Rightarrow> byte list \<Rightarrow> size_t \<Rightarrow> 'w \<Rightarrow> size_t \<Rightarrow> jcl_err \<Rightarrow>
   (size_t \<times> byte list \<times> 'w \<times> jcl_err) run" where
  "fio_read_loop 0 os read_buf sz w total_read err = Loop"
| "fio_read_loop (Suc fuel) os read_buf sz w total_read err =
     (if total_read < sz then
        case os w (sz - total_read) of (status, errno, bs, w) \<Rightarrow>
        let read_buf = store_at read_buf (unat total_read) bs in
        case jcl_read status errno err of (rd, err) \<Rightarrow>
        if err = JCL_ERR_INTER then fio_read_loop fuel os read_buf sz w total_read err
        else if err \<noteq> JCL_OK then Ret (total_read, read_buf, w, err)
        else if rd = 0 then Ret (total_read, read_buf, w, JCL_ERR_FIO_FILE_END)
        else fio_read_loop fuel os read_buf sz w (total_read + rd) err
      else Ret (total_read, read_buf, w, err))"

definition jfs_fio_read ::
  "nat \<Rightarrow> 'w os_read \<Rightarrow> byte list \<Rightarrow> size_t \<Rightarrow> 'w \<Rightarrow> jcl_err \<Rightarrow> (size_t \<times> byte list \<times> 'w \<times> jcl_err) run" where
  "jfs_fio_read fuel os buf sz w err = fio_read_loop fuel os buf sz w 0 err"

section \<open>Paths and names\<close>

definition PATH_MAX :: size_t where "PATH_MAX = 4096"
definition NAME_MAX :: size_t where "NAME_MAX = 255"

type_synonym str_heap = "addr \<rightharpoonup> string"

record jfs_fio_path =
  path_len :: size_t
  path_str :: addr

record jfs_fio_name =
  name_len :: size_t
  name_str :: addr

record jfs_fio_path_buf =
  buf_len :: size_t
  buf_data :: string

definition strlen :: "string \<Rightarrow> size_t" where
  "strlen s = of_nat (length s)"

definition strlcpy :: "string \<Rightarrow> size_t \<Rightarrow> string" where
  "strlcpy src n = take (unat n - 1) src"

definition free_str :: "str_heap \<Rightarrow> addr \<Rightarrow> str_heap run" where
  "free_str h p = (if p = NULL then Ret h else if p \<in> dom h then Ret (h(p := None)) else Fault)"

definition deref_str :: "str_heap \<Rightarrow> addr \<Rightarrow> string run" where
  "deref_str h p = (case h p of None \<Rightarrow> Fault | Some s \<Rightarrow> Ret s)"

text \<open>The argument \<open>mem\<close> is what \<open>malloc\<close> returns.\<close>

definition jfs_fio_path_init ::
  "addr \<Rightarrow> str_heap \<Rightarrow> jfs_fio_path \<Rightarrow> string \<Rightarrow> jcl_err \<Rightarrow> str_heap \<times> jfs_fio_path \<times> jcl_err" where
  "jfs_fio_path_init mem h path_init str err =
     (let path_str_len = strlen str;
          path_str_len = (if path_str_len > 1 \<and> str ! (unat path_str_len - 1) = CHR ''/'' then path_str_len - 1 else path_str_len)
      in if path_str_len > PATH_MAX then (h, path_init, JCL_ERR_FIO_PATH_LEN)
      else case jcl_malloc mem err of (new_str, err) \<Rightarrow>
        if err \<noteq> JCL_OK then (h, path_init, err)
        else (h(new_str \<mapsto> strlcpy str (path_str_len + 1)),
              path_init\<lparr>path_len := path_str_len, path_str := new_str\<rparr>, err))"

definition jfs_fio_path_free :: "str_heap \<Rightarrow> jfs_fio_path \<Rightarrow> (str_heap \<times> jfs_fio_path) run" where
  "jfs_fio_path_free h path_free = run_bind (free_str h (path_str path_free)) (\<lambda>h. Ret (h, \<lparr>path_len = 0, path_str = 0\<rparr>))"

definition jfs_fio_path_transfer :: "jfs_fio_path \<Rightarrow> jfs_fio_path \<Rightarrow> jfs_fio_path \<times> jfs_fio_path" where
  "jfs_fio_path_transfer path_init path_free = (path_free, \<lparr>path_len = 0, path_str = 0\<rparr>)"

definition jfs_fio_name_init ::
  "addr \<Rightarrow> str_heap \<Rightarrow> jfs_fio_name \<Rightarrow> string \<Rightarrow> jcl_err \<Rightarrow> str_heap \<times> jfs_fio_name \<times> jcl_err" where
  "jfs_fio_name_init mem h name_init str err =
     (let name_str_len = strlen str
      in if name_str_len > NAME_MAX then (h, name_init, JCL_ERR_FIO_NAME_LEN)
      else case jcl_malloc mem err of (new_str, err) \<Rightarrow>
        if err \<noteq> JCL_OK then (h, name_init, err)
        else (h(new_str \<mapsto> strlcpy str (name_str_len + 1)),
              name_init\<lparr>name_len := name_str_len, name_str := new_str\<rparr>, err))"

definition jfs_fio_name_free :: "str_heap \<Rightarrow> jfs_fio_name \<Rightarrow> (str_heap \<times> jfs_fio_name) run" where
  "jfs_fio_name_free h name_free = run_bind (free_str h (name_str name_free)) (\<lambda>h. Ret (h, \<lparr>name_len = 0, name_str = 0\<rparr>))"

definition jfs_fio_name_transfer :: "jfs_fio_name \<Rightarrow> jfs_fio_name \<Rightarrow> jfs_fio_name \<times> jfs_fio_name" where
  "jfs_fio_name_transfer name_init name_free = (name_free, \<lparr>name_len = 0, name_str = 0\<rparr>)"

definition jfs_fio_path_buf_clear :: "jfs_fio_path_buf \<Rightarrow> jfs_fio_path_buf" where
  "jfs_fio_path_buf_clear buf = buf\<lparr>buf_len := 0, buf_data := []\<rparr>"

text \<open>\<open>sizeof(buf->data)\<close> is \<open>PATH_MAX + 1\<close>.\<close>

definition jfs_fio_path_buf_copy ::
  "str_heap \<Rightarrow> jfs_fio_path_buf \<Rightarrow> jfs_fio_path \<Rightarrow> jcl_err \<Rightarrow> (jfs_fio_path_buf \<times> jcl_err) run" where
  "jfs_fio_path_buf_copy h buf path err =
     (if path_len path = 0 then Ret (buf, JCL_ERR_ARG)
      else let buf = jfs_fio_path_buf_clear buf in
        run_bind (deref_str h (path_str path)) (\<lambda>s.
        let buf = buf\<lparr>buf_data := strlcpy s (PATH_MAX + 1)\<rparr>
        in Ret (buf\<lparr>buf_len := path_len path\<rparr>, err)))"

definition snprintf_path :: "size_t \<Rightarrow> string \<Rightarrow> string \<Rightarrow> string" where
  "snprintf_path n s1 s2 = take (unat n - 1) (s1 @ ''/'' @ s2)"

definition jfs_fio_path_buf_compose ::
  "str_heap \<Rightarrow> jfs_fio_path_buf \<Rightarrow> jfs_fio_path \<Rightarrow> jfs_fio_name \<Rightarrow> jcl_err \<Rightarrow> (jfs_fio_path_buf \<times> jcl_err) run" where
  "jfs_fio_path_buf_compose h buf path name err =
     (if path_len path = 0 then Ret (buf, JCL_ERR_ARG)
      else let new_len = path_len path + name_len name + 1
        in if new_len > PATH_MAX then Ret (buf, JCL_ERR_FIO_PATH_OVERFLOW)
        else let buf = jfs_fio_path_buf_clear buf in
          run_bind (deref_str h (path_str path)) (\<lambda>s1.
          run_bind (deref_str h (name_str name)) (\<lambda>s2.
          let buf = buf\<lparr>buf_data := snprintf_path (PATH_MAX + 1) s1 s2\<rparr>
          in Ret (buf\<lparr>buf_len := new_len\<rparr>, err))))"

section \<open>The loops as transfer loops\<close>

interpretation fio_w: write_loop jcl_write fio_write_loop JCL_ERR_INTER
  by unfold_locales (auto split: prod.splits)

interpretation fio_r: read_loop jcl_read fio_read_loop JCL_ERR_INTER JCL_ERR_FIO_FILE_END
  by unfold_locales (auto simp: Let_def jcl_read_def split: prod.splits errno.splits)

lemma uninterrupted_finite: "uninterrupted os \<Longrightarrow> finite_interrupts os nxt (\<lambda>_. 0)"
  by (auto simp: uninterrupted_def finite_interrupts_def)

lemma write_loop_stuck:
  assumes "\<forall>w req st e w'. os w req = (st, e, w') \<and> st = -1 \<longrightarrow> e = EINTR" "tot < sz"
  shows "fio_write_loop fuel os buf sz w tot JCL_ERR_INTER = Loop"
proof (induction fuel arbitrary: w)
  case (Suc fuel)
  obtain st e w1 where c: "os w (drop (unat tot) buf) = (st, e, w1)" by (metis prod_cases3)
  have "snd (jcl_write st e JCL_ERR_INTER) = JCL_ERR_INTER"
    using wr_write.inter_iff[of st e JCL_ERR_INTER] assms(1) c by auto
  thus ?case using Suc assms(2) c by (auto split: prod.splits)
qed simp

section \<open>Paths in memory\<close>

definition path_ok :: "str_heap \<Rightarrow> jfs_fio_path \<Rightarrow> string \<Rightarrow> bool" where
  "path_ok h p s \<longleftrightarrow> h (path_str p) = Some s \<and> path_len p = strlen s \<and> length s \<le> 4096"

definition name_ok :: "str_heap \<Rightarrow> jfs_fio_name \<Rightarrow> string \<Rightarrow> bool" where
  "name_ok h n s \<longleftrightarrow> h (name_str n) = Some s \<and> name_len n = strlen s \<and> length s \<le> 255"

text \<open>A path without one trailing slash; a path that is only a slash keeps it.\<close>

definition trim_slash :: "string \<Rightarrow> string" where
  "trim_slash s = (if length s > 1 \<and> last s = CHR ''/'' then butlast s else s)"

lemma unat_strlen: "length s < 2 ^ 64 \<Longrightarrow> unat (strlen s) = length s"
  unfolding strlen_def by (rule unat_of_nat_64)

lemma strlen_gt_1: "length s < 2 ^ 64 \<Longrightarrow> strlen s > 1 \<longleftrightarrow> length s > 1"
  using unat_strlen[of s] by (simp add: word_less_nat_alt)

lemma path_init_len:
  assumes "length s < 2 ^ 64"
  shows "(if strlen s > 1 \<and> s ! (unat (strlen s) - 1) = CHR ''/'' then strlen s - 1 else strlen s) = strlen (trim_slash s)"
proof -
  have "strlen s - 1 = strlen (butlast s)" if "length s > 1" using that by (simp add: strlen_def of_nat_diff)
  moreover have "last s = s ! (length s - 1)" if "length s > 1" using that by (intro last_conv_nth) auto
  ultimately show ?thesis using strlen_gt_1[OF assms] unat_strlen[OF assms] by (auto simp: trim_slash_def)
qed

lemma trim_slash_take: "take (length (trim_slash s)) s = trim_slash s"
  by (simp add: trim_slash_def take_butlast butlast_conv_take)

lemma trim_slash_length: "length (trim_slash s) \<le> length s"
  by (simp add: trim_slash_def)

lemma strlcpy_whole:
  assumes "length s < 2 ^ 64 - 1"
  shows "strlcpy str (strlen s + 1) = take (length s) str"
proof -
  have "unat (strlen s + 1) = length s + 1"
    using assms unat_strlen[of s] unat_add_lem[of "strlen s" 1] by simp
  thus ?thesis by (simp add: strlcpy_def)
qed

lemma strlen_gt_max: "length s < 2 ^ 64 \<Longrightarrow> strlen s > PATH_MAX \<longleftrightarrow> length s > 4096"
    "length s < 2 ^ 64 \<Longrightarrow> strlen s > NAME_MAX \<longleftrightarrow> length s > 255"
  using unat_strlen[of s] by (simp_all add: word_less_nat_alt PATH_MAX_def NAME_MAX_def)

lemma path_init_cases:
  assumes "length s < 2 ^ 63"
  shows "jfs_fio_path_init mem h p s JCL_OK =
    (if length (trim_slash s) > 4096 then (h, p, JCL_ERR_FIO_PATH_LEN)
     else if mem = NULL then (h, p, JCL_ERR_SYS)
     else (h(mem \<mapsto> trim_slash s), \<lparr>path_len = strlen (trim_slash s), path_str = mem\<rparr>, JCL_OK))"
proof -
  have tl: "length (trim_slash s) < 2 ^ 64 - 1" using trim_slash_length[of s] assms by simp
  have "strlcpy s (strlen (trim_slash s) + 1) = trim_slash s" using strlcpy_whole[OF tl] trim_slash_take by simp
  thus ?thesis using strlen_gt_max(1)[of "trim_slash s"] tl path_init_len[of s] assms
    by (auto simp: jfs_fio_path_init_def Let_def jcl_malloc_def simp del: if_split)
qed

lemma name_init_cases:
  assumes "length s < 2 ^ 63"
  shows "jfs_fio_name_init mem h n s JCL_OK =
    (if length s > 255 then (h, n, JCL_ERR_FIO_NAME_LEN)
     else if mem = NULL then (h, n, JCL_ERR_SYS)
     else (h(mem \<mapsto> s), \<lparr>name_len = strlen s, name_str = mem\<rparr>, JCL_OK))"
  using strlen_gt_max(2)[of s] strlcpy_whole[of s s] assms
  by (auto simp: jfs_fio_name_init_def Let_def jcl_malloc_def simp del: if_split)

lemma compose_cases:
  assumes "path_ok h p s1" "name_ok h n s2" "s1 \<noteq> []"
  shows "jfs_fio_path_buf_compose h buf p n err =
    (if length (s1 @ ''/'' @ s2) > 4096 then Ret (buf, JCL_ERR_FIO_PATH_OVERFLOW)
     else Ret (buf\<lparr>buf_len := strlen (s1 @ ''/'' @ s2), buf_data := s1 @ ''/'' @ s2\<rparr>, err))"
proof -
  have sl: "path_len p + name_len n + 1 = strlen (s1 @ ''/'' @ s2)"
    using assms by (simp add: path_ok_def name_ok_def strlen_def)
  have l: "length (s1 @ ''/'' @ s2) < 2 ^ 64" using assms by (simp add: path_ok_def name_ok_def)
  have big: "path_len p + name_len n + 1 > PATH_MAX \<longleftrightarrow> length (s1 @ ''/'' @ s2) > 4096"
    unfolding sl by (rule strlen_gt_max(1)[OF l])
  have "unat (path_len p) \<noteq> 0" using assms unat_strlen[of s1] by (simp add: path_ok_def)
  hence "path_len p \<noteq> 0" by auto
  thus ?thesis using assms(1,2) big sl
    by (auto simp: jfs_fio_path_buf_compose_def Let_def deref_str_def path_ok_def name_ok_def
        jfs_fio_path_buf_clear_def snprintf_path_def PATH_MAX_def)
qed

section \<open>Properties\<close>

text \<open>
  \<open>jfs_fio_write\<close> on a descriptor whose calls are never interrupted and always make progress:
  it returns, what has reached the descriptor is exactly the prefix of the buffer whose length it
  returns, and it reports no error if and only if that is the whole buffer.
\<close>

theorem fio_write_all:
  assumes "writer_contract os out" "progressing os" "uninterrupted os" "length buf = unat sz" "unat sz < fuel"
  shows "\<exists>n w' err'. jfs_fio_write fuel os buf sz w JCL_OK = Ret (n, w', err')
    \<and> out w' = out w @ take (unat n) buf \<and> n \<le> sz \<and> (err' = JCL_OK \<longleftrightarrow> n = sz)"
  using fio_w.whole_buffer[OF assms(1,2) uninterrupted_finite[OF assms(3)] _ assms(4), of 0 fuel w] assms(3,5)
  by (auto simp: jfs_fio_write_def word_le_nat_alt)

definition half_writer :: "byte list os_write" where
  "half_writer w req = (let n = (length req + 1) div 2 in (int n, EOTHER 0, w @ take n req))"

lemma half_writer_ok: "writer_contract half_writer (\<lambda>w. w)" "progressing half_writer" "uninterrupted half_writer"
  by (auto simp: writer_contract_def progressing_def uninterrupted_def half_writer_def Let_def)

theorem fio_write_all_witness:
  "\<exists>n w' err'. jfs_fio_write 9 half_writer [1, 2, 3, 4, 5] 5 [] JCL_OK = Ret (n, w', err') \<and> w' = take (unat n) [1, 2, 3, 4, 5]"
  using fio_write_all[OF half_writer_ok, of "[1, 2, 3, 4, 5]" 5 9 "[]"] by auto

text \<open>
  C40. One interruption makes \<open>jfs_fio_write\<close> loop for ever: it does not reset \<open>*err\<close>, and a successful
  \<open>jfs_write\<close> leaves \<open>*err\<close> alone, so after \<open>EINTR\<close> every later call counts as interrupted as well; if no
  call fails for another reason, no amount of fuel lets the loop return.
\<close>

theorem fio_write_stuck_after_interrupt:
  assumes "\<forall>w req st e w'. os w req = (st, e, w') \<and> st = -1 \<longrightarrow> e = EINTR" "os w buf = (-1, EINTR, w1)" "0 < sz"
  shows "jfs_fio_write fuel os buf sz w JCL_OK = Loop"
proof (cases fuel)
  case (Suc fl)
  thus ?thesis using write_loop_stuck[OF assms(1,3), of fl buf w1] assms(2,3)
    by (simp add: jfs_fio_write_def jcl_write_def)
qed (simp add: jfs_fio_write_def)

definition once_interrupted :: "nat os_write" where
  "once_interrupted w req = (if w = 0 then (-1, EINTR, 1) else (int (length req), EOTHER 0, w + 1))"

theorem fio_write_stuck_after_interrupt_witness:
  "\<forall>fuel. jfs_fio_write fuel once_interrupted [7, 8] 2 0 JCL_OK = Loop"
proof
  fix fuel
  show "jfs_fio_write fuel once_interrupted [7, 8] 2 0 JCL_OK = Loop"
    by (rule fio_write_stuck_after_interrupt[where ?w1.0 = 1]) (auto simp: once_interrupted_def split: if_splits)
qed

text \<open>
  \<open>jfs_fio_read\<close> on a descriptor whose calls are never interrupted: it returns, the first bytes
  of the buffer are the bytes taken from the input, none is lost or read twice, it reports no error if
  and only if the buffer was filled, and reports the end of the file only when the input is used up.
\<close>

theorem fio_read_all:
  assumes "reader_contract os inp" "uninterrupted os" "length buf = unat sz" "unat sz < fuel"
  shows "\<exists>n buf' w' err'. jfs_fio_read fuel os buf sz w JCL_OK = Ret (n, buf', w', err')
    \<and> inp w = take (unat n) buf' @ inp w' \<and> length buf' = length buf \<and> n \<le> sz \<and> (err' = JCL_OK \<longleftrightarrow> n = sz)
    \<and> (err' = JCL_ERR_FIO_FILE_END \<longrightarrow> inp w' = [])"
proof -
  obtain n buf' w' err' where "jfs_fio_read fuel os buf sz w JCL_OK = Ret (n, buf', w', err')"
    "read_post JCL_ERR_FIO_FILE_END inp buf sz 0 (inp w) n buf' w' err'"
    using fio_r.whole_buffer[OF assms(1) uninterrupted_finite[OF assms(2)] _ assms(3), of 0 fuel w] assms(2,4)
    by (auto simp: jfs_fio_read_def)
  thus ?thesis by (auto simp: read_post_def word_le_nat_alt)
qed

definition two_byte_reader :: "byte list os_read" where
  "two_byte_reader w n = (let bs = take (min 2 (unat n)) w in (int (length bs), EOTHER 0, bs, drop (min 2 (unat n)) w))"

lemma two_byte_reader_ok: "reader_contract two_byte_reader (\<lambda>w. w)" "uninterrupted two_byte_reader"
  by (auto simp: reader_contract_def uninterrupted_def two_byte_reader_def Let_def unat_gt_0)

theorem fio_read_all_witness:
  "\<exists>n buf' w' err'. jfs_fio_read 9 two_byte_reader [0, 0, 0, 0, 0] 5 [1, 2, 3] JCL_OK = Ret (n, buf', w', err')
     \<and> [1, 2, 3] = take (unat n) buf' @ w'"
  using fio_read_all[OF two_byte_reader_ok, of "[0, 0, 0, 0, 0]" 5 9 "[1, 2, 3]"] by auto

text \<open>
  C30. \<open>jfs_fio_path_init\<close> stores a copy of the string without one trailing slash and its length; a
  string that is longer than \<open>PATH_MAX\<close> after that is refused, and when \<open>malloc\<close> fails nothing changes.
\<close>

theorem fio_path_init_correct:
  assumes "length s < 2 ^ 63"
  shows "if length (trim_slash s) > 4096 then jfs_fio_path_init mem h p s JCL_OK = (h, p, JCL_ERR_FIO_PATH_LEN)
    else if mem = NULL then jfs_fio_path_init mem h p s JCL_OK = (h, p, JCL_ERR_SYS)
    else \<exists>h' p'. jfs_fio_path_init mem h p s JCL_OK = (h', p', JCL_OK) \<and> path_ok h' p' (trim_slash s)
      \<and> path_str p' = mem \<and> (\<forall>a. a \<noteq> mem \<longrightarrow> h' a = h a)"
  using assms path_init_cases[OF assms, of mem h p] by (auto simp: path_ok_def)

theorem fio_path_init_correct_witness:
  "\<exists>h' p'. jfs_fio_path_init 64 Map.empty \<lparr>path_len = 0, path_str = 0\<rparr> ''/home/'' JCL_OK = (h', p', JCL_OK) \<and> path_ok h' p' ''/home''"
proof -
  have t: "trim_slash ''/home/'' = ''/home''" by (simp add: trim_slash_def)
  show ?thesis using fio_path_init_correct[of "''/home/''" 64 Map.empty "\<lparr>path_len = 0, path_str = 0\<rparr>"] unfolding t by auto
qed

text \<open>
  \<open>jfs_fio_path_buf_compose\<close> never truncates: for a valid non-empty path and a valid name it either
  refuses with \<open>JFS_ERR_FIO_PATH_OVERFLOW\<close> and leaves the buffer alone, exactly when the composed path is
  longer than \<open>PATH_MAX\<close>, or stores path, slash and name completely together with the length.
\<close>

theorem fio_compose_not_truncated:
  assumes "path_ok h p s1" "name_ok h n s2" "s1 \<noteq> []"
  shows "jfs_fio_path_buf_compose h buf p n err =
    (if length (s1 @ ''/'' @ s2) > 4096 then Ret (buf, JCL_ERR_FIO_PATH_OVERFLOW)
     else Ret (buf\<lparr>buf_len := strlen (s1 @ ''/'' @ s2), buf_data := s1 @ ''/'' @ s2\<rparr>, err))"
  by (rule compose_cases[OF assms])

theorem fio_compose_not_truncated_witness:
  "jfs_fio_path_buf_compose [64 \<mapsto> ''/tmp'', 96 \<mapsto> ''a.c''] \<lparr>buf_len = 0, buf_data = []\<rparr> \<lparr>path_len = 4, path_str = 64\<rparr>
     \<lparr>name_len = 3, name_str = 96\<rparr> JCL_OK = Ret (\<lparr>buf_len = 8, buf_data = ''/tmp/a.c''\<rparr>, JCL_OK)"
  using fio_compose_not_truncated[of "[64 \<mapsto> ''/tmp'', 96 \<mapsto> ''a.c'']" "\<lparr>path_len = 4, path_str = 64\<rparr>" "''/tmp''"
      "\<lparr>name_len = 3, name_str = 96\<rparr>" "''a.c''" "\<lparr>buf_len = 0, buf_data = []\<rparr>" JCL_OK]
  by (simp add: path_ok_def name_ok_def strlen_def)

end
