(* ===== verification/Fw_Code.thy ===== *)
theory Fw_Code
  imports File_IO
begin

text \<open>
  \<open>include/jcl/file_walk.h\<close> and \<open>src/file_walk.c\<close>: the data and the operations of the directory walker.

  The walker keeps paths, names and arrays in memory it gets from \<open>malloc\<close>, so the heap is explicit: a map
  from the address of a live block to its contents.  A block for an array has one entry per element,
  \<open>None\<close> for an element that has not been written since the block was allocated; reading such an element,
  an index outside the block, a block of another kind or a block that is not live is a \<open>Fault\<close>.
  \<open>malloc\<close>, \<open>realloc\<close> and \<open>opendir\<close> are parameters (the record \<open>fw_os\<close>): functions from the present state
  of the world, which has a clock that counts such calls, to what they return.  What \<open>opendir\<close> returns comes
  with the entries that \<open>readdir\<close> will return one after the other and with the value of \<open>errno\<close> when it
  returns \<open>NULL\<close> (\<open>EOTHER 0\<close> is no error).
\<close>

section \<open>Data\<close>

datatype jfs_fw_types = JFS_FW_REG | JFS_FW_DIR

type_synonym ino_t = "64 word"

record jfs_fw_file =
  file_type :: jfs_fw_types
  file_name :: jfs_fio_name
  file_inode :: ino_t

record jfs_fw_dir =
  dir_path :: jfs_fio_path
  dir_files :: addr
  dir_file_count :: size_t

record jfs_fw_record =
  rec_dir_count :: size_t
  rec_dir_array :: addr

record fw_path_vector =
  pv_count :: size_t
  pv_capacity :: size_t
  path_array :: addr

record fw_file_vector =
  fv_count :: size_t
  fv_capacity :: size_t
  file_array :: addr

record fw_dir_vector =
  dv_count :: size_t
  dv_capacity :: size_t
  dir_array :: addr

record jfs_fw_state =
  path_vec :: fw_path_vector
  dir_vec :: fw_dir_vector

text \<open>The value of a struct after \<open>memset(\<dots>, 0, \<dots>)\<close> or \<open>= {0}\<close>.\<close>

definition zero_path :: jfs_fio_path where "zero_path = \<lparr>path_len = 0, path_str = NULL\<rparr>"
definition zero_name :: jfs_fio_name where "zero_name = \<lparr>name_len = 0, name_str = NULL\<rparr>"
definition zero_file :: jfs_fw_file where "zero_file = \<lparr>file_type = JFS_FW_REG, file_name = zero_name, file_inode = 0\<rparr>"
definition zero_dir :: jfs_fw_dir where "zero_dir = \<lparr>dir_path = zero_path, dir_files = NULL, dir_file_count = 0\<rparr>"
definition zero_path_vec :: fw_path_vector where "zero_path_vec = \<lparr>pv_count = 0, pv_capacity = 0, path_array = NULL\<rparr>"
definition zero_file_vec :: fw_file_vector where "zero_file_vec = \<lparr>fv_count = 0, fv_capacity = 0, file_array = NULL\<rparr>"
definition zero_dir_vec :: fw_dir_vector where "zero_dir_vec = \<lparr>dv_count = 0, dv_capacity = 0, dir_array = NULL\<rparr>"

section \<open>The world\<close>

datatype fw_obj =
    Str string
  | Paths "jfs_fio_path option list"
  | Files "jfs_fw_file option list"
  | Dirs "jfs_fw_dir option list"
  | State jfs_fw_state

type_synonym fw_heap = "addr \<rightharpoonup> fw_obj"

record fw_world =
  mem :: fw_heap
  open_dirs :: "addr set"
  clock :: nat

record dirent =
  d_name :: string
  d_type :: byte
  d_ino :: ino_t

record fw_os =
  os_malloc :: "fw_world \<Rightarrow> size_t \<Rightarrow> addr"
  os_realloc :: "fw_world \<Rightarrow> addr \<Rightarrow> size_t \<Rightarrow> addr"
  os_opendir :: "fw_world \<Rightarrow> string \<Rightarrow> addr \<times> errno \<times> dirent list \<times> errno"

definition tick :: "fw_world \<Rightarrow> fw_world" where
  "tick w = w\<lparr>clock := Suc (clock w)\<rparr>"

text \<open>The strings among the blocks, as \<open>File_IO\<close> sees the heap, and the heap with other strings.\<close>

definition strs :: "fw_heap \<Rightarrow> str_heap" where
  "strs h = (\<lambda>p. case h p of Some (Str s) \<Rightarrow> Some s | _ \<Rightarrow> None)"

definition with_strs :: "fw_heap \<Rightarrow> str_heap \<Rightarrow> fw_heap" where
  "with_strs h sh = (\<lambda>p. case sh p of Some s \<Rightarrow> Some (Str s)
     | None \<Rightarrow> (case h p of Some (Str s) \<Rightarrow> None | x \<Rightarrow> x))"

section \<open>Blocks of memory\<close>

definition put :: "fw_world \<Rightarrow> addr \<Rightarrow> fw_obj \<Rightarrow> fw_world" where
  "put w p ob = w\<lparr>mem := (mem w)(p \<mapsto> ob)\<rparr>"

definition malloc_obj :: "fw_os \<Rightarrow> fw_world \<Rightarrow> size_t \<Rightarrow> fw_obj \<Rightarrow> jcl_err \<Rightarrow> fw_world \<times> addr \<times> jcl_err" where
  "malloc_obj os w n ob err =
     (let p = os_malloc os w n in
      case jcl_malloc p err of (q, err) \<Rightarrow> (if p = NULL then tick w else put (tick w) p ob, q, err))"

definition free_obj :: "fw_world \<Rightarrow> addr \<Rightarrow> fw_world run" where
  "free_obj w p =
     (if p = NULL then Ret w else if p \<in> dom (mem w) then Ret (w\<lparr>mem := (mem w)(p := None)\<rparr>) else Fault)"

text \<open>\<open>con\<close> and \<open>des\<close> make and open the blocks of one kind, \<open>esz\<close> is the size of an element, \<open>n\<close> the new size in bytes.\<close>

definition resize :: "nat \<Rightarrow> 'a option list \<Rightarrow> 'a option list" where
  "resize m xs = take m xs @ replicate (m - length xs) None"

definition realloc_obj ::
  "('a option list \<Rightarrow> fw_obj) \<Rightarrow> (fw_obj \<Rightarrow> 'a option list option) \<Rightarrow> size_t \<Rightarrow> fw_os \<Rightarrow> fw_world \<Rightarrow> addr \<Rightarrow> size_t \<Rightarrow> jcl_err
   \<Rightarrow> (fw_world \<times> addr \<times> jcl_err) run" where
  "realloc_obj con des esz os w p n err =
     (case (if p = NULL then Some [] else Option.bind (mem w p) des) of
        None \<Rightarrow> Fault
      | Some xs \<Rightarrow>
        let q = os_realloc os w p n in
        case jcl_realloc q err of (r, err) \<Rightarrow>
          Ret (if q = NULL then tick w
               else (tick w)\<lparr>mem := (mem w)(p := None, q \<mapsto> con (resize (unat n div unat esz) xs))\<rparr>, r, err))"

definition load_elem :: "(fw_obj \<Rightarrow> 'a option list option) \<Rightarrow> fw_world \<Rightarrow> addr \<Rightarrow> nat \<Rightarrow> 'a run" where
  "load_elem des w p i =
     (case Option.bind (mem w p) des of
        Some xs \<Rightarrow> (if i < length xs then (case xs ! i of Some x \<Rightarrow> Ret x | None \<Rightarrow> Fault) else Fault)
      | None \<Rightarrow> Fault)"

definition store_elem ::
  "('a option list \<Rightarrow> fw_obj) \<Rightarrow> (fw_obj \<Rightarrow> 'a option list option) \<Rightarrow> fw_world \<Rightarrow> addr \<Rightarrow> nat \<Rightarrow> 'a \<Rightarrow> fw_world run" where
  "store_elem con des w p i x =
     (case Option.bind (mem w p) des of
        Some xs \<Rightarrow> (if i < length xs then Ret (put w p (con (xs[i := Some x]))) else Fault)
      | None \<Rightarrow> Fault)"

fun the_paths :: "fw_obj \<Rightarrow> jfs_fio_path option list option" where
  "the_paths (Paths xs) = Some xs" | "the_paths _ = None"

fun the_files :: "fw_obj \<Rightarrow> jfs_fw_file option list option" where
  "the_files (Files xs) = Some xs" | "the_files _ = None"

fun the_dirs :: "fw_obj \<Rightarrow> jfs_fw_dir option list option" where
  "the_dirs (Dirs xs) = Some xs" | "the_dirs _ = None"

text \<open>\<open>sizeof\<close> of the element types on LP64.\<close>

definition sizeof_path :: size_t where "sizeof_path = 16"
definition sizeof_file :: size_t where "sizeof_file = 32"
definition sizeof_dir :: size_t where "sizeof_dir = 32"
definition sizeof_state :: size_t where "sizeof_state = 48"

section \<open>Paths and names of the world\<close>

definition fw_path_init :: "fw_os \<Rightarrow> fw_world \<Rightarrow> jfs_fio_path \<Rightarrow> string \<Rightarrow> jcl_err \<Rightarrow> fw_world \<times> jfs_fio_path \<times> jcl_err" where
  "fw_path_init os w path_init str err =
     (case jfs_fio_path_init (os_malloc os w (strlen (trim_slash str) + 1)) (strs (mem w)) path_init str err of (sh, path, err) \<Rightarrow>
      ((tick w)\<lparr>mem := with_strs (mem w) sh\<rparr>, path, err))"

definition fw_name_init :: "fw_os \<Rightarrow> fw_world \<Rightarrow> jfs_fio_name \<Rightarrow> string \<Rightarrow> jcl_err \<Rightarrow> fw_world \<times> jfs_fio_name \<times> jcl_err" where
  "fw_name_init os w name_init str err =
     (case jfs_fio_name_init (os_malloc os w (strlen str + 1)) (strs (mem w)) name_init str err of (sh, name, err) \<Rightarrow>
      ((tick w)\<lparr>mem := with_strs (mem w) sh\<rparr>, name, err))"

definition fw_path_free :: "fw_world \<Rightarrow> jfs_fio_path \<Rightarrow> (fw_world \<times> jfs_fio_path) run" where
  "fw_path_free w path_free =
     run_bind (jfs_fio_path_free (strs (mem w)) path_free) (\<lambda>(sh, path). Ret (w\<lparr>mem := with_strs (mem w) sh\<rparr>, path))"

definition fw_name_free :: "fw_world \<Rightarrow> jfs_fio_name \<Rightarrow> (fw_world \<times> jfs_fio_name) run" where
  "fw_name_free w name_free =
     run_bind (jfs_fio_name_free (strs (mem w)) name_free) (\<lambda>(sh, name). Ret (w\<lparr>mem := with_strs (mem w) sh\<rparr>, name))"

section \<open>Files and directories\<close>

definition jfs_fw_file_free :: "fw_world \<Rightarrow> jfs_fw_file \<Rightarrow> (fw_world \<times> jfs_fw_file) run" where
  "jfs_fw_file_free w file_free =
     run_bind (fw_name_free w (file_name file_free)) (\<lambda>(w, nm). Ret (w, zero_file))"

definition jfs_fw_file_transfer :: "jfs_fw_file \<Rightarrow> jfs_fw_file \<Rightarrow> jfs_fw_file \<times> jfs_fw_file" where
  "jfs_fw_file_transfer file_init file_free = (file_free, zero_file)"

text \<open>The loops over the elements of an array, from index \<open>i\<close> on, \<open>k\<close> elements.\<close>

fun free_files :: "nat \<Rightarrow> fw_world \<Rightarrow> addr \<Rightarrow> nat \<Rightarrow> fw_world run" where
  "free_files 0 w files i = Ret w"
| "free_files (Suc k) w files i =
     run_bind (load_elem the_files w files i) (\<lambda>file.
     run_bind (jfs_fw_file_free w file) (\<lambda>(w, file).
     run_bind (store_elem Files the_files w files i file) (\<lambda>w.
     free_files k w files (i + 1))))"

definition jfs_fw_dir_free :: "fw_world \<Rightarrow> jfs_fw_dir \<Rightarrow> (fw_world \<times> jfs_fw_dir) run" where
  "jfs_fw_dir_free w dir_free =
     run_bind (if dir_files dir_free \<noteq> NULL
               then run_bind (free_files (unat (dir_file_count dir_free)) w (dir_files dir_free) 0)
                      (\<lambda>w. free_obj w (dir_files dir_free))
               else Ret w) (\<lambda>w.
     run_bind (fw_path_free w (dir_path dir_free)) (\<lambda>(w, path). Ret (w, zero_dir)))"

definition jfs_fw_dir_transfer :: "jfs_fw_dir \<Rightarrow> jfs_fw_dir \<Rightarrow> jfs_fw_dir \<times> jfs_fw_dir" where
  "jfs_fw_dir_transfer dir_init dir_free = (dir_free, zero_dir)"

fun free_dirs :: "nat \<Rightarrow> fw_world \<Rightarrow> addr \<Rightarrow> nat \<Rightarrow> fw_world run" where
  "free_dirs 0 w dirs i = Ret w"
| "free_dirs (Suc k) w dirs i =
     run_bind (load_elem the_dirs w dirs i) (\<lambda>dir.
     run_bind (jfs_fw_dir_free w dir) (\<lambda>(w, dir).
     run_bind (store_elem Dirs the_dirs w dirs i dir) (\<lambda>w.
     free_dirs k w dirs (i + 1))))"

fun free_paths :: "nat \<Rightarrow> fw_world \<Rightarrow> addr \<Rightarrow> nat \<Rightarrow> fw_world run" where
  "free_paths 0 w paths i = Ret w"
| "free_paths (Suc k) w paths i =
     run_bind (load_elem the_paths w paths i) (\<lambda>path.
     run_bind (fw_path_free w path) (\<lambda>(w, path).
     run_bind (store_elem Paths the_paths w paths i path) (\<lambda>w.
     free_paths k w paths (i + 1))))"

section \<open>The vectors\<close>

definition FW_PATH_VECTOR_DEFAULT_CAPACITY :: size_t where "FW_PATH_VECTOR_DEFAULT_CAPACITY = 16"
definition FW_FILE_VECTOR_DEFAULT_CAPACITY :: size_t where "FW_FILE_VECTOR_DEFAULT_CAPACITY = 16"
definition FW_DIR_VECTOR_DEFAULT_CAPACITY :: size_t where "FW_DIR_VECTOR_DEFAULT_CAPACITY = 16"

definition fw_path_vector_init :: "fw_os \<Rightarrow> fw_world \<Rightarrow> fw_path_vector \<Rightarrow> jcl_err \<Rightarrow> fw_world \<times> fw_path_vector \<times> jcl_err" where
  "fw_path_vector_init os w vec_init err =
     (case malloc_obj os w (sizeof_path * FW_PATH_VECTOR_DEFAULT_CAPACITY)
             (Paths (replicate (unat FW_PATH_VECTOR_DEFAULT_CAPACITY) None)) err of (w, new_path_array, err) \<Rightarrow>
      if err \<noteq> JCL_OK then (w, vec_init, err)
      else (w, \<lparr>pv_count = 0, pv_capacity = FW_PATH_VECTOR_DEFAULT_CAPACITY, path_array = new_path_array\<rparr>, err))"

definition fw_path_vector_free :: "fw_world \<Rightarrow> fw_path_vector \<Rightarrow> (fw_world \<times> fw_path_vector) run" where
  "fw_path_vector_free w vec_free =
     run_bind (if path_array vec_free \<noteq> NULL
               then run_bind (free_paths (unat (pv_count vec_free)) w (path_array vec_free) 0)
                      (\<lambda>w. free_obj w (path_array vec_free))
               else Ret w) (\<lambda>w. Ret (w, zero_path_vec))"

definition fw_path_vector_push ::
  "fw_os \<Rightarrow> fw_world \<Rightarrow> fw_path_vector \<Rightarrow> jfs_fio_path \<Rightarrow> jcl_err \<Rightarrow> (fw_world \<times> fw_path_vector \<times> jfs_fio_path \<times> jcl_err) run" where
  "fw_path_vector_push os w vec path_free err =
     run_bind (if pv_count vec \<ge> pv_capacity vec then
         let new_capacity = pv_capacity vec * 2 in
         run_bind (realloc_obj Paths the_paths sizeof_path os w (path_array vec) (sizeof_path * new_capacity) err)
           (\<lambda>(w, new_path_array, err).
            if err \<noteq> JCL_OK then Ret (w, vec, err)
            else Ret (w, vec\<lparr>path_array := new_path_array, pv_capacity := new_capacity\<rparr>, err))
       else Ret (w, vec, JCL_OK)) (\<lambda>(w, vec, e).
     if e \<noteq> JCL_OK then Ret (w, vec, path_free, e)
     else case jfs_fio_path_transfer zero_path path_free of (elem, path_free) \<Rightarrow>
       run_bind (store_elem Paths the_paths w (path_array vec) (unat (pv_count vec)) elem) (\<lambda>w.
       Ret (w, vec\<lparr>pv_count := pv_count vec + 1\<rparr>, path_free, err)))"

definition fw_path_vector_pop ::
  "fw_world \<Rightarrow> fw_path_vector \<Rightarrow> jfs_fio_path \<Rightarrow> jcl_err \<Rightarrow> (fw_world \<times> fw_path_vector \<times> jfs_fio_path \<times> jcl_err) run" where
  "fw_path_vector_pop w vec path_init err =
     (if pv_count vec = 0 then Ret (w, vec, path_init, JCL_ERR_EMPTY)
      else let vec = vec\<lparr>pv_count := pv_count vec - 1\<rparr> in
        run_bind (load_elem the_paths w (path_array vec) (unat (pv_count vec))) (\<lambda>elem.
        case jfs_fio_path_transfer path_init elem of (path, elem) \<Rightarrow>
        run_bind (store_elem Paths the_paths w (path_array vec) (unat (pv_count vec)) elem) (\<lambda>w.
        Ret (w, vec, path, err))))"

definition fw_file_vector_init :: "fw_os \<Rightarrow> fw_world \<Rightarrow> fw_file_vector \<Rightarrow> jcl_err \<Rightarrow> fw_world \<times> fw_file_vector \<times> jcl_err" where
  "fw_file_vector_init os w vec_init err =
     (case malloc_obj os w (sizeof_file * FW_FILE_VECTOR_DEFAULT_CAPACITY)
             (Files (replicate (unat FW_FILE_VECTOR_DEFAULT_CAPACITY) None)) err of (w, new_file_array, err) \<Rightarrow>
      if err \<noteq> JCL_OK then (w, vec_init, err)
      else (w, \<lparr>fv_count = 0, fv_capacity = FW_FILE_VECTOR_DEFAULT_CAPACITY, file_array = new_file_array\<rparr>, err))"

definition fw_file_vector_free :: "fw_world \<Rightarrow> fw_file_vector \<Rightarrow> (fw_world \<times> fw_file_vector) run" where
  "fw_file_vector_free w vec_free =
     run_bind (if file_array vec_free \<noteq> NULL
               then run_bind (free_files (unat (fv_count vec_free)) w (file_array vec_free) 0)
                      (\<lambda>w. free_obj w (file_array vec_free))
               else Ret w) (\<lambda>w. Ret (w, zero_file_vec))"

definition fw_file_vector_push ::
  "fw_os \<Rightarrow> fw_world \<Rightarrow> fw_file_vector \<Rightarrow> jfs_fw_file \<Rightarrow> jcl_err \<Rightarrow> (fw_world \<times> fw_file_vector \<times> jfs_fw_file \<times> jcl_err) run" where
  "fw_file_vector_push os w vec file_free err =
     run_bind (if fv_count vec \<ge> fv_capacity vec then
         let new_capacity = fv_capacity vec * 2 in
         run_bind (realloc_obj Files the_files sizeof_file os w (file_array vec) (sizeof_file * new_capacity) err)
           (\<lambda>(w, new_file_array, err).
            if err \<noteq> JCL_OK then Ret (w, vec, err)
            else Ret (w, vec\<lparr>file_array := new_file_array, fv_capacity := new_capacity\<rparr>, err))
       else Ret (w, vec, JCL_OK)) (\<lambda>(w, vec, e).
     if e \<noteq> JCL_OK then Ret (w, vec, file_free, e)
     else case jfs_fw_file_transfer zero_file file_free of (elem, file_free) \<Rightarrow>
       run_bind (store_elem Files the_files w (file_array vec) (unat (fv_count vec)) elem) (\<lambda>w.
       Ret (w, vec\<lparr>fv_count := fv_count vec + 1\<rparr>, file_free, err)))"

definition fw_file_vector_to_array ::
  "fw_os \<Rightarrow> fw_world \<Rightarrow> fw_file_vector \<Rightarrow> jcl_err \<Rightarrow> (fw_world \<times> addr \<times> fw_file_vector \<times> jcl_err) run" where
  "fw_file_vector_to_array os w vec_free err =
     (if fv_count vec_free = 0 then Ret (w, NULL, vec_free, JCL_ERR_EMPTY)
      else run_bind (realloc_obj Files the_files sizeof_file os w (file_array vec_free) (sizeof_file * fv_count vec_free) err)
        (\<lambda>(w, arr, err). if err \<noteq> JCL_OK then Ret (w, NULL, vec_free, err) else Ret (w, arr, zero_file_vec, err)))"

definition fw_dir_vector_init :: "fw_os \<Rightarrow> fw_world \<Rightarrow> fw_dir_vector \<Rightarrow> jcl_err \<Rightarrow> fw_world \<times> fw_dir_vector \<times> jcl_err" where
  "fw_dir_vector_init os w vec_init err =
     (case malloc_obj os w (sizeof_dir * FW_DIR_VECTOR_DEFAULT_CAPACITY)
             (Dirs (replicate (unat FW_DIR_VECTOR_DEFAULT_CAPACITY) None)) err of (w, new_dir_array, err) \<Rightarrow>
      if err \<noteq> JCL_OK then (w, vec_init, err)
      else (w, \<lparr>dv_count = 0, dv_capacity = FW_DIR_VECTOR_DEFAULT_CAPACITY, dir_array = new_dir_array\<rparr>, err))"

definition fw_dir_vector_free :: "fw_world \<Rightarrow> fw_dir_vector \<Rightarrow> (fw_world \<times> fw_dir_vector) run" where
  "fw_dir_vector_free w vec_free =
     run_bind (if dir_array vec_free \<noteq> NULL
               then run_bind (free_dirs (unat (dv_count vec_free)) w (dir_array vec_free) 0)
                      (\<lambda>w. free_obj w (dir_array vec_free))
               else Ret w) (\<lambda>w. Ret (w, zero_dir_vec))"

definition fw_dir_vector_push ::
  "fw_os \<Rightarrow> fw_world \<Rightarrow> fw_dir_vector \<Rightarrow> jfs_fw_dir \<Rightarrow> jcl_err \<Rightarrow> (fw_world \<times> fw_dir_vector \<times> jfs_fw_dir \<times> jcl_err) run" where
  "fw_dir_vector_push os w vec dir_free err =
     run_bind (if dv_count vec \<ge> dv_capacity vec then
         let new_capacity = dv_capacity vec * 2 in
         run_bind (realloc_obj Dirs the_dirs sizeof_dir os w (dir_array vec) (sizeof_dir * new_capacity) err)
           (\<lambda>(w, new_dir_array, err).
            if err \<noteq> JCL_OK then Ret (w, vec, err)
            else Ret (w, vec\<lparr>dir_array := new_dir_array, dv_capacity := new_capacity\<rparr>, err))
       else Ret (w, vec, JCL_OK)) (\<lambda>(w, vec, e).
     if e \<noteq> JCL_OK then Ret (w, vec, dir_free, e)
     else case jfs_fw_dir_transfer zero_dir dir_free of (elem, dir_free) \<Rightarrow>
       run_bind (store_elem Dirs the_dirs w (dir_array vec) (unat (dv_count vec)) elem) (\<lambda>w.
       Ret (w, vec\<lparr>dv_count := dv_count vec + 1\<rparr>, dir_free, err)))"

definition fw_dir_vector_to_array ::
  "fw_os \<Rightarrow> fw_world \<Rightarrow> fw_dir_vector \<Rightarrow> jcl_err \<Rightarrow> (fw_world \<times> addr \<times> fw_dir_vector \<times> jcl_err) run" where
  "fw_dir_vector_to_array os w vec_free err =
     (if dv_count vec_free = 0 then Ret (w, NULL, vec_free, JCL_ERR_EMPTY)
      else run_bind (realloc_obj Dirs the_dirs sizeof_dir os w (dir_array vec_free) (sizeof_dir * dv_count vec_free) err)
        (\<lambda>(w, arr, err). if err \<noteq> JCL_OK then Ret (w, NULL, vec_free, err) else Ret (w, arr, zero_dir_vec, err)))"

section \<open>Scanning a directory\<close>

definition DT_UNKNOWN :: byte where "DT_UNKNOWN = 0"
definition DT_DIR :: byte where "DT_DIR = 4"
definition DT_REG :: byte where "DT_REG = 8"

definition fw_map_dirent_type :: "byte \<Rightarrow> jcl_err \<Rightarrow> jfs_fw_types \<times> jcl_err" where
  "fw_map_dirent_type ent_type err =
     (if ent_type = DT_REG then (JFS_FW_REG, err)
      else if ent_type = DT_DIR then (JFS_FW_DIR, err)
      else if ent_type = DT_UNKNOWN then (JFS_FW_REG, JCL_ERR_FW_UNKNOWN)
      else (JFS_FW_REG, JCL_ERR_FW_UNSUPPORTED))"

definition fw_file_init :: "fw_os \<Rightarrow> fw_world \<Rightarrow> jfs_fw_file \<Rightarrow> dirent \<Rightarrow> jcl_err \<Rightarrow> fw_world \<times> jfs_fw_file \<times> jcl_err" where
  "fw_file_init os w file_init ent err =
     (case fw_map_dirent_type (d_type ent) err of (new_type, err) \<Rightarrow>
      if err \<noteq> JCL_OK then (w, file_init, err)
      else case fw_name_init os w zero_name (d_name ent) err of (w, new_name, err) \<Rightarrow>
      if err \<noteq> JCL_OK then (w, file_init, err)
      else case jfs_fio_name_transfer (file_name file_init) new_name of (nm, new_name) \<Rightarrow>
      (w, file_init\<lparr>file_name := nm, file_inode := d_ino ent, file_type := new_type\<rparr>, err))"

definition fw_handle_dirent ::
  "fw_os \<Rightarrow> fw_world \<Rightarrow> dirent \<Rightarrow> fw_file_vector \<Rightarrow> jcl_err \<Rightarrow> (fw_world \<times> fw_file_vector \<times> jcl_err) run" where
  "fw_handle_dirent os w ent vec err =
     (case fw_file_init os w zero_file ent err of (w, file, err) \<Rightarrow>
      if err \<noteq> JCL_OK then Ret (w, vec, err)
      else run_bind (fw_file_vector_push os w vec file err) (\<lambda>(w, vec, file, err).
        if err \<noteq> JCL_OK then run_bind (jfs_fw_file_free w file) (\<lambda>(w, file). Ret (w, vec, err))
        else Ret (w, vec, err)))"

text \<open>The loop over what \<open>readdir\<close> returns; \<open>errno\<close> is its value when the entries are used up.\<close>

fun fw_scan_loop ::
  "fw_os \<Rightarrow> dirent list \<Rightarrow> errno \<Rightarrow> fw_world \<Rightarrow> fw_file_vector \<Rightarrow> jcl_err \<Rightarrow> (fw_world \<times> fw_file_vector \<times> jcl_err) run" where
  "fw_scan_loop os [] errno w vec err = Ret (w, vec, if errno \<noteq> EOTHER 0 then JCL_ERR_SYS else err)"
| "fw_scan_loop os (ent # ents) errno w vec err =
     (if d_name ent = ''.'' \<or> d_name ent = ''..'' then fw_scan_loop os ents errno w vec err
      else run_bind (fw_handle_dirent os w ent vec err) (\<lambda>(w, vec, err).
        if err = JCL_ERR_FW_UNSUPPORTED then fw_scan_loop os ents errno w vec JCL_OK
        else if err \<noteq> JCL_OK then Ret (w, vec, err)
        else fw_scan_loop os ents errno w vec err))"

definition fw_scan_dir ::
  "fw_os \<Rightarrow> dirent list \<Rightarrow> errno \<Rightarrow> fw_world \<Rightarrow> fw_file_vector \<Rightarrow> jcl_err \<Rightarrow> (fw_world \<times> fw_file_vector \<times> jcl_err) run" where
  "fw_scan_dir os ents errno w vec err = fw_scan_loop os ents errno w vec err"

text \<open>The loop of \<open>fw_push_dir_paths\<close> with \<open>k\<close> elements to go, from index \<open>i\<close> on.\<close>

fun fw_push_loop ::
  "nat \<Rightarrow> fw_os \<Rightarrow> fw_world \<Rightarrow> fw_path_vector \<Rightarrow> addr \<Rightarrow> jfs_fio_path \<Rightarrow> jfs_fio_path \<Rightarrow> jfs_fio_path_buf \<Rightarrow> nat \<Rightarrow> jcl_err
   \<Rightarrow> (fw_world \<times> fw_path_vector \<times> jcl_err) run" where
  "fw_push_loop 0 os w pvec files dpath push_path buf i err = Ret (w, pvec, err)"
| "fw_push_loop (Suc k) os w pvec files dpath push_path buf i err =
     run_bind (load_elem the_files w files i) (\<lambda>file.
     if file_type file = JFS_FW_REG then fw_push_loop k os w pvec files dpath push_path buf (i + 1) err
     else run_bind (jfs_fio_path_buf_compose (strs (mem w)) buf dpath (file_name file) err) (\<lambda>(buf, err).
       if err = JCL_ERR_FIO_PATH_OVERFLOW then fw_push_loop k os w pvec files dpath push_path buf (i + 1) JCL_OK
       else case fw_path_init os w push_path (buf_data buf) err of (w, push_path, err) \<Rightarrow>
       if err \<noteq> JCL_OK then Ret (w, pvec, err)
       else run_bind (fw_path_vector_push os w pvec push_path err) (\<lambda>(w, pvec, push_path, err).
         if err \<noteq> JCL_OK then run_bind (fw_path_free w push_path) (\<lambda>(w, push_path). Ret (w, pvec, err))
         else fw_push_loop k os w pvec files dpath push_path buf (i + 1) err)))"

definition fw_push_dir_paths ::
  "fw_os \<Rightarrow> fw_world \<Rightarrow> fw_path_vector \<Rightarrow> fw_file_vector \<Rightarrow> jfs_fio_path \<Rightarrow> jcl_err \<Rightarrow> (fw_world \<times> fw_path_vector \<times> jcl_err) run" where
  "fw_push_dir_paths os w pvec file_vec dpath err =
     fw_push_loop (unat (fv_count file_vec)) os w pvec (file_array file_vec) dpath zero_path
       \<lparr>buf_len = 0, buf_data = []\<rparr> 0 err"

definition fw_dir_init ::
  "fw_os \<Rightarrow> fw_world \<Rightarrow> jfs_fw_dir \<Rightarrow> fw_file_vector \<Rightarrow> jfs_fio_path \<Rightarrow> jcl_err
   \<Rightarrow> (fw_world \<times> jfs_fw_dir \<times> fw_file_vector \<times> jfs_fio_path \<times> jcl_err) run" where
  "fw_dir_init os w dir_init vec_free path_free err =
     (let new_count = fv_count vec_free in
      run_bind (if fv_count vec_free > 0 then fw_file_vector_to_array os w vec_free err
                else run_bind (fw_file_vector_free w vec_free) (\<lambda>(w, vec_free). Ret (w, NULL, vec_free, JCL_OK)))
        (\<lambda>(w, new_files, vec_free, e).
         if e \<noteq> JCL_OK then Ret (w, dir_init, vec_free, path_free, e)
         else case jfs_fio_path_transfer (dir_path dir_init) path_free of (path, path_free) \<Rightarrow>
           Ret (w, \<lparr>dir_path = path, dir_files = new_files, dir_file_count = new_count\<rparr>, vec_free, path_free, err)))"

section \<open>The walker\<close>

definition closedir :: "fw_world \<Rightarrow> addr \<Rightarrow> fw_world run" where
  "closedir w d = (if d \<in> open_dirs w then Ret (w\<lparr>open_dirs := open_dirs w - {d}\<rparr>) else Fault)"

definition fw_opendir :: "fw_os \<Rightarrow> fw_world \<Rightarrow> string \<Rightarrow> jcl_err \<Rightarrow> fw_world \<times> addr \<times> dirent list \<times> errno \<times> jcl_err" where
  "fw_opendir os w path err =
     (case os_opendir os w path of (d, errno, ents, errno_end) \<Rightarrow>
      case jcl_opendir d errno err of (sys_dir, err) \<Rightarrow>
      (if d = NULL then tick w else (tick w)\<lparr>open_dirs := insert d (open_dirs w)\<rparr>, sys_dir, ents, errno_end, err))"

text \<open>
  \<open>jfs_fw_state_create\<close>.  The struct in the fresh block has the contents \<open>junk\<close> until it is written.
\<close>

definition fw_state_create_cleanup :: "fw_world \<Rightarrow> addr \<Rightarrow> jfs_fw_state \<Rightarrow> jfs_fio_path \<Rightarrow> jcl_err \<Rightarrow> (fw_world \<times> addr \<times> jcl_err) run" where
  "fw_state_create_cleanup w state st new_path err =
     run_bind (if state \<noteq> NULL
               then run_bind (fw_dir_vector_free w (dir_vec st)) (\<lambda>(w, dv).
                    run_bind (fw_path_vector_free w (path_vec st)) (\<lambda>(w, pv).
                    free_obj w state))
               else Ret w) (\<lambda>w.
     run_bind (fw_path_free w new_path) (\<lambda>(w, new_path). Ret (w, NULL, err)))"

definition jfs_fw_state_create ::
  "fw_os \<Rightarrow> jfs_fw_state \<Rightarrow> fw_world \<Rightarrow> jfs_fio_path \<Rightarrow> jcl_err \<Rightarrow> (fw_world \<times> addr \<times> jcl_err) run" where
  "jfs_fw_state_create os junk w start_path err =
     (case malloc_obj os w sizeof_state (State junk) err of (w, state, err) \<Rightarrow>
      if err \<noteq> JCL_OK then fw_state_create_cleanup w state junk zero_path err
      else case fw_path_vector_init os w (path_vec junk) err of (w, pv, err) \<Rightarrow>
        let st = junk\<lparr>path_vec := pv\<rparr> in
      if err \<noteq> JCL_OK then fw_state_create_cleanup w state st zero_path err
      else case fw_dir_vector_init os w (dir_vec st) err of (w, dv, err) \<Rightarrow>
        let st = st\<lparr>dir_vec := dv\<rparr> in
      if err \<noteq> JCL_OK then fw_state_create_cleanup w state st zero_path err
      else run_bind (deref_str (strs (mem w)) (path_str start_path)) (\<lambda>s.
        case fw_path_init os w zero_path s err of (w, new_path, err) \<Rightarrow>
      if err \<noteq> JCL_OK then fw_state_create_cleanup w state st new_path err
      else run_bind (fw_path_vector_push os w (path_vec st) new_path err) (\<lambda>(w, pv, new_path, err).
        let st = st\<lparr>path_vec := pv\<rparr> in
      if err \<noteq> JCL_OK then fw_state_create_cleanup w state st new_path err
      else Ret (put w state (State st), state, err))))"

definition load_state :: "fw_world \<Rightarrow> addr \<Rightarrow> jfs_fw_state run" where
  "load_state w state = (case mem w state of Some (State st) \<Rightarrow> Ret st | _ \<Rightarrow> Fault)"

definition jfs_fw_state_destroy :: "fw_world \<Rightarrow> addr \<Rightarrow> fw_world run" where
  "jfs_fw_state_destroy w state_move =
     (if state_move = NULL then Ret w
      else run_bind (load_state w state_move) (\<lambda>st.
        run_bind (fw_path_vector_free w (path_vec st)) (\<lambda>(w, pv).
        run_bind (fw_dir_vector_free w (dir_vec st)) (\<lambda>(w, dv).
        free_obj w state_move))))"

definition fw_step_cleanup ::
  "fw_world \<Rightarrow> jfs_fw_state \<Rightarrow> addr \<Rightarrow> fw_file_vector \<Rightarrow> jfs_fio_path \<Rightarrow> jfs_fw_dir \<Rightarrow> jcl_err
   \<Rightarrow> (fw_world \<times> jfs_fw_state \<times> int \<times> jcl_err) run" where
  "fw_step_cleanup w st sys_dir file_vec dpath dir err =
     run_bind (if sys_dir \<noteq> NULL then closedir w sys_dir else Ret w) (\<lambda>w.
     run_bind (fw_file_vector_free w file_vec) (\<lambda>(w, file_vec).
     run_bind (fw_path_free w dpath) (\<lambda>(w, dpath).
     run_bind (jfs_fw_dir_free w dir) (\<lambda>(w, dir).
     let err = REMAP_ERR JCL_ERR_ACCESS JCL_ERR_FW_SKIP err;
         err = REMAP_ERR JCL_ERR_INVAL_PATH JCL_ERR_FW_FAIL err
     in Ret (w, st, if pv_count (path_vec st) = 0 then 1 else 0, err)))))"

text \<open>\<open>jfs_fw_state_step\<close> on the struct \<open>*state\<close>.\<close>

definition fw_state_step :: "fw_os \<Rightarrow> fw_world \<Rightarrow> jfs_fw_state \<Rightarrow> jcl_err \<Rightarrow> (fw_world \<times> jfs_fw_state \<times> int \<times> jcl_err) run" where
  "fw_state_step os w st err =
     (if pv_count (path_vec st) = 0 then Ret (w, st, 1, err)
      else case fw_file_vector_init os w zero_file_vec err of (w, file_vec, err) \<Rightarrow>
      if err \<noteq> JCL_OK then fw_step_cleanup w st NULL file_vec zero_path zero_dir err
      else run_bind (fw_path_vector_pop w (path_vec st) zero_path err) (\<lambda>(w, pv, path, err).
        let st = st\<lparr>path_vec := pv\<rparr> in
      if err \<noteq> JCL_OK then fw_step_cleanup w st NULL file_vec path zero_dir err
      else run_bind (deref_str (strs (mem w)) (path_str path)) (\<lambda>s.
        case fw_opendir os w s err of (w, sys_dir, ents, errno, err) \<Rightarrow>
      if err \<noteq> JCL_OK then fw_step_cleanup w st sys_dir file_vec path zero_dir err
      else run_bind (fw_scan_dir os ents errno w file_vec err) (\<lambda>(w, file_vec, err).
      if err \<noteq> JCL_OK then fw_step_cleanup w st sys_dir file_vec path zero_dir err
      else run_bind (fw_push_dir_paths os w (path_vec st) file_vec path err) (\<lambda>(w, pv, err).
        let st = st\<lparr>path_vec := pv\<rparr> in
      if err \<noteq> JCL_OK then fw_step_cleanup w st sys_dir file_vec path zero_dir err
      else run_bind (fw_dir_init os w zero_dir file_vec path err) (\<lambda>(w, dir, file_vec, path, err).
      if err \<noteq> JCL_OK then fw_step_cleanup w st sys_dir file_vec path dir err
      else run_bind (fw_dir_vector_push os w (dir_vec st) dir err) (\<lambda>(w, dv, dir, err).
        let st = st\<lparr>dir_vec := dv\<rparr> in
      if err \<noteq> JCL_OK then fw_step_cleanup w st sys_dir file_vec path dir err
      else run_bind (closedir w sys_dir) (\<lambda>w.
        Ret (w, st, if pv_count (path_vec st) > 0 then 1 else 0, err)))))))))"

definition jfs_fw_state_step :: "fw_os \<Rightarrow> fw_world \<Rightarrow> addr \<Rightarrow> jcl_err \<Rightarrow> (fw_world \<times> int \<times> jcl_err) run" where
  "jfs_fw_state_step os w state err =
     run_bind (load_state w state) (\<lambda>st.
     run_bind (fw_state_step os w st err) (\<lambda>(w, st, r, err).
     Ret (put w state (State st), r, err)))"

definition jfs_fw_record_init ::
  "fw_os \<Rightarrow> fw_world \<Rightarrow> jfs_fw_record \<Rightarrow> addr \<Rightarrow> jcl_err \<Rightarrow> (fw_world \<times> jfs_fw_record \<times> jcl_err) run" where
  "jfs_fw_record_init os w record_init state_move err =
     run_bind (load_state w state_move) (\<lambda>st.
     if pv_count (path_vec st) > 0 then Ret (w, record_init, JCL_ERR_FW_STATE)
     else let new_dir_count = dv_count (dir_vec st) in
     run_bind (fw_dir_vector_to_array os w (dir_vec st) err) (\<lambda>(w, new_dir_array, dv, err).
     let w = put w state_move (State (st\<lparr>dir_vec := dv\<rparr>)) in
     if err \<noteq> JCL_OK then Ret (w, record_init, err)
     else run_bind (jfs_fw_state_destroy w state_move) (\<lambda>w.
       Ret (w, \<lparr>rec_dir_count = new_dir_count, rec_dir_array = new_dir_array\<rparr>, err))))"

definition jfs_fw_record_free :: "fw_world \<Rightarrow> jfs_fw_record \<Rightarrow> (fw_world \<times> jfs_fw_record) run" where
  "jfs_fw_record_free w record_free =
     run_bind (if rec_dir_array record_free \<noteq> NULL
               then run_bind (free_dirs (unat (rec_dir_count record_free)) w (rec_dir_array record_free) 0)
                      (\<lambda>w. free_obj w (rec_dir_array record_free))
               else Ret w) (\<lambda>w. Ret (w, \<lparr>rec_dir_count = 0, rec_dir_array = NULL\<rparr>))"

end
