(* ===== verification/Fw_Heap.thy ===== *)
theory Fw_Heap
  imports Fw_Code "HOL-Library.Multiset"
begin

text \<open>
  The heap of the walker as a multiset of cells.  \<open>heap_is h M\<close> says that the live blocks of \<open>h\<close> are exactly
  the cells of \<open>M\<close>, each at an address of its own.  A call that owns some of the cells is specified with an
  arbitrary rest \<open>M\<close>: that the rest is the same afterwards says both that the call changes nothing it does not
  own and that it loses no block.
\<close>

section \<open>Cells\<close>

type_synonym fw_cell = "addr \<times> fw_obj"

definition heap_is :: "fw_heap \<Rightarrow> fw_cell multiset \<Rightarrow> bool" where
  "heap_is h M \<longleftrightarrow> (\<forall>a ob. h a = Some ob \<longleftrightarrow> (a, ob) \<in># M) \<and> (\<forall>a. count (image_mset fst M) a \<le> 1) \<and> h NULL = None"

lemma heap_is_fresh: "heap_is h M \<Longrightarrow> h a = None \<longleftrightarrow> a \<notin> fst ` set_mset M"
  unfolding heap_is_def by (metis (no_types, lifting) image_iff not_None_eq prod.collapse fst_conv)

lemma heap_is_insert:
  assumes "heap_is h M" "h a = None" "a \<noteq> NULL"
  shows "heap_is (h(a \<mapsto> ob)) (add_mset (a, ob) M)"
proof -
  have fresh: "a \<notin> fst ` set_mset M" using heap_is_fresh[OF assms(1)] assms(2) by simp
  have "count (image_mset fst M) a = 0" using fresh by (simp add: not_in_iff[symmetric])
  thus ?thesis using assms fresh unfolding heap_is_def by force
qed

lemma heap_is_cell: "heap_is h (add_mset (a, ob) M) \<Longrightarrow> h a = Some ob \<and> a \<noteq> NULL"
  unfolding heap_is_def by (metis option.distinct(1) union_single_eq_member)

lemma heap_is_delete:
  assumes "heap_is h (add_mset (a, ob) M)"
  shows "heap_is (h(a := None)) M"
proof -
  note d = assms[unfolded heap_is_def]
  have c: "count (image_mset fst (add_mset (a, ob) M)) b \<le> 1" for b
    by (rule d[THEN conjunct2, THEN conjunct1, rule_format])
  have "count (image_mset fst M) a = 0" using c[of a] by simp
  hence fresh: "a \<notin> fst ` set_mset M" by (metis count_eq_zero_iff in_image_mset)
  have le: "count (image_mset fst M) b \<le> 1" for b using c[of b] by (simp split: if_splits)
  have "(h(a := None)) b = Some ob' \<longleftrightarrow> (b, ob') \<in># M" for b ob'
  proof (cases "b = a")
    case True
    thus ?thesis using fresh by force
  next
    case False
    have "h b = Some ob' \<longleftrightarrow> (b, ob') \<in># add_mset (a, ob) M" by (rule d[THEN conjunct1, rule_format])
    thus ?thesis using False by simp
  qed
  moreover have "(h(a := None)) NULL = None" using d by simp
  ultimately show ?thesis unfolding heap_is_def using le by (intro conjI allI)
qed

lemma heap_is_move:
  assumes "heap_is h (add_mset (a, ob) M)" "b = a \<or> h b = None" "b \<noteq> NULL"
  shows "heap_is (h(a := None, b \<mapsto> ob')) (add_mset (b, ob') M)"
  using assms(2) by (intro heap_is_insert[OF heap_is_delete[OF assms(1)] _ assms(3)]) auto

lemma heap_is_update: "heap_is h (add_mset (a, ob) M) \<Longrightarrow> heap_is (h(a \<mapsto> ob')) (add_mset (a, ob') M)"
  using heap_is_move[of h a ob M a ob'] heap_is_cell[of h a ob M] by simp

text \<open>Every heap that does not use the null address has such a description.\<close>

lemma heap_is_exists:
  assumes "h NULL = None"
  shows "heap_is h (image_mset (\<lambda>a. (a, the (h a))) (mset_set (dom h)))"
proof -
  have "finite (dom h)" by simp
  thus ?thesis using assms unfolding heap_is_def
    by (auto simp: multiset.map_comp comp_def count_mset_set' image_iff intro!: bexI)
qed

section \<open>Allocation\<close>

text \<open>
  What the walker relies on: \<open>malloc\<close> and \<open>realloc\<close> return \<open>NULL\<close> or a block that is not live (or the same block),
  never of more than \<open>PTRDIFF_MAX\<close> bytes; \<open>opendir\<close> returns \<open>NULL\<close>, as it does for the empty path, or a stream
  that is not open, and the names of the entries are no longer than memory.
\<close>

definition os_ok :: "fw_os \<Rightarrow> bool" where
  "os_ok os \<longleftrightarrow>
     (\<forall>w n. os_malloc os w n = NULL \<or> mem w (os_malloc os w n) = None \<and> unat n < 2 ^ 63)
   \<and> (\<forall>w p n. os_realloc os w p n = NULL
        \<or> (os_realloc os w p n = p \<or> mem w (os_realloc os w p n) = None) \<and> unat n < 2 ^ 63)
   \<and> (\<forall>w s d e ents e'. os_opendir os w s = (d, e, ents, e') \<longrightarrow>
        d = NULL \<or> d \<notin> open_dirs w \<and> s \<noteq> [] \<and> (\<forall>x \<in> set ents. length (d_name x) < 2 ^ 63))"

lemma os_mallocD: "os_ok os \<Longrightarrow> os_malloc os w n \<noteq> NULL \<Longrightarrow> mem w (os_malloc os w n) = None \<and> unat n < 2 ^ 63"
  unfolding os_ok_def by (drule conjunct1, drule spec[of _ w], drule spec[of _ n]) simp

lemma os_reallocD: "os_ok os \<Longrightarrow> os_realloc os w p n \<noteq> NULL \<Longrightarrow>
    (os_realloc os w p n = p \<or> mem w (os_realloc os w p n) = None) \<and> unat n < 2 ^ 63"
  unfolding os_ok_def by (drule conjunct2, drule conjunct1, drule spec[of _ w], drule spec[of _ p], drule spec[of _ n]) simp

lemma os_opendirD: "os_ok os \<Longrightarrow> os_opendir os w s = (d, e, ents, e') \<Longrightarrow> d \<noteq> NULL \<Longrightarrow>
    d \<notin> open_dirs w \<and> s \<noteq> [] \<and> (\<forall>x \<in> set ents. length (d_name x) < 2 ^ 63)"
  unfolding os_ok_def by (elim conjE) blast

lemma tick_simps [simp]: "mem (tick w) = mem w" "open_dirs (tick w) = open_dirs w"
  by (simp_all add: tick_def)

lemma put_simps [simp]: "mem (put w a ob) = (mem w)(a \<mapsto> ob)" "open_dirs (put w a ob) = open_dirs w"
  by (simp_all add: put_def)

lemma malloc_obj_cases:
  assumes "os_ok os" "heap_is (mem w) M" "malloc_obj os w n ob JCL_OK = (w', a, err')"
  shows "open_dirs w' = open_dirs w
    \<and> (err' = JCL_OK \<and> heap_is (mem w') (add_mset (a, ob) M) \<and> a \<noteq> NULL \<and> unat n < 2 ^ 63
       \<or> err' = JCL_ERR_SYS \<and> mem w' = mem w \<and> a = NULL)"
proof (cases "os_malloc os w n = NULL")
  case False
  hence "mem w (os_malloc os w n) = None" "unat n < 2 ^ 63" using os_mallocD[OF assms(1) False] by simp_all
  thus ?thesis using assms(2,3) False heap_is_insert by (auto simp: malloc_obj_def Let_def jcl_malloc_def)
qed (use assms in \<open>auto simp: malloc_obj_def Let_def jcl_malloc_def\<close>)

lemma free_obj_cell:
  assumes "heap_is (mem w) (add_mset (a, ob) M)"
  shows "free_obj w a = Ret (w\<lparr>mem := (mem w)(a := None)\<rparr>)" "heap_is ((mem w)(a := None)) M"
  using heap_is_cell[OF assms] heap_is_delete[OF assms] by (auto simp: free_obj_def)

lemma realloc_obj_cases:
  assumes "os_ok os" "heap_is (mem w) (add_mset (p, con xs) M)" "des (con xs) = Some xs"
  shows "\<exists>w' q err'. realloc_obj con des esz os w p n JCL_OK = Ret (w', q, err') \<and> open_dirs w' = open_dirs w
    \<and> (err' = JCL_OK \<and> heap_is (mem w') (add_mset (q, con (resize (unat n div unat esz) xs)) M) \<and> q \<noteq> NULL \<and> unat n < 2 ^ 63
       \<or> err' = JCL_ERR_SYS \<and> mem w' = mem w \<and> q = NULL)"
proof -
  have "mem w p = Some (con xs)" "p \<noteq> NULL" using heap_is_cell[OF assms(2)] by auto
  thus ?thesis using assms(3) os_reallocD[OF assms(1), of w p n] heap_is_move[OF assms(2), of "os_realloc os w p n"]
    by (auto simp: realloc_obj_def Let_def jcl_realloc_def)
qed

section \<open>Strings\<close>

lemma strs_Str: "h a = Some (Str s) \<Longrightarrow> strs h a = Some s"
  by (simp add: strs_def)

lemma with_strs_id: "with_strs h (strs h) = h"
  by (auto simp: with_strs_def strs_def fun_eq_iff split: option.splits fw_obj.splits)

lemma with_strs_insert: "with_strs h ((strs h)(a \<mapsto> s)) = h(a \<mapsto> Str s)"
  by (auto simp: with_strs_def strs_def fun_eq_iff split: option.splits fw_obj.splits)

lemma with_strs_delete: "h a = Some (Str s) \<Longrightarrow> with_strs h ((strs h)(a := None)) = h(a := None)"
  by (auto simp: with_strs_def strs_def fun_eq_iff split: option.splits fw_obj.splits)

text \<open>Evaluation without the detour over \<open>strs\<close>.\<close>

lemma tick_mem_id: "(tick w)\<lparr>mem := mem w\<rparr> = tick w"
  by (cases w) (simp add: tick_def)

lemma fw_name_init_code [code]:
  "fw_name_init os w n s err =
     (let a = os_malloc os w (strlen s + 1) in
      if strlen s > NAME_MAX then (tick w, n, JCL_ERR_FIO_NAME_LEN)
      else if a = NULL then (tick w, n, JCL_ERR_SYS)
      else if err \<noteq> JCL_OK then (tick w, n, err)
      else ((tick w)\<lparr>mem := (mem w)(a \<mapsto> Str (strlcpy s (strlen s + 1)))\<rparr>, n\<lparr>name_len := strlen s, name_str := a\<rparr>, err))"
  by (auto simp: fw_name_init_def jfs_fio_name_init_def jcl_malloc_def Let_def with_strs_id with_strs_insert tick_mem_id)

lemma fw_path_init_code [code]:
  "fw_path_init os w p s err =
     (let a = os_malloc os w (strlen (trim_slash s) + 1);
          l = (if strlen s > 1 \<and> s ! (unat (strlen s) - 1) = CHR ''/'' then strlen s - 1 else strlen s) in
      if l > PATH_MAX then (tick w, p, JCL_ERR_FIO_PATH_LEN)
      else if a = NULL then (tick w, p, JCL_ERR_SYS)
      else if err \<noteq> JCL_OK then (tick w, p, err)
      else ((tick w)\<lparr>mem := (mem w)(a \<mapsto> Str (strlcpy s (l + 1)))\<rparr>, p\<lparr>path_len := l, path_str := a\<rparr>, err))"
  by (simp add: fw_path_init_def jfs_fio_path_init_def jcl_malloc_def Let_def with_strs_id with_strs_insert tick_mem_id del: if_split)

lemma free_str_cases:
  "free_str (strs h) a = (if a = NULL then Ret (strs h) else case h a of Some (Str s) \<Rightarrow> Ret ((strs h)(a := None)) | _ \<Rightarrow> Fault)"
  by (auto simp: free_str_def strs_def split: option.splits fw_obj.splits)

lemma fw_path_free_code [code]:
  "fw_path_free w p = (if path_str p = NULL then Ret (w, zero_path)
     else case mem w (path_str p) of Some (Str s) \<Rightarrow> Ret (w\<lparr>mem := (mem w)(path_str p := None)\<rparr>, zero_path) | _ \<Rightarrow> Fault)"
  by (simp add: fw_path_free_def jfs_fio_path_free_def free_str_cases zero_path_def with_strs_id with_strs_delete split: option.split fw_obj.split)

lemma fw_name_free_code [code]:
  "fw_name_free w n = (if name_str n = NULL then Ret (w, zero_name)
     else case mem w (name_str n) of Some (Str s) \<Rightarrow> Ret (w\<lparr>mem := (mem w)(name_str n := None)\<rparr>, zero_name) | _ \<Rightarrow> Fault)"
  by (simp add: fw_name_free_def jfs_fio_name_free_def free_str_cases zero_name_def with_strs_id with_strs_delete split: option.split fw_obj.split)

text \<open>A path or a name in memory is given by the address of its string and the string.\<close>

fun path_of :: "addr \<times> string \<Rightarrow> jfs_fio_path" where
  "path_of (a, s) = \<lparr>path_len = strlen s, path_str = a\<rparr>"

fun path_cell :: "addr \<times> string \<Rightarrow> fw_cell" where
  "path_cell (a, s) = (a, Str s)"

fun path_fits :: "addr \<times> string \<Rightarrow> bool" where
  "path_fits (a, s) \<longleftrightarrow> length s \<le> 4096"

lemma path_free_zero: "fw_path_free w zero_path = Ret (w, zero_path)"
  by (simp add: fw_path_free_def zero_path_def jfs_fio_path_free_def free_str_def with_strs_id)

lemma path_free_cell:
  assumes "heap_is (mem w) (add_mset (path_cell g) M)"
  shows "fw_path_free w (path_of g) = Ret (w\<lparr>mem := (mem w)(fst g := None)\<rparr>, zero_path)" "heap_is ((mem w)(fst g := None)) M"
proof -
  obtain a s where g: "g = (a, s)" by (cases g)
  have c: "heap_is (mem w) (add_mset (a, Str s) M)" using assms g by simp
  have "strs (mem w) a = Some s" "mem w a = Some (Str s)" "a \<noteq> NULL" using heap_is_cell[OF c] strs_Str by auto
  thus "fw_path_free w (path_of g) = Ret (w\<lparr>mem := (mem w)(fst g := None)\<rparr>, zero_path)"
    by (auto simp: g fw_path_free_def jfs_fio_path_free_def free_str_def zero_path_def with_strs_delete)
  show "heap_is ((mem w)(fst g := None)) M" using heap_is_delete[OF c] g by simp
qed

lemma path_init_cells:
  assumes "os_ok os" "heap_is (mem w) M" "length s < 2 ^ 63" "fw_path_init os w p s JCL_OK = (w', p', err')"
  shows "open_dirs w' = open_dirs w
    \<and> (err' = JCL_OK \<and> length (trim_slash s) \<le> 4096 \<and> (\<exists>a. p' = path_of (a, trim_slash s) \<and> heap_is (mem w') (add_mset (a, Str (trim_slash s)) M))
       \<or> err' = (if length (trim_slash s) > 4096 then JCL_ERR_FIO_PATH_LEN else JCL_ERR_SYS) \<and> mem w' = mem w \<and> p' = p)"
proof -
  define a where "a = os_malloc os w (strlen (trim_slash s) + 1)"
  have "a = NULL \<or> mem w a = None" using os_mallocD[OF assms(1), of w] unfolding a_def by metis
  thus ?thesis using assms(2,4) path_init_cases[OF assms(3), of a "strs (mem w)" p] heap_is_insert[of "mem w" M a]
    by (auto simp: fw_path_init_def a_def[symmetric] with_strs_id with_strs_insert split: if_splits)
qed

lemma name_init_cells:
  assumes "os_ok os" "heap_is (mem w) M" "length s < 2 ^ 63" "fw_name_init os w n s JCL_OK = (w', n', err')"
  shows "open_dirs w' = open_dirs w
    \<and> (err' = JCL_OK \<and> length s \<le> 255 \<and> (\<exists>a. n' = \<lparr>name_len = strlen s, name_str = a\<rparr> \<and> heap_is (mem w') (add_mset (a, Str s) M))
       \<or> err' = (if length s > 255 then JCL_ERR_FIO_NAME_LEN else JCL_ERR_SYS) \<and> mem w' = mem w \<and> n' = n)"
proof -
  define a where "a = os_malloc os w (strlen s + 1)"
  have "a = NULL \<or> mem w a = None" using os_mallocD[OF assms(1), of w] unfolding a_def by metis
  thus ?thesis using assms(2,4) name_init_cases[OF assms(3), of a "strs (mem w)" n] heap_is_insert[of "mem w" M a]
    by (auto simp: fw_name_init_def a_def[symmetric] with_strs_id with_strs_insert split: if_splits)
qed

end
