(* ===== verification/Fw_Vector.thy ===== *)
theory Fw_Vector
  imports Fw_Heap
begin

text \<open>
  The three growing arrays of \<open>file_walk.c\<close> have the same operations on different element types.  The locales
  state what they share: \<open>fw_array\<close> the access to one kind of blocks, \<open>fw_elems\<close> the loop that frees the elements
  of an array, \<open>fw_vector\<close> the vector with \<open>init\<close>, \<open>free\<close> and \<open>push\<close>, \<open>fw_array_vector\<close> also \<open>to_array\<close>.  They are
  interpreted for the vectors of paths, of files and of directories.  An element is described by a ghost
  value \<open>g\<close>: \<open>of' g\<close> is the element, \<open>cells g\<close> the blocks it owns.
\<close>

section \<open>Blocks\<close>

text \<open>A block of capacity \<open>cap\<close> whose first elements are \<open>xs\<close>.\<close>

definition blk_ok :: "size_t \<Rightarrow> size_t \<Rightarrow> 'a list \<Rightarrow> 'a option list \<Rightarrow> bool" where
  "blk_ok esz cap xs blk \<longleftrightarrow> length blk = unat cap \<and> length xs \<le> unat cap \<and> take (length xs) blk = map Some xs
     \<and> 0 < unat cap \<and> unat cap * unat esz < 2 ^ 63"

lemma blk_ok_nth: "blk_ok esz cap xs blk \<Longrightarrow> i < length xs \<Longrightarrow> i < length blk \<and> blk ! i = Some (xs ! i)"
  unfolding blk_ok_def by (metis length_map nth_map nth_take order_less_le_trans)

lemma blk_ok_count: "blk_ok esz cap xs blk \<Longrightarrow> unat (of_nat (length xs) :: size_t) = length xs"
  using unat_lt64[of cap] by (intro unat_of_nat_64) (auto simp: blk_ok_def)

lemma blk_ok_push:
  assumes "blk_ok esz cap xs blk" "length xs < unat cap"
  shows "blk_ok esz cap (xs @ [x]) (blk[length xs := Some x])" "length xs < length blk"
  using assms by (auto simp: blk_ok_def take_Suc_conv_app_nth)

lemma blk_ok_full: "blk_ok esz cap xs blk \<Longrightarrow> cap \<le> of_nat (length xs) \<longleftrightarrow> length xs = unat cap"
  using blk_ok_count[of esz cap xs blk] by (auto simp: word_le_nat_alt blk_ok_def)

text \<open>No overflow when the capacity is doubled, because the block that is there has at most \<open>PTRDIFF_MAX\<close> bytes.\<close>

lemma double_size:
  fixes cap esz :: size_t
  assumes "unat cap * unat esz < 2 ^ 63" "esz \<noteq> 0"
  shows "unat (cap * 2) = 2 * unat cap" "unat (esz * (cap * 2)) = unat esz * (2 * unat cap)"
proof -
  have e: "1 \<le> unat esz" using assms(2) by (simp add: Suc_le_eq unat_gt_0)
  have "unat cap * 1 \<le> unat cap * unat esz" using e by (rule mult_le_mono2)
  hence "unat cap < 2 ^ 63" using assms(1) unfolding mult_1_right by (rule order_le_less_trans)
  hence c: "unat cap * unat (2 :: size_t) < 2 ^ LENGTH(64)" by simp
  show k: "unat (cap * 2) = 2 * unat cap" unfolding unat_mult_lem[THEN iffD1, OF c] by simp
  have "unat esz * (2 * unat cap) = 2 * (unat cap * unat esz)" by (simp only: ac_simps)
  also have "\<dots> < 2 ^ LENGTH(64)" using assms(1) by simp
  finally have m: "unat esz * unat (cap * 2) < 2 ^ LENGTH(64)" unfolding k .
  show "unat (esz * (cap * 2)) = unat esz * (2 * unat cap)" unfolding unat_mult_lem[THEN iffD1, OF m] k ..
qed

lemma blk_ok_grow:
  assumes "blk_ok esz cap xs blk" "esz \<noteq> 0" "unat (esz * (cap * 2)) < 2 ^ 63"
  shows "blk_ok esz (cap * 2) xs (resize (unat (esz * (cap * 2)) div unat esz) blk)" "length xs < unat (cap * 2)"
proof -
  have c: "unat cap * unat esz < 2 ^ 63" using assms(1) by (simp add: blk_ok_def)
  note d = double_size[OF c assms(2)]
  have n: "unat (esz * (cap * 2)) div unat esz = 2 * unat cap" using assms(2) d(2) by (simp add: unat_eq_zero)
  show "length xs < unat (cap * 2)" using assms(1) d(1) by (simp add: blk_ok_def)
  show "blk_ok esz (cap * 2) xs (resize (unat (esz * (cap * 2)) div unat esz) blk)"
    unfolding n using assms(1,3) d by (auto simp: blk_ok_def resize_def algebra_simps)
qed

section \<open>The locales\<close>

locale fw_array =
  fixes con :: "'a option list \<Rightarrow> fw_obj" and des :: "fw_obj \<Rightarrow> 'a option list option"
  assumes des_con: "des (con xs) = Some xs"
begin

lemma load_ok:
  assumes "heap_is (mem w) (add_mset (a, con blk) M)" "i < length blk" "blk ! i = Some x"
  shows "load_elem des w a i = Ret x"
  using heap_is_cell[OF assms(1)] assms(2,3) by (simp add: load_elem_def des_con)

lemma store_ok:
  assumes "heap_is (mem w) (add_mset (a, con blk) M)" "i < length blk"
  shows "store_elem con des w a i x = Ret (put w a (con (blk[i := Some x])))"
    "heap_is (mem (put w a (con (blk[i := Some x])))) (add_mset (a, con (blk[i := Some x])) M)"
  using heap_is_cell[OF assms(1)] assms(2) heap_is_update[OF assms(1)] by (simp_all add: store_elem_def des_con)

end

locale fw_elems = fw_array con des for con :: "'a option list \<Rightarrow> fw_obj" and des +
  fixes of' :: "'g \<Rightarrow> 'a" and cells :: "'g \<Rightarrow> fw_cell multiset" and good :: "'g \<Rightarrow> bool"
    and efree :: "fw_world \<Rightarrow> 'a \<Rightarrow> (fw_world \<times> 'a) run" and zero :: 'a
    and loop :: "nat \<Rightarrow> fw_world \<Rightarrow> addr \<Rightarrow> nat \<Rightarrow> fw_world run"
  assumes loop_0: "loop 0 w a i = Ret w"
    and loop_Suc: "loop (Suc k) w a i =
      run_bind (load_elem des w a i) (\<lambda>x. run_bind (efree w x) (\<lambda>(w, x).
      run_bind (store_elem con des w a i x) (\<lambda>w. loop k w a (i + 1))))"
    and efree_ok: "heap_is (mem w) (cells g + M) \<Longrightarrow> good g \<Longrightarrow>
      \<exists>w'. efree w (of' g) = Ret (w', zero) \<and> heap_is (mem w') M \<and> open_dirs w' = open_dirs w"
begin

lemma loop_ok:
  assumes "heap_is (mem w) (add_mset (a, con blk) (sum_list (map cells gs) + M))" "\<forall>g \<in> set gs. good g"
    and "i + length gs \<le> length blk" "\<forall>j < length gs. blk ! (i + j) = Some (of' (gs ! j))"
  shows "\<exists>w' blk'. loop (length gs) w a i = Ret w' \<and> heap_is (mem w') (add_mset (a, con blk') M) \<and> open_dirs w' = open_dirs w"
  using assms
proof (induction gs arbitrary: w i blk)
  case (Cons g gs)
  let ?R = "sum_list (map cells gs) + M"
  have h: "heap_is (mem w) (add_mset (a, con blk) (cells g + ?R))" using Cons.prems(1) by (simp add: ac_simps)
  have b: "i < length blk" "blk ! i = Some (of' g)" using Cons.prems(3,4) by (auto dest: spec[of _ 0])
  have "heap_is (mem w) (cells g + add_mset (a, con blk) ?R)" using h by simp
  then obtain w1 where w1: "efree w (of' g) = Ret (w1, zero)" "heap_is (mem w1) (add_mset (a, con blk) ?R)"
    "open_dirs w1 = open_dirs w" using efree_ok Cons.prems(2) by fastforce
  let ?w2 = "put w1 a (con (blk[i := Some zero]))"
  note s = store_ok[OF w1(2) b(1), of zero]
  have "\<forall>j < length gs. blk[i := Some zero] ! (Suc i + j) = Some (of' (gs ! j))"
    using Cons.prems(4) by (auto dest: spec[of _ "Suc _"])
  then obtain w' blk' where "loop (length gs) ?w2 a (Suc i) = Ret w'" "heap_is (mem w') (add_mset (a, con blk') M)"
    "open_dirs w' = open_dirs ?w2" using Cons.IH[OF s(2), of "Suc i"] Cons.prems(2,3) by auto
  thus ?case using load_ok[OF h b] w1 s(1) by (simp add: loop_Suc) blast
qed (auto simp: loop_0)

end

locale fw_vector = fw_elems con des of' cells good efree zero loop
  for con :: "'a option list \<Rightarrow> fw_obj" and des and of' :: "'g \<Rightarrow> 'a" and cells good efree zero loop +
  fixes esz :: size_t and mk :: "size_t \<Rightarrow> size_t \<Rightarrow> addr \<Rightarrow> 'v" and vec_is :: "'v \<Rightarrow> 'g list \<Rightarrow> fw_cell multiset \<Rightarrow> bool"
    and init :: "fw_os \<Rightarrow> fw_world \<Rightarrow> 'v \<Rightarrow> jcl_err \<Rightarrow> fw_world \<times> 'v \<times> jcl_err"
    and vfree :: "fw_world \<Rightarrow> 'v \<Rightarrow> (fw_world \<times> 'v) run"
    and push :: "fw_os \<Rightarrow> fw_world \<Rightarrow> 'v \<Rightarrow> 'a \<Rightarrow> jcl_err \<Rightarrow> (fw_world \<times> 'v \<times> 'a \<times> jcl_err) run"
  assumes esz: "esz \<noteq> 0" "unat esz \<le> 32"
    and vec_is_iff: "vec_is v gs N \<longleftrightarrow> (\<forall>g \<in> set gs. good g) \<and> (\<exists>k p blk. v = mk (of_nat (length gs)) k p
      \<and> blk_ok esz k (map of' gs) blk \<and> N = add_mset (p, con blk) (sum_list (map cells gs)))"
    and init_eq: "init os w v JCL_OK = (case malloc_obj os w (esz * 16) (con (replicate 16 None)) JCL_OK of (w, p, err) \<Rightarrow>
      if err \<noteq> JCL_OK then (w, v, err) else (w, mk 0 16 p, err))"
    and vfree_eq: "vfree w (mk c k p) = run_bind (if p \<noteq> NULL then run_bind (loop (unat c) w p 0) (\<lambda>w. free_obj w p) else Ret w)
      (\<lambda>w. Ret (w, mk 0 0 NULL))"
    and push_eq: "push os w (mk c k p) x JCL_OK =
      run_bind (if k \<le> c then run_bind (realloc_obj con des esz os w p (esz * (k * 2)) JCL_OK) (\<lambda>(w, q, err). Ret (w, k * 2, q, err))
                else Ret (w, k, p, JCL_OK))
        (\<lambda>(w, k', q, err). if err \<noteq> JCL_OK then Ret (w, mk c k p, x, err)
           else run_bind (store_elem con des w q (unat c) x) (\<lambda>w. Ret (w, mk (c + 1) k' q, zero, JCL_OK)))"
begin

lemma init_ok:
  assumes "os_ok os" "heap_is (mem w) M" "init os w v JCL_OK = (w', v', err')"
  shows "open_dirs w' = open_dirs w \<and> (err' = JCL_OK \<and> (\<exists>N. vec_is v' [] N \<and> heap_is (mem w') (N + M))
     \<or> err' = JCL_ERR_SYS \<and> mem w' = mem w \<and> v' = v)"
proof -
  obtain w1 p e where m: "malloc_obj os w (esz * 16) (con (replicate 16 None)) JCL_OK = (w1, p, e)" by (metis prod_cases3)
  have "blk_ok esz 16 [] (replicate 16 None :: 'a option list)" using esz by (simp add: blk_ok_def)
  hence "vec_is (mk 0 16 p) [] (add_mset (p, con (replicate 16 None)) {#})" unfolding vec_is_iff by auto
  moreover have "(w', v', err') = (if e \<noteq> JCL_OK then (w1, v, e) else (w1, mk 0 16 p, e))"
    using assms(3) m by (simp add: init_eq)
  ultimately show ?thesis using malloc_obj_cases[OF assms(1,2) m] by (cases "e = JCL_OK") (force, simp)
qed

lemma vfree_ok:
  assumes "vec_is v gs N" "heap_is (mem w) (N + M)"
  shows "\<exists>w'. vfree w v = Ret (w', mk 0 0 NULL) \<and> heap_is (mem w') M \<and> open_dirs w' = open_dirs w"
proof -
  obtain k p blk where v: "v = mk (of_nat (length gs)) k p" "blk_ok esz k (map of' gs) blk"
    "N = add_mset (p, con blk) (sum_list (map cells gs))" "\<forall>g \<in> set gs. good g"
    using assms(1) unfolding vec_is_iff by blast
  have h: "heap_is (mem w) (add_mset (p, con blk) (sum_list (map cells gs) + M))" using assms(2) v(3) by simp
  have "\<forall>j < length gs. blk ! (0 + j) = Some (of' (gs ! j))" "0 + length gs \<le> length blk"
    using blk_ok_nth[OF v(2)] v(2) by (auto simp: blk_ok_def)
  then obtain w1 blk1 where w1: "loop (length gs) w p 0 = Ret w1" "heap_is (mem w1) (add_mset (p, con blk1) M)"
    "open_dirs w1 = open_dirs w" using loop_ok[OF h v(4)] by blast
  thus ?thesis using free_obj_cell[OF w1(2)] heap_is_cell[OF w1(2)] blk_ok_count[OF v(2)]
    by (simp add: v(1) vfree_eq)
qed

lemma vfree_null: "vfree w (mk 0 0 NULL) = Ret (w, mk 0 0 NULL)"
  by (simp add: vfree_eq)

lemma push_ok:
  assumes "os_ok os" "vec_is v gs N" "good g" "heap_is (mem w) (N + cells g + M)"
  shows "\<exists>w' v' x' err'. push os w v (of' g) JCL_OK = Ret (w', v', x', err') \<and> open_dirs w' = open_dirs w
    \<and> (err' = JCL_OK \<and> x' = zero \<and> (\<exists>N'. vec_is v' (gs @ [g]) N' \<and> heap_is (mem w') (N' + M))
       \<or> err' = JCL_ERR_SYS \<and> x' = of' g \<and> v' = v \<and> mem w' = mem w)"
proof -
  obtain k p blk where v: "v = mk (of_nat (length gs)) k p" "blk_ok esz k (map of' gs) blk"
    "N = add_mset (p, con blk) (sum_list (map cells gs))" "\<forall>g \<in> set gs. good g"
    using assms(2) unfolding vec_is_iff by blast
  let ?R = "sum_list (map cells gs) + cells g + M"
  have h: "heap_is (mem w) (add_mset (p, con blk) ?R)" using assms(4) v(3) by (simp add: ac_simps)
  have cnt: "unat (of_nat (length gs) :: size_t) = length gs" using blk_ok_count[OF v(2)] by simp
  have stored: "\<exists>w' N'. run_bind (store_elem con des w1 q (length gs) (of' g)) (\<lambda>w. Ret (w, mk (of_nat (length gs) + 1) k' q, zero, JCL_OK))
      = Ret (w', mk (of_nat (length gs) + 1) k' q, zero, JCL_OK) \<and> open_dirs w' = open_dirs w1
      \<and> vec_is (mk (of_nat (length gs) + 1) k' q) (gs @ [g]) N' \<and> heap_is (mem w') (N' + M)"
    if "heap_is (mem w1) (add_mset (q, con blk1) ?R)" "blk_ok esz k' (map of' gs) blk1" "length gs < unat k'" for w1 q blk1 k'
  proof -
    note b = blk_ok_push(1)[OF that(2), simplified, OF that(3), of "of' g"] blk_ok_push(2)[OF that(2), simplified, OF that(3)]
    note s = store_ok[OF that(1) b(2), of "of' g"]
    have "vec_is (mk (of_nat (length gs) + 1) k' q) (gs @ [g])
        (add_mset (q, con (blk1[length gs := Some (of' g)])) (sum_list (map cells (gs @ [g]))))"
      unfolding vec_is_iff using b(1) v(4) assms(3) by (auto simp: add.commute)
    moreover have "heap_is (mem (put w1 q (con (blk1[length gs := Some (of' g)]))))
        (add_mset (q, con (blk1[length gs := Some (of' g)])) (sum_list (map cells (gs @ [g]))) + M)"
      using s(2) by (simp add: ac_simps)
    ultimately show ?thesis using s(1)
      by (intro exI[of _ "put w1 q (con (blk1[length gs := Some (of' g)]))"]
          exI[of _ "add_mset (q, con (blk1[length gs := Some (of' g)])) (sum_list (map cells (gs @ [g])))"]) simp
  qed
  show ?thesis
  proof (cases "k \<le> of_nat (length gs)")
    case True
    obtain w1 q e where r: "realloc_obj con des esz os w p (esz * (k * 2)) JCL_OK = Ret (w1, q, e)" "open_dirs w1 = open_dirs w"
      "e = JCL_OK \<and> heap_is (mem w1) (add_mset (q, con (resize (unat (esz * (k * 2)) div unat esz) blk)) ?R)
         \<and> q \<noteq> NULL \<and> unat (esz * (k * 2)) < 2 ^ 63 \<or> e = JCL_ERR_SYS \<and> mem w1 = mem w \<and> q = NULL"
      using realloc_obj_cases[where con = con and des = des and xs = blk, OF assms(1) h des_con, of esz "esz * (k * 2)"] by blast
    show ?thesis
    proof (cases "e = JCL_OK")
      case ok: True
      note g = blk_ok_grow[OF v(2) esz(1)]
      from ok r(3) have l: "unat (esz * (k * 2)) < 2 ^ 63"
        "heap_is (mem w1) (add_mset (q, con (resize (unat (esz * (k * 2)) div unat esz) blk)) ?R)" by auto
      obtain w' N' where "run_bind (store_elem con des w1 q (length gs) (of' g)) (\<lambda>w. Ret (w, mk (of_nat (length gs) + 1) (k * 2) q, zero, JCL_OK))
        = Ret (w', mk (of_nat (length gs) + 1) (k * 2) q, zero, JCL_OK)" "open_dirs w' = open_dirs w1"
        "vec_is (mk (of_nat (length gs) + 1) (k * 2) q) (gs @ [g]) N'" "heap_is (mem w') (N' + M)"
        using stored[OF l(2) g(1)[OF l(1)]] g(2)[OF l(1)] by auto
      thus ?thesis using ok r(1,2) True cnt by (simp add: v(1) push_eq) blast
    qed (use r True in \<open>auto simp: v(1) push_eq\<close>)
  next
    case False
    hence "length gs < unat k" using cnt by (simp add: word_le_nat_alt)
    from stored[OF h v(2) this] show ?thesis using False cnt by (auto simp: v(1) push_eq)
  qed
qed

end

locale fw_array_vector = fw_vector con des of' cells good efree zero loop esz mk vec_is init vfree push
  for con :: "'a option list \<Rightarrow> fw_obj" and des and of' :: "'g \<Rightarrow> 'a" and cells good efree zero loop esz
    and mk :: "size_t \<Rightarrow> size_t \<Rightarrow> addr \<Rightarrow> 'v" and vec_is init vfree push +
  fixes to_array :: "fw_os \<Rightarrow> fw_world \<Rightarrow> 'v \<Rightarrow> jcl_err \<Rightarrow> (fw_world \<times> addr \<times> 'v \<times> jcl_err) run"
  assumes to_array_eq: "to_array os w (mk c k p) JCL_OK =
      (if c = 0 then Ret (w, NULL, mk c k p, JCL_ERR_EMPTY)
       else run_bind (realloc_obj con des esz os w p (esz * c) JCL_OK)
         (\<lambda>(w, q, err). if err \<noteq> JCL_OK then Ret (w, NULL, mk c k p, err) else Ret (w, q, mk 0 0 NULL, err)))"
begin

lemma to_array_ok:
  assumes "os_ok os" "vec_is v gs N" "heap_is (mem w) (N + M)" "gs \<noteq> []"
  shows "\<exists>w' a v' err'. to_array os w v JCL_OK = Ret (w', a, v', err') \<and> open_dirs w' = open_dirs w
    \<and> (err' = JCL_OK \<and> v' = mk 0 0 NULL \<and> a \<noteq> NULL \<and> heap_is (mem w') (add_mset (a, con (map (\<lambda>g. Some (of' g)) gs)) (sum_list (map cells gs) + M))
       \<or> err' = JCL_ERR_SYS \<and> a = NULL \<and> v' = v \<and> mem w' = mem w)"
proof -
  obtain k p blk where v: "v = mk (of_nat (length gs)) k p" "blk_ok esz k (map of' gs) blk"
    "N = add_mset (p, con blk) (sum_list (map cells gs))"
    using assms(2) unfolding vec_is_iff by blast
  have h: "heap_is (mem w) (add_mset (p, con blk) (sum_list (map cells gs) + M))" using assms(3) v(3) by simp
  have cnt: "unat (of_nat (length gs) :: size_t) = length gs" using blk_ok_count[OF v(2)] by simp
  have le: "length gs \<le> unat k" "unat k * unat esz < 2 ^ 63" using v(2) by (simp_all add: blk_ok_def)
  have "unat esz * length gs \<le> unat esz * unat k" using le(1) by (rule mult_le_mono2)
  also have "\<dots> < 2 ^ 63" using le(2) by (simp only: mult.commute)
  finally have "unat esz * unat (of_nat (length gs) :: size_t) < 2 ^ LENGTH(64)" unfolding cnt by simp
  hence "unat (esz * of_nat (length gs)) = unat esz * length gs" using unat_mult_lem[of esz "of_nat (length gs)"] cnt by simp
  hence n: "unat (esz * of_nat (length gs)) div unat esz = length gs" using esz(1) by (simp add: unat_eq_zero)
  have nz: "(of_nat (length gs) :: size_t) \<noteq> 0" using cnt assms(4) by auto
  have "resize (length gs) blk = map (\<lambda>g. Some (of' g)) gs" using v(2) by (simp add: blk_ok_def resize_def comp_def)
  thus ?thesis using realloc_obj_cases[where con = con and des = des and xs = blk, OF assms(1) h des_con, of esz "esz * of_nat (length gs)"] nz n
    by (auto simp: v(1) to_array_eq)
qed

lemma to_array_empty: "vec_is v [] N \<Longrightarrow> to_array os w v JCL_OK = Ret (w, NULL, v, JCL_ERR_EMPTY)"
  by (auto simp: vec_is_iff to_array_eq)

end

end
