(* ===== verification/Fw_Rep.thy ===== *)
theory Fw_Rep
  imports Fw_Vector
begin

text \<open>
  What the structs of the walker represent.  A path is given by the address of its string and the string; a
  file of a directory by the address of its name, the name, the type and the inode; a directory by its path,
  the address of its array of files and the files.  The locales of \<open>Fw_Vector\<close> are interpreted for the three
  vectors here, and the operations on one directory entry, on the pending paths and on the directory record
  are specified.
\<close>

section \<open>Representation\<close>

type_synonym gpath = "addr \<times> string"
type_synonym entry = "string \<times> jfs_fw_types \<times> ino_t"
type_synonym gfile = "addr \<times> entry"
type_synonym gdir = "gpath \<times> addr \<times> gfile list"

abbreviation path_cells :: "gpath \<Rightarrow> fw_cell multiset" where
  "path_cells g \<equiv> {#path_cell g#}"

fun file_of :: "gfile \<Rightarrow> jfs_fw_file" where
  "file_of (a, n, t, i) = \<lparr>file_type = t, file_name = \<lparr>name_len = strlen n, name_str = a\<rparr>, file_inode = i\<rparr>"

fun file_cells :: "gfile \<Rightarrow> fw_cell multiset" where
  "file_cells (a, n, t, i) = {#(a, Str n)#}"

fun file_fits :: "gfile \<Rightarrow> bool" where
  "file_fits (a, n, t, i) \<longleftrightarrow> length n \<le> 255"

fun dir_of :: "gdir \<Rightarrow> jfs_fw_dir" where
  "dir_of (p, a, fs) = \<lparr>dir_path = path_of p, dir_files = (if fs = [] then NULL else a), dir_file_count = of_nat (length fs)\<rparr>"

fun dir_cells :: "gdir \<Rightarrow> fw_cell multiset" where
  "dir_cells (p, a, fs) = add_mset (path_cell p)
     (if fs = [] then {#} else add_mset (a, Files (map (\<lambda>f. Some (file_of f)) fs)) (sum_list (map file_cells fs)))"

fun dir_fits :: "gdir \<Rightarrow> bool" where
  "dir_fits (p, a, fs) \<longleftrightarrow> path_fits p \<and> (\<forall>f \<in> set fs. file_fits f) \<and> length fs < 2 ^ 64"

definition path_vec_is :: "fw_path_vector \<Rightarrow> gpath list \<Rightarrow> fw_cell multiset \<Rightarrow> bool" where
  "path_vec_is v gs N \<longleftrightarrow> (\<forall>g \<in> set gs. path_fits g)
     \<and> (\<exists>k p blk. v = \<lparr>pv_count = of_nat (length gs), pv_capacity = k, path_array = p\<rparr>
          \<and> blk_ok sizeof_path k (map path_of gs) blk \<and> N = add_mset (p, Paths blk) (sum_list (map path_cells gs)))"

definition file_vec_is :: "fw_file_vector \<Rightarrow> gfile list \<Rightarrow> fw_cell multiset \<Rightarrow> bool" where
  "file_vec_is v gs N \<longleftrightarrow> (\<forall>g \<in> set gs. file_fits g)
     \<and> (\<exists>k p blk. v = \<lparr>fv_count = of_nat (length gs), fv_capacity = k, file_array = p\<rparr>
          \<and> blk_ok sizeof_file k (map file_of gs) blk \<and> N = add_mset (p, Files blk) (sum_list (map file_cells gs)))"

definition dir_vec_is :: "fw_dir_vector \<Rightarrow> gdir list \<Rightarrow> fw_cell multiset \<Rightarrow> bool" where
  "dir_vec_is v gs N \<longleftrightarrow> (\<forall>g \<in> set gs. dir_fits g)
     \<and> (\<exists>k p blk. v = \<lparr>dv_count = of_nat (length gs), dv_capacity = k, dir_array = p\<rparr>
          \<and> blk_ok sizeof_dir k (map dir_of gs) blk \<and> N = add_mset (p, Dirs blk) (sum_list (map dir_cells gs)))"

section \<open>Freeing elements\<close>

lemma path_free_ok:
  "heap_is (mem w) (path_cells g + M) \<Longrightarrow>
   \<exists>w'. fw_path_free w (path_of g) = Ret (w', zero_path) \<and> heap_is (mem w') M \<and> open_dirs w' = open_dirs w"
  using path_free_cell[of w g M] by auto

lemma name_free_cell:
  assumes "heap_is (mem w) (add_mset (a, Str s) M)"
  shows "fw_name_free w \<lparr>name_len = l, name_str = a\<rparr> = Ret (w\<lparr>mem := (mem w)(a := None)\<rparr>, zero_name)"
proof -
  have "strs (mem w) a = Some s" "mem w a = Some (Str s)" "a \<noteq> NULL" using heap_is_cell[OF assms] strs_Str by auto
  thus ?thesis by (auto simp: fw_name_free_def jfs_fio_name_free_def free_str_def zero_name_def with_strs_delete)
qed

lemma file_free_ok:
  assumes "heap_is (mem w) (file_cells g + M)"
  shows "\<exists>w'. jfs_fw_file_free w (file_of g) = Ret (w', zero_file) \<and> heap_is (mem w') M \<and> open_dirs w' = open_dirs w"
proof -
  obtain a n t i where g: "g = (a, n, t, i)" by (cases g) auto
  have h: "heap_is (mem w) (add_mset (a, Str n) M)" using assms g by simp
  show ?thesis using name_free_cell[OF h] heap_is_delete[OF h] by (simp add: g jfs_fw_file_free_def)
qed

lemma file_free_zero: "jfs_fw_file_free w zero_file = Ret (w, zero_file)"
  by (simp add: jfs_fw_file_free_def zero_file_def zero_name_def fw_name_free_def jfs_fio_name_free_def free_str_def with_strs_id)

section \<open>The vectors\<close>

interpretation pvec: fw_vector Paths the_paths path_of path_cells path_fits fw_path_free zero_path free_paths
    sizeof_path "\<lambda>c k p. \<lparr>pv_count = c, pv_capacity = k, path_array = p\<rparr>" path_vec_is
    fw_path_vector_init fw_path_vector_free fw_path_vector_push
proof unfold_locales
  show "sizeof_path \<noteq> 0" "unat sizeof_path \<le> 32" by (simp_all add: sizeof_path_def)
  show "fw_path_vector_push os w \<lparr>pv_count = c, pv_capacity = k, path_array = p\<rparr> x JCL_OK =
      run_bind (if k \<le> c then run_bind (realloc_obj Paths the_paths sizeof_path os w p (sizeof_path * (k * 2)) JCL_OK)
                  (\<lambda>(w, q, err). Ret (w, k * 2, q, err))
                else Ret (w, k, p, JCL_OK))
        (\<lambda>(w, k', q, err). if err \<noteq> JCL_OK then Ret (w, \<lparr>pv_count = c, pv_capacity = k, path_array = p\<rparr>, x, err)
           else run_bind (store_elem Paths the_paths w q (unat c) x)
             (\<lambda>w. Ret (w, \<lparr>pv_count = c + 1, pv_capacity = k', path_array = q\<rparr>, zero_path, JCL_OK)))" for os w c k p x
    by (auto simp: fw_path_vector_push_def Let_def run_simps jfs_fio_path_transfer_def zero_path_def
        intro!: run_bind_cong split: prod.splits)
qed (auto simp: path_free_ok path_vec_is_def fw_path_vector_init_def fw_path_vector_free_def FW_PATH_VECTOR_DEFAULT_CAPACITY_def
    zero_path_vec_def split: prod.splits)

interpretation fvec: fw_array_vector Files the_files file_of file_cells file_fits jfs_fw_file_free zero_file free_files
    sizeof_file "\<lambda>c k p. \<lparr>fv_count = c, fv_capacity = k, file_array = p\<rparr>" file_vec_is
    fw_file_vector_init fw_file_vector_free fw_file_vector_push fw_file_vector_to_array
proof unfold_locales
  show "sizeof_file \<noteq> 0" "unat sizeof_file \<le> 32" by (simp_all add: sizeof_file_def)
  show "fw_file_vector_push os w \<lparr>fv_count = c, fv_capacity = k, file_array = p\<rparr> x JCL_OK =
      run_bind (if k \<le> c then run_bind (realloc_obj Files the_files sizeof_file os w p (sizeof_file * (k * 2)) JCL_OK)
                  (\<lambda>(w, q, err). Ret (w, k * 2, q, err))
                else Ret (w, k, p, JCL_OK))
        (\<lambda>(w, k', q, err). if err \<noteq> JCL_OK then Ret (w, \<lparr>fv_count = c, fv_capacity = k, file_array = p\<rparr>, x, err)
           else run_bind (store_elem Files the_files w q (unat c) x)
             (\<lambda>w. Ret (w, \<lparr>fv_count = c + 1, fv_capacity = k', file_array = q\<rparr>, zero_file, JCL_OK)))" for os w c k p x
    by (auto simp: fw_file_vector_push_def Let_def run_simps jfs_fw_file_transfer_def
        intro!: run_bind_cong split: prod.splits)
qed (auto simp: file_free_ok file_vec_is_def fw_file_vector_init_def fw_file_vector_free_def FW_FILE_VECTOR_DEFAULT_CAPACITY_def
    fw_file_vector_to_array_def zero_file_vec_def split: prod.splits intro!: run_bind_cong)

lemma dir_free_ok:
  assumes "heap_is (mem w) (dir_cells g + M)" "dir_fits g"
  shows "\<exists>w'. jfs_fw_dir_free w (dir_of g) = Ret (w', zero_dir) \<and> heap_is (mem w') M \<and> open_dirs w' = open_dirs w"
proof -
  obtain p a fs where g: "g = (p, a, fs)" by (cases g)
  show ?thesis
  proof (cases "fs = []")
    case True
    have "heap_is (mem w) (path_cells p + M)" using assms(1) by (simp add: g True)
    from path_free_ok[OF this] show ?thesis by (auto simp: g True jfs_fw_dir_free_def)
  next
    case False
    let ?blk = "map (\<lambda>f. Some (file_of f)) fs"
    have h: "heap_is (mem w) (add_mset (a, Files ?blk) (sum_list (map file_cells fs) + (path_cells p + M)))"
      using assms(1) False by (simp add: g ac_simps add_mset_commute)
    have "\<forall>f \<in> set fs. file_fits f" "unat (of_nat (length fs) :: size_t) = length fs"
      using assms(2) unat_of_nat_64[of "length fs"] by (simp_all add: g)
    moreover obtain w1 blk1 where w1: "free_files (length fs) w a 0 = Ret w1" "open_dirs w1 = open_dirs w"
      "heap_is (mem w1) (add_mset (a, Files blk1) (path_cells p + M))"
      using fvec.loop_ok[OF h, of 0] calculation(1) by auto
    moreover note f = free_obj_cell[OF w1(3)]
    moreover obtain w2 where "fw_path_free (w1\<lparr>mem := (mem w1)(a := None)\<rparr>) (path_of p) = Ret (w2, zero_path)" "heap_is (mem w2) M"
      "open_dirs w2 = open_dirs w1"
      using path_free_ok[of "w1\<lparr>mem := (mem w1)(a := None)\<rparr>" p M] f(2) by auto
    ultimately show ?thesis using False heap_is_cell[OF w1(3)] by (simp add: g jfs_fw_dir_free_def)
  qed
qed

lemma dir_free_zero: "jfs_fw_dir_free w zero_dir = Ret (w, zero_dir)"
  using path_free_zero[of w] by (simp add: jfs_fw_dir_free_def zero_dir_def)

interpretation dvec: fw_array_vector Dirs the_dirs dir_of dir_cells dir_fits jfs_fw_dir_free zero_dir free_dirs
    sizeof_dir "\<lambda>c k p. \<lparr>dv_count = c, dv_capacity = k, dir_array = p\<rparr>" dir_vec_is
    fw_dir_vector_init fw_dir_vector_free fw_dir_vector_push fw_dir_vector_to_array
proof unfold_locales
  show "sizeof_dir \<noteq> 0" "unat sizeof_dir \<le> 32" by (simp_all add: sizeof_dir_def)
  show "fw_dir_vector_push os w \<lparr>dv_count = c, dv_capacity = k, dir_array = p\<rparr> x JCL_OK =
      run_bind (if k \<le> c then run_bind (realloc_obj Dirs the_dirs sizeof_dir os w p (sizeof_dir * (k * 2)) JCL_OK)
                  (\<lambda>(w, q, err). Ret (w, k * 2, q, err))
                else Ret (w, k, p, JCL_OK))
        (\<lambda>(w, k', q, err). if err \<noteq> JCL_OK then Ret (w, \<lparr>dv_count = c, dv_capacity = k, dir_array = p\<rparr>, x, err)
           else run_bind (store_elem Dirs the_dirs w q (unat c) x)
             (\<lambda>w. Ret (w, \<lparr>dv_count = c + 1, dv_capacity = k', dir_array = q\<rparr>, zero_dir, JCL_OK)))" for os w c k p x
    by (auto simp: fw_dir_vector_push_def Let_def run_simps jfs_fw_dir_transfer_def
        intro!: run_bind_cong split: prod.splits)
qed (auto simp: dir_free_ok dir_vec_is_def fw_dir_vector_init_def fw_dir_vector_free_def FW_DIR_VECTOR_DEFAULT_CAPACITY_def
    fw_dir_vector_to_array_def zero_dir_vec_def split: prod.splits intro!: run_bind_cong)

lemma zero_vecs:
  "\<lparr>pv_count = 0, pv_capacity = 0, path_array = NULL\<rparr> = zero_path_vec"
  "\<lparr>fv_count = 0, fv_capacity = 0, file_array = NULL\<rparr> = zero_file_vec"
  "\<lparr>dv_count = 0, dv_capacity = 0, dir_array = NULL\<rparr> = zero_dir_vec"
  by (simp_all add: zero_path_vec_def zero_file_vec_def zero_dir_vec_def)

lemmas fvec_free_zero = fvec.vfree_null[unfolded zero_vecs]

lemma vec_counts:
  "path_vec_is v gs N \<Longrightarrow> unat (pv_count v) = length gs"
  "file_vec_is fv fs N \<Longrightarrow> unat (fv_count fv) = length fs"
  "dir_vec_is dv ds N \<Longrightarrow> unat (dv_count dv) = length ds"
  using blk_ok_count by (fastforce simp: path_vec_is_def file_vec_is_def dir_vec_is_def)+

lemma path_pop_ok:
  assumes "path_vec_is v (gs @ [g]) N" "heap_is (mem w) (N + M)"
  shows "\<exists>w' v' N'. fw_path_vector_pop w v p JCL_OK = Ret (w', v', path_of g, JCL_OK) \<and> open_dirs w' = open_dirs w
    \<and> path_vec_is v' gs N' \<and> heap_is (mem w') (N' + (path_cells g + M))"
proof -
  obtain k q blk where v: "v = \<lparr>pv_count = of_nat (length (gs @ [g])), pv_capacity = k, path_array = q\<rparr>"
    "blk_ok sizeof_path k (map path_of (gs @ [g])) blk" "N = add_mset (q, Paths blk) (sum_list (map path_cells (gs @ [g])))"
    "\<forall>g \<in> set (gs @ [g]). path_fits g"
    using assms(1) unfolding path_vec_is_def by blast
  have cnt: "unat (of_nat (length (gs @ [g])) :: size_t) = length (gs @ [g])" using blk_ok_count[OF v(2)] by simp
  have one: "(of_nat (length (gs @ [g])) :: size_t) - 1 = of_nat (length gs)" by simp
  have c1: "unat (of_nat (length gs) :: size_t) = length gs"
    using unat_of_nat_64[of "length gs"] unat_lt64[of "of_nat (length (gs @ [g])) :: size_t"] cnt by simp
  have "unat (pv_count v) = length (gs @ [g])" by (simp only: v(1) fw_path_vector.select_convs cnt)
  hence nz: "pv_count v \<noteq> 0" by (metis length_append_singleton nat.distinct(1) unat_0)
  have h: "heap_is (mem w) (add_mset (q, Paths blk) (sum_list (map path_cells gs) + (path_cells g + M)))"
    using assms(2) v(3) by (simp add: ac_simps)
  have b: "length gs < length blk" "blk ! length gs = Some (path_of g)"
    using blk_ok_nth[OF v(2), of "length gs"] by (simp_all add: nth_append)
  note s = pvec.store_ok[OF h b(1), of zero_path]
  have "blk_ok sizeof_path k (map path_of gs) (blk[length gs := Some zero_path])"
    using v(2) by (auto simp: blk_ok_def take_Suc_conv_app_nth take_map)
  hence "path_vec_is \<lparr>pv_count = of_nat (length gs), pv_capacity = k, path_array = q\<rparr> gs
      (add_mset (q, Paths (blk[length gs := Some zero_path])) (sum_list (map path_cells gs)))"
    using v(4) unfolding path_vec_is_def by auto
  moreover have "v\<lparr>pv_count := pv_count v - 1\<rparr> = \<lparr>pv_count = of_nat (length gs), pv_capacity = k, path_array = q\<rparr>"
    unfolding v(1) using one by simp
  hence "fw_path_vector_pop w v p JCL_OK = Ret (put w q (Paths (blk[length gs := Some zero_path])),
      \<lparr>pv_count = of_nat (length gs), pv_capacity = k, path_array = q\<rparr>, path_of g, JCL_OK)"
    using nz pvec.load_ok[OF h b] s(1) c1 by (simp add: fw_path_vector_pop_def Let_def jfs_fio_path_transfer_def zero_path_def)
  moreover have "heap_is (mem (put w q (Paths (blk[length gs := Some zero_path]))))
      (add_mset (q, Paths (blk[length gs := Some zero_path])) (sum_list (map path_cells gs)) + (path_cells g + M))"
    using s(2) by (simp only: union_mset_add_mset_left)
  ultimately show ?thesis by (metis put_simps(2))
qed

section \<open>One directory entry\<close>

text \<open>What \<open>fw_scan_dir\<close> is to find: the entries apart from \<open>.\<close> and \<open>..\<close> and those of other types, or the first error.\<close>

fun scan_spec :: "dirent list \<Rightarrow> errno \<Rightarrow> jcl_err + entry list" where
  "scan_spec [] e = (if e \<noteq> EOTHER 0 then Inl JCL_ERR_SYS else Inr [])"
| "scan_spec (x # xs) e =
     (if d_name x = ''.'' \<or> d_name x = ''..'' then scan_spec xs e
      else if d_type x = DT_UNKNOWN then Inl JCL_ERR_FW_UNKNOWN
      else if d_type x \<noteq> DT_REG \<and> d_type x \<noteq> DT_DIR then scan_spec xs e
      else if length (d_name x) > 255 then Inl JCL_ERR_FIO_NAME_LEN
      else map_sum id (Cons (d_name x, if d_type x = DT_REG then JFS_FW_REG else JFS_FW_DIR, d_ino x)) (scan_spec xs e))"

lemma scan_spec_error: "scan_spec xs e = Inl er \<Longrightarrow> er \<noteq> JCL_OK"
  by (induction xs e rule: scan_spec.induct) (auto split: if_splits simp: map_sum_def split: sum.splits)

lemma file_init_cells:
  assumes "os_ok os" "heap_is (mem w) M" "length (d_name x) < 2 ^ 63" "d_type x = DT_REG \<or> d_type x = DT_DIR"
    "fw_file_init os w zero_file x JCL_OK = (w', f', err')"
  defines "ty \<equiv> (if d_type x = DT_REG then JFS_FW_REG else JFS_FW_DIR)"
  shows "open_dirs w' = open_dirs w
    \<and> (err' = JCL_OK \<and> length (d_name x) \<le> 255
          \<and> (\<exists>a. f' = file_of (a, d_name x, ty, d_ino x) \<and> heap_is (mem w') (file_cells (a, d_name x, ty, d_ino x) + M))
       \<or> err' = (if length (d_name x) > 255 then JCL_ERR_FIO_NAME_LEN else JCL_ERR_SYS) \<and> mem w' = mem w)"
proof -
  obtain w1 nm e where n: "fw_name_init os w zero_name (d_name x) JCL_OK = (w1, nm, e)" by (metis prod_cases3)
  have ty: "fw_map_dirent_type (d_type x) JCL_OK = (ty, JCL_OK)"
    using assms(4) by (auto simp: fw_map_dirent_type_def ty_def DT_DIR_def DT_REG_def)
  have "(w', f', err') = (if e \<noteq> JCL_OK then (w1, zero_file, e)
      else (w1, \<lparr>file_type = ty, file_name = nm, file_inode = d_ino x\<rparr>, e))"
    using assms(5) n ty by (cases "e = JCL_OK") (auto simp: fw_file_init_def jfs_fio_name_transfer_def zero_file_def)
  thus ?thesis using name_init_cells[OF assms(1-3) n] by (auto split: if_splits)
qed

lemma handle_dirent_ok:
  assumes "os_ok os" "file_vec_is v gs N" "heap_is (mem w) (N + M)" "length (d_name x) < 2 ^ 63" "d_type x = DT_REG \<or> d_type x = DT_DIR"
  defines "ty \<equiv> (if d_type x = DT_REG then JFS_FW_REG else JFS_FW_DIR)"
  shows "\<exists>w' v' err' gs' N'. fw_handle_dirent os w x v JCL_OK = Ret (w', v', err') \<and> open_dirs w' = open_dirs w
    \<and> file_vec_is v' gs' N' \<and> heap_is (mem w') (N' + M)
    \<and> (err' = JCL_OK \<and> length (d_name x) \<le> 255 \<and> map snd gs' = map snd gs @ [(d_name x, ty, d_ino x)]
       \<or> err' = (if length (d_name x) > 255 then JCL_ERR_FIO_NAME_LEN else JCL_ERR_SYS))"
proof -
  obtain w1 f e where i: "fw_file_init os w zero_file x JCL_OK = (w1, f, e)" by (metis prod_cases3)
  note c = file_init_cells[OF assms(1,3,4,5) i, folded ty_def]
  show ?thesis
  proof (cases "e = JCL_OK")
    case True
    then obtain a where a: "f = file_of (a, d_name x, ty, d_ino x)" "heap_is (mem w1) (file_cells (a, d_name x, ty, d_ino x) + (N + M))"
      "length (d_name x) \<le> 255" using c by (auto split: if_splits)
    let ?g = "(a, d_name x, ty, d_ino x)"
    have h: "heap_is (mem w1) (N + file_cells ?g + M)" using a(2) by (simp only: ac_simps)
    have fits: "file_fits ?g" using a(3) by simp
    obtain w2 v2 f2 e2 where p: "fw_file_vector_push os w1 v f JCL_OK = Ret (w2, v2, f2, e2)" "open_dirs w2 = open_dirs w1"
      "e2 = JCL_OK \<and> f2 = zero_file \<and> (\<exists>N'. file_vec_is v2 (gs @ [?g]) N' \<and> heap_is (mem w2) (N' + M))
       \<or> e2 = JCL_ERR_SYS \<and> f2 = f \<and> v2 = v \<and> mem w2 = mem w1"
      using fvec.push_ok[OF assms(1,2) fits h] a(1) by blast
    show ?thesis
    proof (cases "e2 = JCL_OK")
      case True
      then obtain N' where "file_vec_is v2 (gs @ [?g]) N'" "heap_is (mem w2) (N' + M)" using p(3) by auto
      moreover have "fw_handle_dirent os w x v JCL_OK = Ret (w2, v2, e2)" using i p(1) True \<open>e = JCL_OK\<close>
        by (simp add: fw_handle_dirent_def)
      ultimately show ?thesis using True p(2) c a(3) by fastforce
    next
      case False
      hence e2: "e2 = JCL_ERR_SYS" "f2 = f" "v2 = v" "mem w2 = mem w1" using p(3) by auto
      have "heap_is (mem w2) (file_cells ?g + (N + M))" using a(2) e2(4) by simp
      from file_free_ok[OF this] obtain w3 where "jfs_fw_file_free w2 f = Ret (w3, zero_file)" "heap_is (mem w3) (N + M)"
        "open_dirs w3 = open_dirs w2" using a(1) by auto
      moreover from this have "fw_handle_dirent os w x v JCL_OK = Ret (w3, v, e2)" using i p(1) \<open>e = JCL_OK\<close> e2
        by (simp add: fw_handle_dirent_def)
      ultimately show ?thesis using e2(1) assms(2) p(2) c a(3) by fastforce
    qed
  next
    case False
    thus ?thesis using i c assms(2,3) by (auto simp: fw_handle_dirent_def)
  qed
qed

section \<open>Scanning a directory\<close>

lemma handle_dirent_type:
  "d_type x = DT_UNKNOWN \<Longrightarrow> fw_handle_dirent os w x v JCL_OK = Ret (w, v, JCL_ERR_FW_UNKNOWN)"
  "d_type x \<noteq> DT_UNKNOWN \<Longrightarrow> d_type x \<noteq> DT_REG \<Longrightarrow> d_type x \<noteq> DT_DIR \<Longrightarrow>
   fw_handle_dirent os w x v JCL_OK = Ret (w, v, JCL_ERR_FW_UNSUPPORTED)"
  by (auto simp: fw_handle_dirent_def fw_file_init_def fw_map_dirent_type_def DT_UNKNOWN_def DT_REG_def DT_DIR_def)

lemma scan_loop_ok:
  assumes "os_ok os" "file_vec_is v gs N" "heap_is (mem w) (N + M)" "\<forall>x \<in> set ents. length (d_name x) < 2 ^ 63"
  shows "\<exists>w' v' err' gs' N'. fw_scan_loop os ents e w v JCL_OK = Ret (w', v', err') \<and> open_dirs w' = open_dirs w
    \<and> file_vec_is v' gs' N' \<and> heap_is (mem w') (N' + M)
    \<and> (err' = JCL_OK \<and> (\<exists>es. scan_spec ents e = Inr es \<and> map snd gs' = map snd gs @ es)
       \<or> err' = JCL_ERR_SYS \<or> scan_spec ents e = Inl err')"
  using assms(2-)
proof (induction ents arbitrary: w v gs N)
  case (Cons x ents)
  have len: "length (d_name x) < 2 ^ 63" "\<forall>x \<in> set ents. length (d_name x) < 2 ^ 63" using Cons.prems(3) by simp_all
  note IH = Cons.IH[OF _ _ len(2)]
  show ?case
  proof (cases "d_name x = ''.'' \<or> d_name x = ''..''")
    case True
    thus ?thesis using IH[OF Cons.prems(1,2)] by simp
  next
    case name: False
    consider (unknown) "d_type x = DT_UNKNOWN" | (other) "d_type x \<noteq> DT_UNKNOWN" "d_type x \<noteq> DT_REG" "d_type x \<noteq> DT_DIR"
      | (entry) "d_type x = DT_REG \<or> d_type x = DT_DIR" "d_type x \<noteq> DT_UNKNOWN" by (auto simp: DT_UNKNOWN_def DT_REG_def DT_DIR_def)
    thus ?thesis
    proof cases
      case unknown
      thus ?thesis using name handle_dirent_type(1)[OF unknown, of os w v] Cons.prems(1,2) by auto
    next
      case other
      thus ?thesis using name handle_dirent_type(2)[OF other, of os w v] IH[OF Cons.prems(1,2)] by auto
    next
      case entry
      let ?ty = "if d_type x = DT_REG then JFS_FW_REG else JFS_FW_DIR"
      obtain w1 v1 e1 gs1 N1 where h: "fw_handle_dirent os w x v JCL_OK = Ret (w1, v1, e1)" "open_dirs w1 = open_dirs w"
        "file_vec_is v1 gs1 N1" "heap_is (mem w1) (N1 + M)"
        "e1 = JCL_OK \<and> length (d_name x) \<le> 255 \<and> map snd gs1 = map snd gs @ [(d_name x, ?ty, d_ino x)]
         \<or> e1 = (if length (d_name x) > 255 then JCL_ERR_FIO_NAME_LEN else JCL_ERR_SYS)"
        using handle_dirent_ok[OF assms(1) Cons.prems(1,2) len(1) entry(1)] by blast
      show ?thesis
      proof (cases "e1 = JCL_OK")
        case True
        obtain w' v' err' gs' N' where r: "fw_scan_loop os ents e w1 v1 JCL_OK = Ret (w', v', err')" "open_dirs w' = open_dirs w1"
          "file_vec_is v' gs' N'" "heap_is (mem w') (N' + M)"
          "err' = JCL_OK \<and> (\<exists>es. scan_spec ents e = Inr es \<and> map snd gs' = map snd gs1 @ es)
           \<or> err' = JCL_ERR_SYS \<or> scan_spec ents e = Inl err'"
          using IH[OF h(3,4)] by blast
        have "fw_scan_loop os (x # ents) e w v JCL_OK = Ret (w', v', err')" using name h(1) True r(1) by simp
        moreover have "err' = JCL_OK \<and> (\<exists>es. scan_spec (x # ents) e = Inr es \<and> map snd gs' = map snd gs @ es)
           \<or> err' = JCL_ERR_SYS \<or> scan_spec (x # ents) e = Inl err'"
          using r(5) h(5) True name entry by (auto split: if_splits)
        ultimately show ?thesis using r(2-4) h(2) by metis
      next
        case False
        hence "fw_scan_loop os (x # ents) e w v JCL_OK = Ret (w1, v1, e1)" using name h(1,5) by auto
        moreover have "e1 = JCL_ERR_SYS \<or> scan_spec (x # ents) e = Inl e1" using h(5) False name entry by auto
        ultimately show ?thesis using h(2-4) by blast
      qed
    qed
  qed
qed auto

end
