(* ===== verification/Fw_Step.thy ===== *)
theory Fw_Step
  imports Fw_Rep "HOL-Library.Sublist"
begin

text \<open>
  One step of the walker.  \<open>walk_step\<close> is the specification: a relation on the pending paths and the recorded
  directories.  The step of the code is shown to follow it, without a fault, to keep every block it does not
  own and to leave no block behind, whatever \<open>malloc\<close>, \<open>realloc\<close> and \<open>opendir\<close> answer.
\<close>

section \<open>Pushing the subdirectories\<close>

definition child :: "string \<Rightarrow> string \<Rightarrow> string" where
  "child s n = trim_slash (s @ ''/'' @ n)"

text \<open>The paths of the subdirectories among the entries; a path that is too long is left out.\<close>

fun children :: "string \<Rightarrow> entry list \<Rightarrow> string list" where
  "children s [] = []"
| "children s ((n, t, i) # es) =
     (if t = JFS_FW_REG \<or> length (s @ ''/'' @ n) > 4096 then children s es else child s n # children s es)"

lemma heap_is_lookup: "heap_is h M \<Longrightarrow> (a, ob) \<in># M \<Longrightarrow> h a = Some ob"
  by (simp add: heap_is_def)

lemma push_loop_ok:
  assumes "os_ok os" "s \<noteq> []" "length s \<le> 4096" "(pa, Str s) \<in># M" "(fa, Files blk) \<in># M"
    and "path_vec_is v gs N" "heap_is (mem w) (N + M)"
    and "\<forall>j < length fs. i + j < length blk \<and> blk ! (i + j) = Some (file_of (fs ! j))"
    and "\<forall>f \<in> set fs. file_fits f \<and> file_cells f \<subseteq># M"
  shows "\<exists>w' v' err' gs' N' xs. fw_push_loop (length fs) os w v fa (path_of (pa, s)) zero_path buf i JCL_OK = Ret (w', v', err')
    \<and> open_dirs w' = open_dirs w \<and> path_vec_is v' gs' N' \<and> heap_is (mem w') (N' + M) \<and> map snd gs' = map snd gs @ xs
    \<and> (err' = JCL_OK \<and> xs = children s (map snd fs) \<or> err' = JCL_ERR_SYS \<and> prefix xs (children s (map snd fs)))"
  using assms(6-)
proof (induction fs arbitrary: w v gs N i buf)
  case (Cons f fs)
  obtain a n t y where f: "f = (a, n, t, y)" by (cases f) auto
  have look: "mem w fa = Some (Files blk)" "mem w pa = Some (Str s)" "mem w a = Some (Str n)"
    using heap_is_lookup[OF Cons.prems(2)] assms(4,5) Cons.prems(4) by (auto simp: f)
  have b: "load_elem the_files w fa i = Ret (file_of f)" using Cons.prems(3) look(1) by (auto simp: load_elem_def dest: spec[of _ 0])
  have rest: "\<forall>j < length fs. Suc i + j < length blk \<and> blk ! (Suc i + j) = Some (file_of (fs ! j))"
    "\<forall>f \<in> set fs. file_fits f \<and> file_cells f \<subseteq># M" using Cons.prems(3,4) by (auto dest: spec[of _ "Suc _"])
  note IH = Cons.IH[OF _ _ rest]
  have ok: "path_ok (strs (mem w)) (path_of (pa, s)) s" "name_ok (strs (mem w)) \<lparr>name_len = strlen n, name_str = a\<rparr> n"
    using look strs_Str assms(3) Cons.prems(4) by (auto simp: path_ok_def name_ok_def f)
  note comp = compose_cases[OF ok assms(2), of buf JCL_OK]
  consider "t = JFS_FW_REG" | "t \<noteq> JFS_FW_REG" "length (s @ ''/'' @ n) > 4096" | (go) "t \<noteq> JFS_FW_REG" "length (s @ ''/'' @ n) \<le> 4096"
    by linarith
  thus ?case
  proof cases
    case go
    let ?c = "s @ ''/'' @ n"
    define bf where "bf = buf\<lparr>buf_len := strlen ?c, buf_data := ?c\<rparr>"
    have bf: "jfs_fio_path_buf_compose (strs (mem w)) buf (path_of (pa, s)) \<lparr>name_len = strlen n, name_str = a\<rparr> JCL_OK = Ret (bf, JCL_OK)"
      "buf_data bf = ?c" using comp go(2) by (simp_all add: bf_def)
    obtain w1 p1 e1 where i: "fw_path_init os w zero_path ?c JCL_OK = (w1, p1, e1)" by (metis prod_cases3)
    have len: "length ?c < 2 ^ 63" "length (trim_slash ?c) \<le> 4096" using go(2) trim_slash_length[of ?c] by auto
    note c1 = path_init_cells[OF assms(1) Cons.prems(2) len(1) i, folded child_def]
    define dp where "dp = path_of (pa, s)"
    have step: "fw_push_loop (length (f # fs)) os w v fa (path_of (pa, s)) zero_path buf i JCL_OK =
        (if e1 \<noteq> JCL_OK then Ret (w1, v, e1) else run_bind (fw_path_vector_push os w1 v p1 JCL_OK) (\<lambda>(w, v, p, err).
         if err \<noteq> JCL_OK then run_bind (fw_path_free w p) (\<lambda>(w, p). Ret (w, v, err))
         else fw_push_loop (length fs) os w v fa (path_of (pa, s)) p bf (i + 1) err))"
      using b bf go(1) i unfolding dp_def[symmetric] by (simp add: f del: path_of.simps)
    have ch: "children s (map snd (f # fs)) = child s n # children s (map snd fs)" using go by (simp add: f)
    show ?thesis
    proof (cases "e1 = JCL_OK")
      case True
      then obtain a1 where a1: "p1 = path_of (a1, child s n)" "heap_is (mem w1) (add_mset (a1, Str (child s n)) (N + M))"
        "open_dirs w1 = open_dirs w" using c1 by (auto split: if_splits)
      let ?g = "(a1, child s n)"
      have h: "heap_is (mem w1) (N + path_cells ?g + M)" using a1(2) by simp
      have fits: "path_fits ?g" using len(2) by (simp add: child_def)
      obtain w2 v2 p2 e2 where p: "fw_path_vector_push os w1 v p1 JCL_OK = Ret (w2, v2, p2, e2)" "open_dirs w2 = open_dirs w1"
        "e2 = JCL_OK \<and> p2 = zero_path \<and> (\<exists>N'. path_vec_is v2 (gs @ [?g]) N' \<and> heap_is (mem w2) (N' + M))
         \<or> e2 = JCL_ERR_SYS \<and> p2 = p1 \<and> v2 = v \<and> mem w2 = mem w1"
        using pvec.push_ok[OF assms(1) Cons.prems(1) fits h] a1(1) by blast
      show ?thesis
      proof (cases "e2 = JCL_OK")
        case e2: True
        then obtain N' where N': "path_vec_is v2 (gs @ [?g]) N'" "heap_is (mem w2) (N' + M)" "p2 = zero_path" using p(3) by auto
        obtain w' v' err' gs' N'' xs where r: "fw_push_loop (length fs) os w2 v2 fa (path_of (pa, s)) zero_path bf (Suc i) JCL_OK = Ret (w', v', err')"
          "open_dirs w' = open_dirs w2" "path_vec_is v' gs' N''" "heap_is (mem w') (N'' + M)" "map snd gs' = map snd (gs @ [?g]) @ xs"
          "err' = JCL_OK \<and> xs = children s (map snd fs) \<or> err' = JCL_ERR_SYS \<and> prefix xs (children s (map snd fs))"
          using IH[OF N'(1,2)] by blast
        have "fw_push_loop (length (f # fs)) os w v fa (path_of (pa, s)) zero_path buf i JCL_OK = Ret (w', v', err')"
          unfolding step using True e2 p(1) N'(3) r(1) by simp
        moreover have "map snd gs' = map snd gs @ (child s n # xs)" using r(5) by simp
        ultimately show ?thesis unfolding ch using r(2-4,6) p(2) a1(3)
          by (intro exI[of _ w'] exI[of _ v'] exI[of _ err'] exI[of _ gs'] exI[of _ N''] exI[of _ "child s n # xs"]) auto
      next
        case False
        hence e2: "e2 = JCL_ERR_SYS" "p2 = p1" "v2 = v" "mem w2 = mem w1" using p(3) by auto
        have "heap_is (mem w2) (path_cells ?g + (N + M))" using a1(2) e2(4) by simp
        from path_free_ok[OF this] obtain w3 where w3: "fw_path_free w2 p2 = Ret (w3, zero_path)" "heap_is (mem w3) (N + M)"
          "open_dirs w3 = open_dirs w2" using a1(1) e2(2) by auto
        have "fw_push_loop (length (f # fs)) os w v fa (path_of (pa, s)) zero_path buf i JCL_OK = Ret (w3, v, JCL_ERR_SYS)"
          unfolding step using True p(1) e2(1,3) w3(1) by simp
        thus ?thesis using w3(2,3) p(2) a1(3) Cons.prems(1) by (intro exI[of _ w3] exI[of _ v]) force
      qed
    next
      case False
      hence "e1 = JCL_ERR_SYS" "mem w1 = mem w" "open_dirs w1 = open_dirs w" using c1 len(2) by (auto simp: child_def)
      thus ?thesis unfolding step using Cons.prems(1,2) by (intro exI[of _ w1] exI[of _ v]) force
    qed
  qed (use b comp IH[OF Cons.prems(1,2)] in \<open>simp_all add: f\<close>)
qed auto

lemma sum_list_sub: "g \<in> set fs \<Longrightarrow> \<exists>K. sum_list (map c fs) = c g + (K :: fw_cell multiset)"
  by (auto dest!: split_list simp: add.left_commute)

lemma push_dir_paths_ok:
  assumes "os_ok os" "s \<noteq> []" "length s \<le> 4096" "file_vec_is fv fs NF" "path_vec_is v gs N"
    and "heap_is (mem w) (N + (NF + (path_cells (pa, s) + M)))"
  shows "\<exists>w' v' err' gs' N' xs. fw_push_dir_paths os w v fv (path_of (pa, s)) JCL_OK = Ret (w', v', err')
    \<and> open_dirs w' = open_dirs w \<and> path_vec_is v' gs' N' \<and> heap_is (mem w') (N' + (NF + (path_cells (pa, s) + M)))
    \<and> map snd gs' = map snd gs @ xs
    \<and> (err' = JCL_OK \<and> xs = children s (map snd fs) \<or> err' = JCL_ERR_SYS \<and> prefix xs (children s (map snd fs)))"
proof -
  obtain k fa blk where f: "\<forall>f \<in> set fs. file_fits f" "fv = \<lparr>fv_count = of_nat (length fs), fv_capacity = k, file_array = fa\<rparr>"
    "blk_ok sizeof_file k (map file_of fs) blk" "NF = add_mset (fa, Files blk) (sum_list (map file_cells fs))"
    using assms(4) unfolding file_vec_is_def by blast
  let ?M = "NF + (path_cells (pa, s) + M)"
  have "(pa, Str s) \<in># ?M" "(fa, Files blk) \<in># ?M" by (simp_all add: f(4))
  moreover have "file_cells g \<subseteq># ?M" if in_fs: "g \<in> set fs" for g
  proof -
    obtain K where "sum_list (map file_cells fs) = file_cells g + K" using sum_list_sub[OF in_fs] by blast
    hence "?M = file_cells g + (add_mset (fa, Files blk) K + (path_cells (pa, s) + M))" unfolding f(4) by simp
    thus ?thesis by (metis mset_subset_eq_add_left)
  qed
  moreover have "\<forall>j < length fs. 0 + j < length blk \<and> blk ! (0 + j) = Some (file_of (fs ! j))"
    using blk_ok_nth[OF f(3)] by simp
  ultimately show ?thesis using push_loop_ok[OF assms(1-3) _ _ assms(5,6), where fa = fa and blk = blk and fs = fs and i = 0] f(1) vec_counts(2)[OF assms(4)]
    by (simp add: fw_push_dir_paths_def f(2))
qed

section \<open>The directory record\<close>

lemma dir_init_ok:
  assumes "os_ok os" "file_vec_is v fs N" "path_fits p" "heap_is (mem w) (N + (path_cells p + M))"
  shows "\<exists>w' d' v' p' err'. fw_dir_init os w zero_dir v (path_of p) JCL_OK = Ret (w', d', v', p', err') \<and> open_dirs w' = open_dirs w
    \<and> (err' = JCL_OK \<and> v' = zero_file_vec \<and> p' = zero_path
          \<and> (\<exists>a. d' = dir_of (p, a, fs) \<and> dir_fits (p, a, fs) \<and> heap_is (mem w') (dir_cells (p, a, fs) + M))
       \<or> err' = JCL_ERR_SYS \<and> d' = zero_dir \<and> v' = v \<and> p' = path_of p \<and> mem w' = mem w)"
proof -
  have cnt: "unat (fv_count v) = length fs" by (rule vec_counts(2)[OF assms(2)])
  have c: "fv_count v = of_nat (length fs)" using assms(2) by (auto simp: file_vec_is_def)
  have fits: "dir_fits (p, a, fs)" for a using assms(2,3) cnt unat_lt64[of "fv_count v"] by (auto simp: file_vec_is_def)
  show ?thesis
  proof (cases "fs = []")
    case True
    hence z: "\<not> fv_count v > 0" using c by simp
    obtain w1 where "fw_file_vector_free w v = Ret (w1, zero_file_vec)" "heap_is (mem w1) (path_cells p + M)" "open_dirs w1 = open_dirs w"
      using fvec.vfree_ok[OF assms(2,4), unfolded zero_vecs] by blast
    thus ?thesis using z c True fits by (auto simp: fw_dir_init_def jfs_fio_path_transfer_def zero_path_def)
  next
    case False
    hence z: "fv_count v > 0" using cnt by (simp add: word_less_nat_alt)
    obtain w1 a v1 e where r: "fw_file_vector_to_array os w v JCL_OK = Ret (w1, a, v1, e)" "open_dirs w1 = open_dirs w"
      "e = JCL_OK \<and> v1 = zero_file_vec \<and> a \<noteq> NULL
         \<and> heap_is (mem w1) (add_mset (a, Files (map (\<lambda>g. Some (file_of g)) fs)) (sum_list (map file_cells fs) + (path_cells p + M)))
       \<or> e = JCL_ERR_SYS \<and> a = NULL \<and> v1 = v \<and> mem w1 = mem w"
      using fvec.to_array_ok[OF assms(1,2,4) False, unfolded zero_vecs] by blast
    show ?thesis
    proof (cases "e = JCL_OK")
      case True
      hence "heap_is (mem w1) (dir_cells (p, a, fs) + M)" "v1 = zero_file_vec" using r(3) False by (simp_all add: ac_simps add_mset_commute)
      thus ?thesis using z c True False fits r(1,2) by (auto simp: fw_dir_init_def jfs_fio_path_transfer_def zero_path_def)
    qed (use r z in \<open>auto simp: fw_dir_init_def\<close>)
  qed
qed

section \<open>The specification of a step\<close>

type_synonym walk = "string list \<times> (string \<times> entry list) list"

definition fw_remap :: "jcl_err \<Rightarrow> jcl_err" where
  "fw_remap err = REMAP_ERR JCL_ERR_INVAL_PATH JCL_ERR_FW_FAIL (REMAP_ERR JCL_ERR_ACCESS JCL_ERR_FW_SKIP err)"

inductive walk_step :: "fw_os \<Rightarrow> walk \<Rightarrow> jcl_err \<Rightarrow> walk \<Rightarrow> bool" for os where
  idle: "walk_step os ([], ds) JCL_OK ([], ds)"
| no_vector: "ps \<noteq> [] \<Longrightarrow> walk_step os (ps, ds) JCL_ERR_SYS (ps, ds)"
| not_opened: "os_opendir os w s = (NULL, e, ents, e') \<Longrightarrow>
    walk_step os (ps @ [s], ds) (fw_remap (snd (jcl_opendir NULL e JCL_OK))) (ps, ds)"
| not_scanned: "os_opendir os w s = (d, e, ents, e') \<Longrightarrow> d \<noteq> NULL \<Longrightarrow> scan_spec ents e' = Inl err \<or> err = JCL_ERR_SYS \<Longrightarrow>
    walk_step os (ps @ [s], ds) err (ps, ds)"
| no_memory: "os_opendir os w s = (d, e, ents, e') \<Longrightarrow> d \<noteq> NULL \<Longrightarrow> scan_spec ents e' = Inr es \<Longrightarrow> prefix xs (children s es) \<Longrightarrow>
    walk_step os (ps @ [s], ds) JCL_ERR_SYS (ps @ xs, ds)"
| recorded: "os_opendir os w s = (d, e, ents, e') \<Longrightarrow> d \<noteq> NULL \<Longrightarrow> scan_spec ents e' = Inr es \<Longrightarrow>
    walk_step os (ps @ [s], ds) JCL_OK (ps @ children s es, ds @ [(s, es)])"

text \<open>The state of the walker in memory and what it stands for.\<close>

definition state_is :: "jfs_fw_state \<Rightarrow> gpath list \<Rightarrow> gdir list \<Rightarrow> fw_cell multiset \<Rightarrow> bool" where
  "state_is st ps ds N \<longleftrightarrow> (\<exists>N1 N2. path_vec_is (path_vec st) ps N1 \<and> dir_vec_is (dir_vec st) ds N2 \<and> N = N1 + N2)"

fun dir_val :: "gdir \<Rightarrow> string \<times> entry list" where
  "dir_val (p, a, fs) = (snd p, map snd fs)"

definition walk_of :: "gpath list \<Rightarrow> gdir list \<Rightarrow> walk" where
  "walk_of ps ds = (map snd ps, map dir_val ds)"

text \<open>What \<open>jfs_fw_state_step\<close> returns.\<close>

definition step_result :: "gpath list \<Rightarrow> jcl_err \<Rightarrow> gpath list \<Rightarrow> int" where
  "step_result ps err ps' = (if ps = [] then 1 else if err = JCL_OK then (if ps' \<noteq> [] then 1 else 0) else (if ps' = [] then 1 else 0))"

lemma cleanup_ok:
  assumes "fv = zero_file_vec \<and> NF = {#} \<or> file_vec_is fv fs NF" "p = zero_path \<and> NP = {#} \<or> p = path_of g \<and> NP = path_cells g"
    and "d = zero_dir \<and> ND = {#} \<or> d = dir_of gd \<and> dir_fits gd \<and> ND = dir_cells gd" "sd = NULL \<or> sd \<in> open_dirs w"
    and "heap_is (mem w) (NF + (NP + (ND + M)))" "path_vec_is (path_vec st) ps N1"
  shows "\<exists>w'. fw_step_cleanup w st sd fv p d err = Ret (w', st, if ps = [] then 1 else 0, fw_remap err) \<and> heap_is (mem w') M
    \<and> open_dirs w' = (if sd = NULL then open_dirs w else open_dirs w - {sd})"
proof -
  define w1 where "w1 = (if sd = NULL then w else w\<lparr>open_dirs := open_dirs w - {sd}\<rparr>)"
  have c: "(if sd \<noteq> NULL then closedir w sd else Ret w) = Ret w1" using assms(4) by (auto simp: closedir_def w1_def)
  have "heap_is (mem w1) (NF + (NP + (ND + M)))" using assms(5) by (simp add: w1_def)
  then obtain w2 where w2: "fw_file_vector_free w1 fv = Ret (w2, zero_file_vec)" "heap_is (mem w2) (NP + (ND + M))" "open_dirs w2 = open_dirs w1"
    using assms(1) fvec_free_zero fvec.vfree_ok[unfolded zero_vecs] by (metis add_0)
  then obtain w3 where w3: "fw_path_free w2 p = Ret (w3, zero_path)" "heap_is (mem w3) (ND + M)" "open_dirs w3 = open_dirs w1"
    using assms(2) path_free_zero path_free_ok by (metis add_0)
  then obtain w4 where w4: "jfs_fw_dir_free w3 d = Ret (w4, zero_dir)" "heap_is (mem w4) M" "open_dirs w4 = open_dirs w1"
    using assms(3) dir_free_zero dir_free_ok by (metis add_0)
  have "pv_count (path_vec st) = 0 \<longleftrightarrow> ps = []" using vec_counts(1)[OF assms(6)] by (metis length_0_conv unat_0 unat_eq_zero)
  thus ?thesis using c w2(1) w3(1) w4 by (simp add: fw_step_cleanup_def Let_def fw_remap_def) (simp add: w1_def)
qed

section \<open>The step\<close>

lemma fw_remap_SYS [simp]: "fw_remap JCL_ERR_SYS = JCL_ERR_SYS"
  by (simp add: fw_remap_def REMAP_ERR_def)

text \<open>The part of \<open>jfs_fw_state_step\<close> that follows the scan of the directory, and its last part.\<close>

definition step_record ::
  "fw_os \<Rightarrow> jfs_fw_state \<Rightarrow> addr \<Rightarrow> fw_file_vector \<Rightarrow> jfs_fio_path \<Rightarrow> jfs_fw_dir \<Rightarrow> fw_world \<Rightarrow> jcl_err
   \<Rightarrow> (fw_world \<times> jfs_fw_state \<times> int \<times> jcl_err) run" where
  "step_record os st sys_dir fvec path dir w err =
     run_bind (fw_dir_vector_push os w (dir_vec st) dir err) (\<lambda>(w, dv, dir, err).
        let st = st\<lparr>dir_vec := dv\<rparr> in
      if err \<noteq> JCL_OK then fw_step_cleanup w st sys_dir fvec path dir err
      else run_bind (closedir w sys_dir) (\<lambda>w.
        Ret (w, st, if pv_count (path_vec st) > 0 then 1 else 0, err)))"

definition step_rest ::
  "fw_os \<Rightarrow> jfs_fw_state \<Rightarrow> addr \<Rightarrow> fw_file_vector \<Rightarrow> jfs_fio_path \<Rightarrow> fw_world \<Rightarrow> jcl_err \<Rightarrow> (fw_world \<times> jfs_fw_state \<times> int \<times> jcl_err) run" where
  "step_rest os st sys_dir fvec path w err =
     run_bind (fw_push_dir_paths os w (path_vec st) fvec path err) (\<lambda>(w, pv, err).
        let st = st\<lparr>path_vec := pv\<rparr> in
      if err \<noteq> JCL_OK then fw_step_cleanup w st sys_dir fvec path zero_dir err
      else run_bind (fw_dir_init os w zero_dir fvec path err) (\<lambda>(w, dir, fvec, path, err).
      if err \<noteq> JCL_OK then fw_step_cleanup w st sys_dir fvec path dir err
      else step_record os st sys_dir fvec path dir w err))"

lemma state_step_unfold:
  "fw_state_step os w st err =
     (if pv_count (path_vec st) = 0 then Ret (w, st, 1, err)
      else case fw_file_vector_init os w zero_file_vec err of (w, fvec, err) \<Rightarrow>
      if err \<noteq> JCL_OK then fw_step_cleanup w st NULL fvec zero_path zero_dir err
      else run_bind (fw_path_vector_pop w (path_vec st) zero_path err) (\<lambda>(w, pv, path, err).
        let st = st\<lparr>path_vec := pv\<rparr> in
      if err \<noteq> JCL_OK then fw_step_cleanup w st NULL fvec path zero_dir err
      else run_bind (deref_str (strs (mem w)) (path_str path)) (\<lambda>s.
        case fw_opendir os w s err of (w, sys_dir, ents, errno, err) \<Rightarrow>
      if err \<noteq> JCL_OK then fw_step_cleanup w st sys_dir fvec path zero_dir err
      else run_bind (fw_scan_dir os ents errno w fvec err) (\<lambda>(w, fvec, err).
      if err \<noteq> JCL_OK then fw_step_cleanup w st sys_dir fvec path zero_dir err
      else step_rest os st sys_dir fvec path w err))))"
  unfolding fw_state_step_def step_rest_def step_record_def ..

lemma dir_pushed:
  assumes "os_ok os" "path_vec_is (path_vec st) ps N1" "dir_vec_is (dir_vec st) ds N2" "dir_fits g" "sd \<noteq> NULL" "sd \<in> open_dirs w"
    and "heap_is (mem w) (N1 + (N2 + (dir_cells g + M)))"
  shows "\<exists>w' st' r err' ds' N'. step_record os st sd zero_file_vec zero_path (dir_of g) w JCL_OK = Ret (w', st', r, err') \<and> open_dirs w' = open_dirs w - {sd}
    \<and> state_is st' ps ds' N' \<and> heap_is (mem w') (N' + M)
    \<and> (err' = JCL_OK \<and> ds' = ds @ [g] \<and> r = (if ps \<noteq> [] then 1 else 0) \<or> err' = JCL_ERR_SYS \<and> ds' = ds \<and> r = (if ps = [] then 1 else 0))"
proof -
  have h: "heap_is (mem w) (N2 + dir_cells g + (N1 + M))" using assms(7) by (simp only: ac_simps)
  obtain w1 dv d1 e where p: "fw_dir_vector_push os w (dir_vec st) (dir_of g) JCL_OK = Ret (w1, dv, d1, e)" "open_dirs w1 = open_dirs w"
    "e = JCL_OK \<and> d1 = zero_dir \<and> (\<exists>N'. dir_vec_is dv (ds @ [g]) N' \<and> heap_is (mem w1) (N' + (N1 + M)))
     \<or> e = JCL_ERR_SYS \<and> d1 = dir_of g \<and> dv = dir_vec st \<and> mem w1 = mem w"
    using dvec.push_ok[OF assms(1,3,4) h] by blast
  show ?thesis
  proof (cases "e = JCL_OK")
    case True
    then obtain N' where N': "dir_vec_is dv (ds @ [g]) N'" "heap_is (mem w1) (N' + (N1 + M))" using p(3) by auto
    have "state_is (st\<lparr>dir_vec := dv\<rparr>) ps (ds @ [g]) (N1 + N')" using assms(2) N'(1) by (auto simp: state_is_def)
    moreover have "heap_is (mem w1) (N1 + N' + M)" using N'(2) by (simp only: ac_simps)
    moreover have "pv_count (path_vec st) > 0 \<longleftrightarrow> ps \<noteq> []" using vec_counts(1)[OF assms(2)] by (simp add: word_less_nat_alt)
    ultimately show ?thesis using p(1,2) True assms(6) unfolding step_record_def
      by (intro exI[of _ "w1\<lparr>open_dirs := open_dirs w - {sd}\<rparr>"] exI[of _ "st\<lparr>dir_vec := dv\<rparr>"]) (auto simp: closedir_def)
  next
    case False
    hence e: "e = JCL_ERR_SYS" "d1 = dir_of g" "dv = dir_vec st" "heap_is (mem w1) ({#} + ({#} + (dir_cells g + (N1 + (N2 + M)))))"
      using p(3) h by (auto simp: ac_simps)
    obtain w' where "fw_step_cleanup w1 st sd zero_file_vec zero_path d1 e = Ret (w', st, if ps = [] then 1 else 0, fw_remap e)"
      "heap_is (mem w') (N1 + (N2 + M))" "open_dirs w' = open_dirs w1 - {sd}"
      using cleanup_ok[OF _ _ _ _ e(4) assms(2), where fv = zero_file_vec and p = zero_path and d = d1 and gd = g and sd = sd and err = e] e(2) assms(4-6) p(2) by auto
    moreover have "state_is st ps ds (N1 + N2)" using assms(2,3) by (auto simp: state_is_def)
    ultimately show ?thesis using p(1,2) e(1,3) unfolding step_record_def by (auto simp: add.assoc)
  qed
qed

lemma step_rest_eqs:
  assumes "fw_push_dir_paths os w (path_vec st) fv p JCL_OK = Ret (w1, pv, e1)"
  shows "e1 \<noteq> JCL_OK \<Longrightarrow> step_rest os st sd fv p w JCL_OK = fw_step_cleanup w1 (st\<lparr>path_vec := pv\<rparr>) sd fv p zero_dir e1"
    "e1 = JCL_OK \<Longrightarrow> fw_dir_init os w1 zero_dir fv p JCL_OK = Ret (w2, d, fv2, p2, e2) \<Longrightarrow> step_rest os st sd fv p w JCL_OK =
      (if e2 \<noteq> JCL_OK then fw_step_cleanup w2 (st\<lparr>path_vec := pv\<rparr>) sd fv2 p2 d e2
       else step_record os (st\<lparr>path_vec := pv\<rparr>) sd fv2 p2 d w2 JCL_OK)"
  using assms by (simp_all add: step_rest_def Let_def)

definition rest_post :: "string \<Rightarrow> entry list \<Rightarrow> gpath list \<Rightarrow> gdir list \<Rightarrow> jcl_err \<Rightarrow> int \<Rightarrow> gpath list \<Rightarrow> gdir list \<Rightarrow> bool" where
  "rest_post s es ps ds err' r ps' ds' \<longleftrightarrow>
     err' = JCL_OK \<and> map snd ps' = map snd ps @ children s es \<and> map dir_val ds' = map dir_val ds @ [(s, es)] \<and> r = (if ps' \<noteq> [] then 1 else 0)
     \<or> err' = JCL_ERR_SYS \<and> (\<exists>xs. prefix xs (children s es) \<and> map snd ps' = map snd ps @ xs) \<and> ds' = ds \<and> r = (if ps' = [] then 1 else 0)"

lemma step_rest_ok:
  assumes "os_ok os" "s \<noteq> []" "path_fits (pa, s)" "file_vec_is fv fs NF" "path_vec_is (path_vec st) ps N1" "dir_vec_is (dir_vec st) ds N2"
    and "sd \<noteq> NULL" "sd \<in> open_dirs w" "heap_is (mem w) (N1 + (N2 + (NF + (path_cells (pa, s) + M))))"
  shows "\<exists>w' st' r err' ps' ds' N'. step_rest os st sd fv (path_of (pa, s)) w JCL_OK = Ret (w', st', r, err')
    \<and> open_dirs w' = open_dirs w - {sd} \<and> state_is st' ps' ds' N' \<and> heap_is (mem w') (N' + M)
    \<and> rest_post s (map snd fs) ps ds err' r ps' ds'"
proof -
  have l: "length s \<le> 4096" using assms(3) by simp
  have h: "heap_is (mem w) (N1 + (NF + (path_cells (pa, s) + (N2 + M))))" using assms(9) by (simp only: ac_simps)
  obtain w1 pv e1 ps' N1' xs where p: "fw_push_dir_paths os w (path_vec st) fv (path_of (pa, s)) JCL_OK = Ret (w1, pv, e1)"
    "open_dirs w1 = open_dirs w" "path_vec_is pv ps' N1'" "heap_is (mem w1) (N1' + (NF + (path_cells (pa, s) + (N2 + M))))"
    "map snd ps' = map snd ps @ xs" "e1 = JCL_OK \<and> xs = children s (map snd fs) \<or> e1 = JCL_ERR_SYS \<and> prefix xs (children s (map snd fs))"
    using push_dir_paths_ok[OF assms(1,2) l assms(4,5) h] by blast
  define st1 where "st1 = st\<lparr>path_vec := pv\<rparr>"
  have st1: "path_vec_is (path_vec st1) ps' N1'" "dir_vec_is (dir_vec st1) ds N2" using p(3) assms(6) by (simp_all add: st1_def)
  note vecs = this
  have st1_is: "state_is st1 ps' ds (N1' + N2)" using vecs by (auto simp: state_is_def)
  have lost: ?thesis if "mem w2 = mem w1" "open_dirs w2 = open_dirs w1" "prefix xs (children s (map snd fs))"
    "step_rest os st sd fv (path_of (pa, s)) w JCL_OK = fw_step_cleanup w2 st1 sd fv (path_of (pa, s)) zero_dir JCL_ERR_SYS" for w2
  proof -
    have "heap_is (mem w2) (NF + (path_cells (pa, s) + ({#} + (N1' + N2 + M))))" using p(4) that(1) by (simp only: ac_simps add_0)
    note h2 = this and t = that
    have sd: "sd \<in> open_dirs w2" using assms(8) p(2) t(2) by simp
    obtain w' where c: "fw_step_cleanup w2 st1 sd fv (path_of (pa, s)) zero_dir JCL_ERR_SYS = Ret (w', st1, if ps' = [] then 1 else 0, fw_remap JCL_ERR_SYS)"
      "heap_is (mem w') (N1' + N2 + M)" "open_dirs w' = (if sd = NULL then open_dirs w2 else open_dirs w2 - {sd})"
      using cleanup_ok[OF disjI2[OF assms(4)] disjI2[OF conjI[OF refl refl]] disjI1[OF conjI[OF refl refl]] disjI2[OF sd] h2 st1(1),
          of JCL_ERR_SYS] by blast
    have "open_dirs w' = open_dirs w - {sd}" using c(3) assms(7) p(2) t(2) by simp
    moreover have "step_rest os st sd fv (path_of (pa, s)) w JCL_OK = Ret (w', st1, if ps' = [] then 1 else 0, JCL_ERR_SYS)"
      unfolding t(4) c(1) fw_remap_SYS ..
    moreover have "rest_post s (map snd fs) ps ds JCL_ERR_SYS (if ps' = [] then 1 else 0) ps' ds" using t(3) p(5) by (auto simp: rest_post_def)
    ultimately show ?thesis using st1_is c(2) by blast
  qed
  show ?thesis
  proof (cases "e1 = JCL_OK")
    case False
    hence e1: "e1 = JCL_ERR_SYS" "prefix xs (children s (map snd fs))" using p(6) by auto
    show ?thesis using e1 step_rest_eqs(1)[OF p(1) False] by (intro lost[OF refl refl]) (simp_all add: st1_def)
  next
    case True
    hence xs: "xs = children s (map snd fs)" using p(6) by auto
    have h1: "heap_is (mem w1) (NF + (path_cells (pa, s) + (N1' + (N2 + M))))" using p(4) by (simp only: ac_simps)
    obtain w2 d fv2 p2 e2 where i: "fw_dir_init os w1 zero_dir fv (path_of (pa, s)) JCL_OK = Ret (w2, d, fv2, p2, e2)"
      "open_dirs w2 = open_dirs w1" "e2 = JCL_OK \<and> fv2 = zero_file_vec \<and> p2 = zero_path
          \<and> (\<exists>a. d = dir_of ((pa, s), a, fs) \<and> dir_fits ((pa, s), a, fs) \<and> heap_is (mem w2) (dir_cells ((pa, s), a, fs) + (N1' + (N2 + M))))
       \<or> e2 = JCL_ERR_SYS \<and> d = zero_dir \<and> fv2 = fv \<and> p2 = path_of (pa, s) \<and> mem w2 = mem w1"
      using dir_init_ok[OF assms(1,4,3) h1] by blast
    show ?thesis
    proof (cases "e2 = JCL_OK")
      case False
      hence e2: "e2 = JCL_ERR_SYS" "d = zero_dir" "fv2 = fv" "p2 = path_of (pa, s)" "mem w2 = mem w1" using i(3) by auto
      show ?thesis using e2 step_rest_eqs(2)[OF p(1) True i(1)] xs by (intro lost[OF e2(5) i(2)]) (simp_all add: st1_def)
    next
      case ok: True
      then obtain a where a: "fv2 = zero_file_vec" "p2 = zero_path" "d = dir_of ((pa, s), a, fs)" "dir_fits ((pa, s), a, fs)"
        "heap_is (mem w2) (dir_cells ((pa, s), a, fs) + (N1' + (N2 + M)))" using i(3) by auto
      have h2: "heap_is (mem w2) (N1' + (N2 + (dir_cells ((pa, s), a, fs) + M)))" using a(5) by (simp only: ac_simps)
      have sd: "sd \<in> open_dirs w2" using assms(8) p(2) i(2) by simp
      obtain w' st' r err' ds' N' where rest: "step_record os st1 sd zero_file_vec zero_path d w2 JCL_OK = Ret (w', st', r, err')"
        "open_dirs w' = open_dirs w2 - {sd}" "state_is st' ps' ds' N'" "heap_is (mem w') (N' + M)"
        "err' = JCL_OK \<and> ds' = ds @ [((pa, s), a, fs)] \<and> r = (if ps' \<noteq> [] then 1 else 0)
         \<or> err' = JCL_ERR_SYS \<and> ds' = ds \<and> r = (if ps' = [] then 1 else 0)"
        using dir_pushed[OF assms(1) vecs a(4) assms(7) sd h2, folded a(3)] by (elim exE conjE) (rule that)
      have "step_rest os st sd fv (path_of (pa, s)) w JCL_OK = step_record os st1 sd zero_file_vec zero_path d w2 JCL_OK"
        unfolding step_rest_eqs(2)[OF p(1) True i(1)] a(1,2) st1_def ok by simp
      moreover have "open_dirs w2 = open_dirs w" using p(2) i(2) by simp
      moreover have "rest_post s (map snd fs) ps ds err' r ps' ds'" using rest(5) p(5) xs by (auto simp: rest_post_def)
      ultimately show ?thesis using rest(1-4) by auto
    qed
  qed
qed

lemma opendir_cases:
  assumes "os_ok os" "fw_opendir os w s JCL_OK = (w', sd, ents, e', err')"
  shows "mem w' = mem w \<and> (\<exists>d e. os_opendir os w s = (d, e, ents, e') \<and>
    (if d = NULL then sd = NULL \<and> err' = snd (jcl_opendir NULL e JCL_OK) \<and> err' \<noteq> JCL_OK \<and> open_dirs w' = open_dirs w
     else sd = d \<and> err' = JCL_OK \<and> d \<notin> open_dirs w \<and> open_dirs w' = insert d (open_dirs w) \<and> s \<noteq> []
       \<and> (\<forall>x \<in> set ents. length (d_name x) < 2 ^ 63)))"
proof -
  obtain d e es e2 where o: "os_opendir os w s = (d, e, es, e2)" by (metis prod_cases4)
  show ?thesis
  proof (cases "d = NULL")
    case True
    have "snd (jcl_opendir NULL e JCL_OK) \<noteq> JCL_OK" by (rule wr_opendir.failure_code) simp
    thus ?thesis using assms(2) o True by (auto simp: fw_opendir_def jcl_opendir_def)
  next
    case False
    thus ?thesis using assms(2) o os_opendirD[OF assms(1) o False] by (auto simp: fw_opendir_def jcl_opendir_def)
  qed
qed

lemma scan_spec_remap: "scan_spec ents e = Inl err \<Longrightarrow> fw_remap err = err"
  by (induction ents e rule: scan_spec.induct)
     (auto simp: fw_remap_def REMAP_ERR_def map_sum_def split: if_splits sum.splits)

text \<open>The step on the walker's memory: state \<open>st\<close> before, \<open>st'\<close> after.\<close>

definition step_ok :: "fw_os \<Rightarrow> fw_world \<Rightarrow> gpath list \<Rightarrow> gdir list \<Rightarrow> fw_cell multiset \<Rightarrow> (fw_world \<times> jfs_fw_state \<times> int \<times> jcl_err) run \<Rightarrow> bool" where
  "step_ok os w ps ds M res \<longleftrightarrow> (\<exists>w' st' r err' ps' ds' N'. res = Ret (w', st', r, err') \<and> open_dirs w' = open_dirs w
     \<and> state_is st' ps' ds' N' \<and> heap_is (mem w') (N' + M) \<and> walk_step os (walk_of ps ds) err' (walk_of ps' ds')
     \<and> r = step_result ps err' ps')"

lemma step_okI:
  "res = Ret (w', st', step_result ps err' ps', err') \<Longrightarrow> open_dirs w' = open_dirs w \<Longrightarrow> state_is st' ps' ds' N' \<Longrightarrow>
   heap_is (mem w') (N' + M) \<Longrightarrow> walk_step os (walk_of ps ds) err' (walk_of ps' ds') \<Longrightarrow> step_ok os w ps ds M res"
  unfolding step_ok_def by blast

text \<open>A step that fails before the subdirectories are pushed.\<close>

lemma step_failed:
  assumes "file_vec_is fv fs NF" "path_vec_is (path_vec st) ps' N1" "dir_vec_is (dir_vec st) ds N2"
    and "heap_is (mem w1) (N1 + (N2 + (NF + (NP + M))))" "p = zero_path \<and> NP = {#} \<or> p = path_of g \<and> NP = path_cells g"
    and "sd = NULL \<or> sd \<in> open_dirs w1" "open_dirs w = (if sd = NULL then open_dirs w1 else open_dirs w1 - {sd})"
    and "err \<noteq> JCL_OK" "fw_remap err \<noteq> JCL_OK" "ps \<noteq> []" "walk_step os (walk_of ps ds) (fw_remap err) (walk_of ps' ds)"
  shows "step_ok os w ps ds M (fw_step_cleanup w1 st sd fv p zero_dir err)"
proof -
  have h: "heap_is (mem w1) (NF + (NP + ({#} + (N1 + N2 + M))))" using assms(4) by (simp only: ac_simps add_0)
  obtain w' where c: "fw_step_cleanup w1 st sd fv p zero_dir err = Ret (w', st, if ps' = [] then 1 else 0, fw_remap err)"
    "heap_is (mem w') (N1 + N2 + M)" "open_dirs w' = (if sd = NULL then open_dirs w1 else open_dirs w1 - {sd})"
    using cleanup_ok[OF disjI2[OF assms(1)] assms(5) disjI1[OF conjI[OF refl refl]] assms(6) h assms(2), of err] by blast
  have r: "(if ps' = [] then 1 else 0) = step_result ps (fw_remap err) ps'" using assms(9,10) by (simp add: step_result_def)
  have "state_is st ps' ds (N1 + N2)" using assms(2,3) by (auto simp: state_is_def)
  thus ?thesis using c(1)[unfolded r] c(2,3) assms(7,11) by (intro step_okI) simp_all
qed

lemma remap_failed: "err \<noteq> JCL_OK \<Longrightarrow> fw_remap err \<noteq> JCL_OK"
  by (simp add: fw_remap_def REMAP_ERR_def)

text \<open>From the opened directory on.\<close>

lemma step_opened:
  assumes "os_ok os" "file_vec_is fv [] NF" "path_vec_is (path_vec st) ps N1" "dir_vec_is (dir_vec st) ds N2" "path_fits (pa, s)"
    and "os_opendir os w0 s = (sd, e, ents, e')" "sd \<noteq> NULL" "s \<noteq> []" "sd \<notin> open_dirs w" "open_dirs w1 = insert sd (open_dirs w)"
    and "\<forall>x \<in> set ents. length (d_name x) < 2 ^ 63" "heap_is (mem w1) (N1 + (N2 + (NF + (path_cells (pa, s) + M))))"
  shows "step_ok os w (ps @ [(pa, s)]) ds M (run_bind (fw_scan_dir os ents e' w1 fv JCL_OK) (\<lambda>(w, fvec, err).
      if err \<noteq> JCL_OK then fw_step_cleanup w st sd fvec (path_of (pa, s)) zero_dir err
      else step_rest os st sd fvec (path_of (pa, s)) w err))"
proof -
  have h: "heap_is (mem w1) (NF + (N1 + (N2 + (path_cells (pa, s) + M))))" using assms(12) by (simp only: ac_simps)
  obtain w2 fv2 e2 fs N2' where sc: "fw_scan_dir os ents e' w1 fv JCL_OK = Ret (w2, fv2, e2)" "open_dirs w2 = open_dirs w1"
    "file_vec_is fv2 fs N2'" "heap_is (mem w2) (N2' + (N1 + (N2 + (path_cells (pa, s) + M))))"
    "e2 = JCL_OK \<and> (\<exists>es. scan_spec ents e' = Inr es \<and> map snd fs = es) \<or> e2 = JCL_ERR_SYS \<or> scan_spec ents e' = Inl e2"
    using scan_loop_ok[OF assms(1,2) h assms(11), of e'] unfolding fw_scan_dir_def list.map append_Nil by blast
  have h2: "heap_is (mem w2) (N1 + (N2 + (N2' + (path_cells (pa, s) + M))))" using sc(4) by (simp only: ac_simps)
  have dirs: "sd \<in> open_dirs w2" "open_dirs w = open_dirs w2 - {sd}" using assms(9,10) sc(2) by auto
  have of: "walk_of (ps @ [(pa, s)]) ds = (map snd ps @ [s], map dir_val ds)" "walk_of ps ds = (map snd ps, map dir_val ds)"
    by (simp_all add: walk_of_def)
  show ?thesis
  proof (cases "e2 = JCL_OK")
    case False
    hence bad: "scan_spec ents e' = Inl e2 \<or> e2 = JCL_ERR_SYS" using sc(5) by auto
    hence rm: "fw_remap e2 = e2" using scan_spec_remap by auto
    have ws: "walk_step os (walk_of (ps @ [(pa, s)]) ds) (fw_remap e2) (walk_of ps ds)"
      unfolding of rm using walk_step.not_scanned[OF assms(6,7) bad] .
    have "step_ok os w (ps @ [(pa, s)]) ds M (fw_step_cleanup w2 st sd fv2 (path_of (pa, s)) zero_dir e2)"
      by (rule step_failed[OF sc(3) assms(3,4) h2 disjI2[OF conjI[OF refl refl]] disjI2[OF dirs(1)] _ False remap_failed[OF False] _ ws])
        (use assms(7) dirs(2) in simp_all)
    thus ?thesis using sc(1) False by simp
  next
    case True
    hence es: "scan_spec ents e' = Inr (map snd fs)" using sc(5) scan_spec_error[of ents e' e2] by auto
    obtain w' st' r err' ps' ds' N' where rest: "step_rest os st sd fv2 (path_of (pa, s)) w2 JCL_OK = Ret (w', st', r, err')"
      "open_dirs w' = open_dirs w2 - {sd}" "state_is st' ps' ds' N'" "heap_is (mem w') (N' + M)"
      "rest_post s (map snd fs) ps ds err' r ps' ds'"
      using step_rest_ok[OF assms(1,8,5) sc(3) assms(3,4,7) dirs(1) h2] by (elim exE conjE) (rule that)
    have "walk_step os (walk_of (ps @ [(pa, s)]) ds) err' (walk_of ps' ds')"
      using rest(5) walk_step.recorded[OF assms(6,7) es] walk_step.no_memory[OF assms(6,7) es] unfolding of rest_post_def by (auto simp: walk_of_def)
    moreover have "r = step_result (ps @ [(pa, s)]) err' ps'" using rest(5) by (auto simp: step_result_def rest_post_def)
    ultimately show ?thesis using sc(1) True rest(1-4) dirs(2) by (intro step_okI[of _ w' st' _ err' ps']) simp_all
  qed
qed

lemma state_step_eq:
  assumes "pv_count (path_vec st) \<noteq> 0" "fw_file_vector_init os w zero_file_vec JCL_OK = (w1, fv, JCL_OK)"
    and "fw_path_vector_pop w1 (path_vec st) zero_path JCL_OK = Ret (w2, pv, p, JCL_OK)" "deref_str (strs (mem w2)) (path_str p) = Ret s"
    and "fw_opendir os w2 s JCL_OK = (w3, sd, ents, e', e3)"
  shows "fw_state_step os w st JCL_OK = (let st1 = st\<lparr>path_vec := pv\<rparr> in
      if e3 \<noteq> JCL_OK then fw_step_cleanup w3 st1 sd fv p zero_dir e3
      else run_bind (fw_scan_dir os ents e' w3 fv e3) (\<lambda>(w, fvec, err).
        if err \<noteq> JCL_OK then fw_step_cleanup w st1 sd fvec p zero_dir err
        else step_rest os st1 sd fvec p w err))"
  using assms by (simp add: state_step_unfold Let_def)

lemma state_step_ok:
  assumes "os_ok os" "state_is st ps ds N" "heap_is (mem w) (N + M)"
  shows "step_ok os w ps ds M (fw_state_step os w st JCL_OK)"
proof -
  obtain N1 N2 where st: "path_vec_is (path_vec st) ps N1" "dir_vec_is (dir_vec st) ds N2" "N = N1 + N2"
    using assms(2) unfolding state_is_def by blast
  have h: "heap_is (mem w) (N1 + (N2 + M))" using assms(3) st(3) by (simp only: ac_simps)
  have cnt: "pv_count (path_vec st) = 0 \<longleftrightarrow> ps = []" using vec_counts(1)[OF st(1)] by (metis length_0_conv unat_0 unat_eq_zero)
  show ?thesis
  proof (cases "ps = []")
    case True
    thus ?thesis using cnt assms(2,3) by (intro step_okI[where w' = w and st' = st and err' = JCL_OK and ps' = ps and ds' = ds and N' = N])
      (auto simp: state_step_unfold step_result_def walk_of_def intro: walk_step.idle)
  next
    case False
    obtain w1 fv e1 where i: "fw_file_vector_init os w zero_file_vec JCL_OK = (w1, fv, e1)" by (metis prod_cases3)
    note c = fvec.init_ok[OF assms(1) h i]
    show ?thesis
    proof (cases "e1 = JCL_OK")
      case e1: False
      hence e: "e1 = JCL_ERR_SYS" "mem w1 = mem w" "fv = zero_file_vec" "open_dirs w1 = open_dirs w" using c by auto
      have "fw_step_cleanup w1 st NULL fv zero_path zero_dir e1 = Ret (w1, st, if ps = [] then 1 else 0, fw_remap e1)"
        using e(3) cnt by (simp add: fw_step_cleanup_def fvec_free_zero path_free_zero dir_free_zero fw_remap_def)
      hence "fw_state_step os w st JCL_OK = Ret (w1, st, step_result ps JCL_ERR_SYS ps, JCL_ERR_SYS)"
        using cnt False i e(1) by (simp add: state_step_unfold step_result_def)
      thus ?thesis using e assms(2,3) False
        by (intro step_okI[where w' = w1 and st' = st and err' = JCL_ERR_SYS and ps' = ps and ds' = ds and N' = N]) (auto simp: walk_of_def intro: walk_step.no_vector)
    next
      case e1: True
      then obtain NF where f: "file_vec_is fv [] NF" "heap_is (mem w1) (NF + (N1 + (N2 + M)))" "open_dirs w1 = open_dirs w" using c by auto
      obtain ps0 pa s where ps: "ps = ps0 @ [(pa, s)]" using False by (metis rev_exhaust surj_pair)
      have h1: "heap_is (mem w1) (N1 + (NF + (N2 + M)))" using f(2) by (simp only: ac_simps)
      obtain w2 pv N1' where p: "fw_path_vector_pop w1 (path_vec st) zero_path JCL_OK = Ret (w2, pv, path_of (pa, s), JCL_OK)"
        "open_dirs w2 = open_dirs w1" "path_vec_is pv ps0 N1'" "heap_is (mem w2) (N1' + (path_cells (pa, s) + (NF + (N2 + M))))"
        using path_pop_ok[OF st(1)[unfolded ps] h1, of zero_path] by blast
      define st1 where "st1 = st\<lparr>path_vec := pv\<rparr>"
      have s1: "path_vec_is (path_vec st1) ps0 N1'" "dir_vec_is (dir_vec st1) ds N2" using p(3) st(2) by (simp_all add: st1_def)
      have h2: "heap_is (mem w2) (N1' + (N2 + (NF + (path_cells (pa, s) + M))))" using p(4) by (simp only: ac_simps)
      have fits: "path_fits (pa, s)" using st(1) ps by (auto simp: path_vec_is_def)
      have "heap_is (mem w2) (add_mset (pa, Str s) (N1' + (N2 + (NF + M))))" using h2 by (simp add: ac_simps)
      hence "mem w2 pa = Some (Str s)" using heap_is_cell by blast
      hence deref: "deref_str (strs (mem w2)) pa = Ret s" by (simp add: deref_str_def strs_Str)
      obtain w3 sd ents e' e3 where o: "fw_opendir os w2 s JCL_OK = (w3, sd, ents, e', e3)" by (metis prod_cases5)
      obtain d e where od: "os_opendir os w2 s = (d, e, ents, e')" "mem w3 = mem w2"
        "if d = NULL then sd = NULL \<and> e3 = snd (jcl_opendir NULL e JCL_OK) \<and> e3 \<noteq> JCL_OK \<and> open_dirs w3 = open_dirs w2
         else sd = d \<and> e3 = JCL_OK \<and> d \<notin> open_dirs w2 \<and> open_dirs w3 = insert d (open_dirs w2) \<and> s \<noteq> []
           \<and> (\<forall>x \<in> set ents. length (d_name x) < 2 ^ 63)"
        using opendir_cases[OF assms(1) o] by blast
      have nz: "pv_count (path_vec st) \<noteq> 0" "deref_str (strs (mem w2)) (path_str (path_of (pa, s))) = Ret s"
        using cnt False deref by simp_all
      note step = state_step_eq[OF nz(1) i[unfolded e1] p(1) nz(2) o, folded st1_def, unfolded Let_def]
      have h3: "heap_is (mem w3) (N1' + (N2 + (NF + (path_cells (pa, s) + M))))" using h2 od(2) by simp
      have dirs: "open_dirs w2 = open_dirs w" using p(2) f(3) by simp
      show ?thesis
      proof (cases "d = NULL")
        case True
        hence t: "sd = NULL" "e3 = snd (jcl_opendir NULL e JCL_OK)" "e3 \<noteq> JCL_OK" "open_dirs w3 = open_dirs w2" using od(3) by auto
        have ws: "walk_step os (walk_of ps ds) (fw_remap e3) (walk_of ps0 ds)"
          unfolding t(2) using walk_step.not_opened[OF od(1)[unfolded True]] by (simp add: walk_of_def ps)
        have "step_ok os w ps ds M (fw_step_cleanup w3 st1 sd fv (path_of (pa, s)) zero_dir e3)"
          by (rule step_failed[OF f(1) s1 h3 disjI2[OF conjI[OF refl refl]] disjI1[OF t(1)] _ t(3) remap_failed[OF t(3)] False ws])
            (use t dirs in simp_all)
        thus ?thesis unfolding step using t(3) by simp
      next
        case d: False
        hence t: "sd = d" "e3 = JCL_OK" "d \<notin> open_dirs w" "open_dirs w3 = insert d (open_dirs w)" "s \<noteq> []"
          "\<forall>x \<in> set ents. length (d_name x) < 2 ^ 63" using od(3) dirs by auto
        show ?thesis using step_opened[OF assms(1) f(1) s1 fits od(1) d t(5,3,4,6) h3] unfolding step ps t(1,2) by simp
      qed
    qed
  qed
qed

end
