(* ===== verification/Fw_Walker.thy ===== *)
theory Fw_Walker
  imports Fw_Step
begin

text \<open>
  The walker behind its pointer: creation, step, destruction and the record.  \<open>walker w p ps ds M\<close> says that
  \<open>p\<close> points to a walker with pending paths \<open>ps\<close> and recorded directories \<open>ds\<close>, and that \<open>M\<close> is all else that
  is in memory; \<open>record_is\<close> says the same of a finished record.
\<close>

section \<open>The walker in memory\<close>

definition walker :: "fw_world \<Rightarrow> addr \<Rightarrow> gpath list \<Rightarrow> gdir list \<Rightarrow> fw_cell multiset \<Rightarrow> bool" where
  "walker w p ps ds M \<longleftrightarrow> (\<exists>st N. state_is st ps ds N \<and> heap_is (mem w) (add_mset (p, State st) (N + M)))"

definition record_is :: "jfs_fw_record \<Rightarrow> gdir list \<Rightarrow> fw_cell multiset \<Rightarrow> bool" where
  "record_is r ds N \<longleftrightarrow> ds \<noteq> [] \<and> (\<forall>d \<in> set ds. dir_fits d) \<and> length ds < 2 ^ 64 \<and> rec_dir_count r = of_nat (length ds)
     \<and> N = add_mset (rec_dir_array r, Dirs (map (\<lambda>d. Some (dir_of d)) ds)) (sum_list (map dir_cells ds))"

lemma load_state_cell: "heap_is (mem w) (add_mset (p, State st) M) \<Longrightarrow> load_state w p = Ret st"
  using heap_is_cell[of "mem w" p "State st" M] by (simp add: load_state_def)

lemma heap_frame: "heap_is h (add_mset x (N + M)) \<longleftrightarrow> heap_is h (N + add_mset x M)"
  by simp

section \<open>Step\<close>

lemma fw_step_ok:
  assumes "os_ok os" "walker w p ps ds M"
  shows "\<exists>w' err' ps' ds'. jfs_fw_state_step os w p JCL_OK = Ret (w', step_result ps err' ps', err') \<and> open_dirs w' = open_dirs w
    \<and> walker w' p ps' ds' M \<and> walk_step os (walk_of ps ds) err' (walk_of ps' ds')"
proof -
  obtain st N where st: "state_is st ps ds N" "heap_is (mem w) (add_mset (p, State st) (N + M))"
    using assms(2) unfolding walker_def by blast
  have h: "heap_is (mem w) (N + add_mset (p, State st) M)" using st(2) by simp
  obtain w1 st' r err' ps' ds' N' where s: "fw_state_step os w st JCL_OK = Ret (w1, st', r, err')" "open_dirs w1 = open_dirs w"
    "state_is st' ps' ds' N'" "heap_is (mem w1) (N' + add_mset (p, State st) M)" "walk_step os (walk_of ps ds) err' (walk_of ps' ds')"
    "r = step_result ps err' ps'"
    using state_step_ok[OF assms(1) st(1) h] unfolding step_ok_def by (elim exE conjE) (rule that)
  have "heap_is (mem w1) (add_mset (p, State st) (N' + M))" using s(4) by simp
  hence "heap_is (mem (put w1 p (State st'))) (add_mset (p, State st') (N' + M))" using heap_is_update by simp
  hence "walker (put w1 p (State st')) p ps' ds' M" using s(3) unfolding walker_def by blast
  moreover have "jfs_fw_state_step os w p JCL_OK = Ret (put w1 p (State st'), step_result ps err' ps', err')"
    using load_state_cell[OF st(2)] s(1,6) by (simp add: jfs_fw_state_step_def)
  ultimately show ?thesis using s(2,5) by (metis put_simps(2))
qed

section \<open>Destruction\<close>

lemma fw_destroy_ok:
  assumes "walker w p ps ds M"
  shows "\<exists>w'. jfs_fw_state_destroy w p = Ret w' \<and> heap_is (mem w') M \<and> open_dirs w' = open_dirs w"
proof -
  obtain st N1 N2 where st: "path_vec_is (path_vec st) ps N1" "dir_vec_is (dir_vec st) ds N2" "heap_is (mem w) (add_mset (p, State st) (N1 + N2 + M))"
    using assms unfolding walker_def state_is_def by blast
  have "heap_is (mem w) (N1 + (N2 + add_mset (p, State st) M))" using st(3) by (simp add: add.assoc)
  then obtain w1 where w1: "fw_path_vector_free w (path_vec st) = Ret (w1, zero_path_vec)" "heap_is (mem w1) (N2 + add_mset (p, State st) M)"
    "open_dirs w1 = open_dirs w" using pvec.vfree_ok[OF st(1)] unfolding zero_vecs by blast
  obtain w2 where w2: "fw_dir_vector_free w1 (dir_vec st) = Ret (w2, zero_dir_vec)" "heap_is (mem w2) (add_mset (p, State st) M)"
    "open_dirs w2 = open_dirs w1" using dvec.vfree_ok[OF st(2) w1(2)] unfolding zero_vecs by blast
  show ?thesis using load_state_cell[OF st(3)] w1 w2 free_obj_cell[OF w2(2)] heap_is_cell[OF w2(2)]
    by (simp add: jfs_fw_state_destroy_def)
qed

section \<open>Creation\<close>

text \<open>
  When one of the two vectors cannot be allocated, \<open>jfs_fw_state_create\<close> frees vectors of the fresh struct
  that have not been initialised.  \<open>vectors_allocated\<close> says that this does not happen: if the block of the
  struct is allocated, then so are the first blocks of both vectors.
\<close>

definition vectors_allocated :: "fw_os \<Rightarrow> jfs_fw_state \<Rightarrow> fw_world \<Rightarrow> bool" where
  "vectors_allocated os junk w =
     (case malloc_obj os w sizeof_state (State junk) JCL_OK of (w, _, err) \<Rightarrow>
        err = JCL_OK \<longrightarrow>
          (case fw_path_vector_init os w (path_vec junk) JCL_OK of (w, _, err) \<Rightarrow>
             err = JCL_OK \<and> snd (snd (fw_dir_vector_init os w (dir_vec junk) JCL_OK)) = JCL_OK))"

lemma dir_vec_free_null: "dir_array dv = NULL \<Longrightarrow> fw_dir_vector_free w dv = Ret (w, zero_dir_vec)"
  by (simp add: fw_dir_vector_free_def)

text \<open>The clean-up once both vectors are initialised.\<close>

lemma create_cleanup_ok:
  assumes "path_vec_is (path_vec st) ps N1" and "dir_vec_is (dir_vec st) ds N2"
    and "np = zero_path \<and> NP = {#} \<or> np = path_of g \<and> NP = path_cells g" "heap_is (mem w) (add_mset (p, State st0) (N1 + (N2 + (NP + M))))"
  shows "\<exists>w'. fw_state_create_cleanup w p st np err = Ret (w', NULL, err) \<and> heap_is (mem w') M \<and> open_dirs w' = open_dirs w"
proof -
  have "heap_is (mem w) (N2 + (N1 + (NP + add_mset (p, State st0) M)))" using assms(4) by (simp add: ac_simps)
  then obtain w1 where w1: "fw_dir_vector_free w (dir_vec st) = Ret (w1, zero_dir_vec)" "heap_is (mem w1) (N1 + (NP + add_mset (p, State st0) M))"
    "open_dirs w1 = open_dirs w" using dvec.vfree_ok[unfolded zero_vecs] assms(2) by blast
  obtain w2 where w2: "fw_path_vector_free w1 (path_vec st) = Ret (w2, zero_path_vec)" "heap_is (mem w2) (NP + add_mset (p, State st0) M)"
    "open_dirs w2 = open_dirs w1" using w1(2) assms(1) pvec.vfree_ok[unfolded zero_vecs] by blast
  have h2: "heap_is (mem w2) (add_mset (p, State st0) (NP + M))" using w2(2) by simp
  define w3 where "w3 = w2\<lparr>mem := (mem w2)(p := None)\<rparr>"
  have w3: "free_obj w2 p = Ret w3" "heap_is (mem w3) (NP + M)" "open_dirs w3 = open_dirs w2"
    using free_obj_cell[OF h2] by (simp_all add: w3_def)
  obtain w4 where "fw_path_free w3 np = Ret (w4, zero_path)" "heap_is (mem w4) M" "open_dirs w4 = open_dirs w3"
    using w3(2) assms(3) path_free_zero path_free_ok by (metis add_0)
  thus ?thesis using w1 w2 w3 heap_is_cell[OF h2] by (simp add: fw_state_create_cleanup_def)
qed

text \<open>What \<open>jfs_fw_state_create\<close> does once both vectors are there.\<close>

definition create_rest :: "fw_os \<Rightarrow> fw_world \<Rightarrow> addr \<Rightarrow> jfs_fw_state \<Rightarrow> jfs_fio_path \<Rightarrow> jcl_err \<Rightarrow> (fw_world \<times> addr \<times> jcl_err) run" where
  "create_rest os w state st start_path err =
     run_bind (deref_str (strs (mem w)) (path_str start_path)) (\<lambda>s.
        case fw_path_init os w zero_path s err of (w, new_path, err) \<Rightarrow>
      if err \<noteq> JCL_OK then fw_state_create_cleanup w state st new_path err
      else run_bind (fw_path_vector_push os w (path_vec st) new_path err) (\<lambda>(w, pv, new_path, err).
        let st = st\<lparr>path_vec := pv\<rparr> in
      if err \<noteq> JCL_OK then fw_state_create_cleanup w state st new_path err
      else Ret (put w state (State st), state, err)))"

definition create_ok :: "fw_world \<Rightarrow> string \<Rightarrow> fw_cell multiset \<Rightarrow> (fw_world \<times> addr \<times> jcl_err) run \<Rightarrow> bool" where
  "create_ok w s M res \<longleftrightarrow> (\<exists>w' p err'. res = Ret (w', p, err') \<and> open_dirs w' = open_dirs w
     \<and> (if err' = JCL_OK then length (trim_slash s) \<le> 4096 \<and> (\<exists>a. walker w' p [(a, trim_slash s)] [] M)
        else p = NULL \<and> heap_is (mem w') M \<and> (err' = JCL_ERR_SYS \<or> err' = JCL_ERR_FIO_PATH_LEN \<and> length (trim_slash s) > 4096)))"

lemma create_okI:
  "res = Ret (w', p, JCL_OK) \<Longrightarrow> open_dirs w' = open_dirs w \<Longrightarrow> length (trim_slash s) \<le> 4096 \<Longrightarrow> walker w' p [(a, trim_slash s)] [] M \<Longrightarrow>
   create_ok w s M res"
  unfolding create_ok_def by auto

lemma create_failedI:
  "\<exists>w'. res = Ret (w', NULL, err) \<and> heap_is (mem w') M \<and> open_dirs w' = open_dirs w1 \<Longrightarrow> open_dirs w1 = open_dirs w \<Longrightarrow>
   err = JCL_ERR_SYS \<or> err = JCL_ERR_FIO_PATH_LEN \<and> length (trim_slash s) > 4096 \<Longrightarrow> create_ok w s M res"
  unfolding create_ok_def by auto

lemma create_rest_ok:
  assumes "os_ok os" "length s < 2 ^ 63" "(path_str sp, Str s) \<in># M" "path_vec_is (path_vec st) [] N1" "dir_vec_is (dir_vec st) [] N2"
    and "heap_is (mem w1) (add_mset (p, State st0) (N1 + (N2 + M)))" "open_dirs w1 = open_dirs w"
  shows "create_ok w s M (create_rest os w1 p st sp JCL_OK)"
proof -
  let ?R = "add_mset (p, State st0) (N1 + (N2 + M))"
  have deref: "deref_str (strs (mem w1)) (path_str sp) = Ret s"
    using heap_is_lookup[OF assms(6), of "path_str sp" "Str s"] assms(3) strs_Str by (simp add: deref_str_def)
  obtain w2 np e where i: "fw_path_init os w1 zero_path s JCL_OK = (w2, np, e)" by (metis prod_cases3)
  note c = path_init_cells[OF assms(1,6,2) i]
  show ?thesis
  proof (cases "e = JCL_OK")
    case False
    hence e: "mem w2 = mem w1" "np = zero_path" "open_dirs w2 = open_dirs w" "e = (if length (trim_slash s) > 4096 then JCL_ERR_FIO_PATH_LEN else JCL_ERR_SYS)"
      using c assms(7) by auto
    have h: "heap_is (mem w2) (add_mset (p, State st0) (N1 + (N2 + ({#} + M))))" using assms(6) e(1) by simp
    from create_failedI[OF create_cleanup_ok[OF assms(4,5) disjI1[OF conjI[OF e(2) refl]] h] e(3)]
    have "create_ok w s M (fw_state_create_cleanup w2 p st np e)" using e(4) by auto
    thus ?thesis using deref i False by (simp add: create_rest_def)
  next
    case True
    then obtain a where a: "np = path_of (a, trim_slash s)" "heap_is (mem w2) (add_mset (a, Str (trim_slash s)) ?R)" "open_dirs w2 = open_dirs w"
      "length (trim_slash s) \<le> 4096" using c assms(7) by (auto split: if_splits)
    let ?g = "(a, trim_slash s)"
    have h: "heap_is (mem w2) (N1 + path_cells ?g + add_mset (p, State st0) (N2 + M))"
      using a(2) by (simp add: ac_simps add_mset_commute)
    have fits: "path_fits ?g" using a(4) by simp
    obtain w3 pv np3 e3 where q: "fw_path_vector_push os w2 (path_vec st) np JCL_OK = Ret (w3, pv, np3, e3)" "open_dirs w3 = open_dirs w2"
      "e3 = JCL_OK \<and> np3 = zero_path \<and> (\<exists>N'. path_vec_is pv ([] @ [?g]) N' \<and> heap_is (mem w3) (N' + add_mset (p, State st0) (N2 + M)))
       \<or> e3 = JCL_ERR_SYS \<and> np3 = np \<and> pv = path_vec st \<and> mem w3 = mem w2"
      using pvec.push_ok[OF assms(1,4) fits h] unfolding a(1) by blast
    have eq: "create_rest os w1 p st sp JCL_OK = (if e3 \<noteq> JCL_OK then fw_state_create_cleanup w3 p (st\<lparr>path_vec := pv\<rparr>) np3 e3
        else Ret (put w3 p (State (st\<lparr>path_vec := pv\<rparr>)), p, e3))" using deref i True q(1) by (simp add: create_rest_def Let_def)
    show ?thesis
    proof (cases "e3 = JCL_OK")
      case ok: True
      then obtain N' where N': "path_vec_is pv [?g] N'" "heap_is (mem w3) (add_mset (p, State st0) (N' + (N2 + M)))" using q(3) by auto
      have "heap_is (mem (put w3 p (State (st\<lparr>path_vec := pv\<rparr>)))) (add_mset (p, State (st\<lparr>path_vec := pv\<rparr>)) (N' + N2 + M))"
        using heap_is_update[OF N'(2)] by (simp add: add.assoc)
      moreover have "state_is (st\<lparr>path_vec := pv\<rparr>) [?g] [] (N' + N2)" using N'(1) assms(5) by (auto simp: state_is_def)
      ultimately have "walker (put w3 p (State (st\<lparr>path_vec := pv\<rparr>))) p [?g] [] M" unfolding walker_def by blast
      thus ?thesis unfolding eq using ok q(2) a(3,4) by (auto intro!: create_okI)
    next
      case False
      hence e3: "e3 = JCL_ERR_SYS" "np3 = path_of ?g" "pv = path_vec st" "mem w3 = mem w2" "open_dirs w3 = open_dirs w" using q(2,3) a(1,3) by auto
      have h3: "heap_is (mem w3) (add_mset (p, State st0) (N1 + (N2 + (path_cells ?g + M))))" using a(2) e3(4) by (simp add: ac_simps add_mset_commute)
      from create_failedI[OF create_cleanup_ok[OF assms(4,5) disjI2[OF conjI[OF e3(2) refl]] h3] e3(5)]
      have "create_ok w s M (fw_state_create_cleanup w3 p st np3 e3)" using e3(1) by auto
      thus ?thesis unfolding eq using False e3(3) by simp
    qed
  qed
qed

lemma create_unfold:
  "jfs_fw_state_create os junk w start_path err =
     (case malloc_obj os w sizeof_state (State junk) err of (w, state, err) \<Rightarrow>
      if err \<noteq> JCL_OK then fw_state_create_cleanup w state junk zero_path err
      else case fw_path_vector_init os w (path_vec junk) err of (w, pv, err) \<Rightarrow>
        let st = junk\<lparr>path_vec := pv\<rparr> in
      if err \<noteq> JCL_OK then fw_state_create_cleanup w state st zero_path err
      else case fw_dir_vector_init os w (dir_vec st) err of (w, dv, err) \<Rightarrow>
        let st = st\<lparr>dir_vec := dv\<rparr> in
      if err \<noteq> JCL_OK then fw_state_create_cleanup w state st zero_path err
      else create_rest os w state st start_path err)"
  unfolding jfs_fw_state_create_def create_rest_def ..

lemma fw_create_ok:
  assumes "os_ok os" "vectors_allocated os junk w" "heap_is (mem w) M" "(path_str sp, Str s) \<in># M" "length s < 2 ^ 63"
  shows "create_ok w s M (jfs_fw_state_create os junk w sp JCL_OK)"
proof -
  obtain w1 p e1 where m: "malloc_obj os w sizeof_state (State junk) JCL_OK = (w1, p, e1)" by (metis prod_cases3)
  note c1 = malloc_obj_cases[OF assms(1,3) m]
  show ?thesis
  proof (cases "e1 = JCL_OK")
    case False
    thus ?thesis using m c1 assms(3) by (auto simp: create_unfold fw_state_create_cleanup_def path_free_zero intro!: create_failedI)
  next
    case e1: True
    hence h1: "heap_is (mem w1) (add_mset (p, State junk) M)" "open_dirs w1 = open_dirs w" using c1 by auto
    obtain w2 pv e2 where v: "fw_path_vector_init os w1 (path_vec junk) JCL_OK = (w2, pv, e2)" by (metis prod_cases3)
    define st1 where "st1 = junk\<lparr>path_vec := pv\<rparr>"
    obtain w3 dv e3 where d: "fw_dir_vector_init os w2 (dir_vec st1) JCL_OK = (w3, dv, e3)" by (metis prod_cases3)
    define st2 where "st2 = st1\<lparr>dir_vec := dv\<rparr>"
    have ok: "e2 = JCL_OK" "e3 = JCL_OK" using assms(2) m v d e1 by (simp_all add: vectors_allocated_def st1_def)
    obtain N1 where N1: "path_vec_is (path_vec st1) [] N1" "heap_is (mem w2) (N1 + add_mset (p, State junk) M)" "open_dirs w2 = open_dirs w"
      using pvec.init_ok[OF assms(1) h1(1) v] ok(1) h1(2) by (auto simp: st1_def)
    obtain N2 where N2: "dir_vec_is (dir_vec st2) [] N2" "heap_is (mem w3) (N2 + (N1 + add_mset (p, State junk) M))" "open_dirs w3 = open_dirs w"
      using dvec.init_ok[OF assms(1) N1(2) d] ok(2) N1(3) by (auto simp: st2_def)
    have "path_vec_is (path_vec st2) [] N1" "heap_is (mem w3) (add_mset (p, State junk) (N1 + (N2 + M)))"
      using N1(1) N2(2) by (simp_all add: st2_def ac_simps)
    from create_rest_ok[OF assms(1,5,4) this(1) N2(1) this(2) N2(3)]
    show ?thesis using m v d e1 ok unfolding st2_def st1_def by (simp add: create_unfold Let_def)
  qed
qed

text \<open>A creation that succeeds has allocated both vectors: the clean-up keeps the error.\<close>

lemma cleanup_keeps_error: "fw_state_create_cleanup w p st np err = Ret (w', q, err') \<Longrightarrow> err' = err"
  by (auto simp: fw_state_create_cleanup_def run_bind_Ret_iff split_beta)

lemma created_allocated:
  assumes "jfs_fw_state_create os junk w sp JCL_OK = Ret (w', p, JCL_OK)"
  shows "vectors_allocated os junk w"
proof -
  obtain w1 q e1 where m: "malloc_obj os w sizeof_state (State junk) JCL_OK = (w1, q, e1)" by (metis prod_cases3)
  obtain w2 pv e2 where v: "fw_path_vector_init os w1 (path_vec junk) JCL_OK = (w2, pv, e2)" by (metis prod_cases3)
  obtain w3 dv e3 where d: "fw_dir_vector_init os w2 (dir_vec junk) JCL_OK = (w3, dv, e3)" by (metis prod_cases3)
  show ?thesis using assms cleanup_keeps_error m v d
    by (fastforce simp: vectors_allocated_def create_unfold Let_def split: if_splits)
qed

section \<open>The record\<close>

definition record_ok :: "fw_world \<Rightarrow> jfs_fw_record \<Rightarrow> addr \<Rightarrow> gpath list \<Rightarrow> gdir list \<Rightarrow> fw_cell multiset \<Rightarrow> (fw_world \<times> jfs_fw_record \<times> jcl_err) run \<Rightarrow> bool" where
  "record_ok w r0 p ps ds M res \<longleftrightarrow> (\<exists>w' r err'. res = Ret (w', r, err') \<and> open_dirs w' = open_dirs w
     \<and> (if err' = JCL_OK then ps = [] \<and> ds \<noteq> [] \<and> (\<exists>N. record_is r ds N \<and> heap_is (mem w') (N + M))
        else r = r0 \<and> walker w' p ps ds M
          \<and> err' = (if ps \<noteq> [] then JCL_ERR_FW_STATE else if ds = [] then JCL_ERR_EMPTY else JCL_ERR_SYS)))"

lemma record_keptI:
  "res = Ret (w', r0, err') \<Longrightarrow> open_dirs w' = open_dirs w \<Longrightarrow> walker w' p ps ds M \<Longrightarrow> err' \<noteq> JCL_OK \<Longrightarrow>
   err' = (if ps \<noteq> [] then JCL_ERR_FW_STATE else if ds = [] then JCL_ERR_EMPTY else JCL_ERR_SYS) \<Longrightarrow> record_ok w r0 p ps ds M res"
  unfolding record_ok_def by auto

lemma fw_record_init_ok:
  assumes "os_ok os" "walker w p ps ds M"
  shows "record_ok w r0 p ps ds M (jfs_fw_record_init os w r0 p JCL_OK)"
proof -
  obtain st N1 N2 where st: "path_vec_is (path_vec st) ps N1" "dir_vec_is (dir_vec st) ds N2" "heap_is (mem w) (add_mset (p, State st) (N1 + N2 + M))"
    using assms(2) unfolding walker_def state_is_def by blast
  note load = load_state_cell[OF st(3)]
  have cnt: "pv_count (path_vec st) > 0 \<longleftrightarrow> ps \<noteq> []" using vec_counts(1)[OF st(1)] by (simp add: word_less_nat_alt)
  have same: "walker (w'\<lparr>mem := (mem w')(p \<mapsto> State st)\<rparr>) p ps ds M" if "mem w' = mem w" for w'
    using heap_is_update[OF st(3)] st(1,2) that unfolding walker_def state_is_def by fastforce
  show ?thesis
  proof (cases "ps = []")
    case False
    thus ?thesis using load cnt assms(2) by (intro record_keptI[where w' = w]) (simp_all add: jfs_fw_record_init_def)
  next
    case ps: True
    show ?thesis
    proof (cases "ds = []")
      case True
      have "fw_dir_vector_to_array os w (dir_vec st) JCL_OK = Ret (w, NULL, dir_vec st, JCL_ERR_EMPTY)"
        using dvec.to_array_empty[OF st(2)[unfolded True]] .
      thus ?thesis using load cnt ps True same[OF refl]
        by (intro record_keptI[where w' = "put w p (State st)"]) (simp_all add: jfs_fw_record_init_def put_def)
    next
      case ds: False
      let ?M = "N1 + add_mset (p, State st) M"
      have h: "heap_is (mem w) (N2 + ?M)" using st(3) by (simp add: ac_simps)
      obtain w1 a dv e where t: "fw_dir_vector_to_array os w (dir_vec st) JCL_OK = Ret (w1, a, dv, e)" "open_dirs w1 = open_dirs w"
        "e = JCL_OK \<and> dv = zero_dir_vec \<and> a \<noteq> NULL \<and> heap_is (mem w1) (add_mset (a, Dirs (map (\<lambda>d. Some (dir_of d)) ds)) (sum_list (map dir_cells ds) + ?M))
         \<or> e = JCL_ERR_SYS \<and> a = NULL \<and> dv = dir_vec st \<and> mem w1 = mem w"
        using dvec.to_array_ok[OF assms(1) st(2) h ds] unfolding zero_vecs by (elim exE conjE) (rule that)
      show ?thesis
      proof (cases "e = JCL_OK")
        case False
        hence "e = JCL_ERR_SYS" "dv = dir_vec st" "mem w1 = mem w" using t(3) by auto
        thus ?thesis using load cnt ps ds t(1,2) same[of w1]
          by (intro record_keptI[where w' = "put w1 p (State st)"]) (simp_all add: jfs_fw_record_init_def put_def)
      next
        case True
        define N where "N = add_mset (a, Dirs (map (\<lambda>d. Some (dir_of d)) ds)) (sum_list (map dir_cells ds))"
        define st1 where "st1 = st\<lparr>dir_vec := zero_dir_vec\<rparr>"
        have e: "dv = zero_dir_vec" "heap_is (mem w1) (add_mset (p, State st) (N1 + (N + M)))" using t(3) True by (auto simp: N_def ac_simps add_mset_commute)
        define w2 where "w2 = put w1 p (State st1)"
        have h2: "heap_is (mem w2) (add_mset (p, State st1) (N1 + (N + M)))" using heap_is_update[OF e(2)] by (simp add: w2_def)
        hence h2': "heap_is (mem w2) (N1 + add_mset (p, State st1) (N + M))" by simp
        have p1: "path_vec_is (path_vec st1) ps N1" using st(1) by (simp add: st1_def)
        obtain w3 where w3: "fw_path_vector_free w2 (path_vec st1) = Ret (w3, zero_path_vec)" "heap_is (mem w3) (add_mset (p, State st1) (N + M))"
          "open_dirs w3 = open_dirs w2" using pvec.vfree_ok[OF p1 h2'] unfolding zero_vecs by blast
        have z: "fw_dir_vector_free w3 (dir_vec st1) = Ret (w3, zero_dir_vec)" by (rule dir_vec_free_null) (simp add: st1_def zero_dir_vec_def)
        define w4 where "w4 = w3\<lparr>mem := (mem w3)(p := None)\<rparr>"
        have w4: "jfs_fw_state_destroy w2 p = Ret w4" "heap_is (mem w4) (N + M)" "open_dirs w4 = open_dirs w"
          using load_state_cell[OF h2] w3 z free_obj_cell[OF w3(2)] heap_is_cell[OF h2] t(2)
          by (simp_all add: jfs_fw_state_destroy_def w4_def w2_def)
        have "length ds < 2 ^ 64" "dv_count (dir_vec st) = of_nat (length ds)" "\<forall>d \<in> set ds. dir_fits d"
          using vec_counts(3)[OF st(2)] unat_lt64[of "dv_count (dir_vec st)"] st(2) by (auto simp: dir_vec_is_def)
        hence "record_is \<lparr>rec_dir_count = dv_count (dir_vec st), rec_dir_array = a\<rparr> ds N" using ds by (simp add: record_is_def N_def)
        moreover have "jfs_fw_record_init os w r0 p JCL_OK = Ret (w4, \<lparr>rec_dir_count = dv_count (dir_vec st), rec_dir_array = a\<rparr>, JCL_OK)"
          using load cnt ps t(1) True e(1) w4(1) by (simp add: jfs_fw_record_init_def w2_def st1_def Let_def)
        ultimately show ?thesis using w4(2,3) ps ds unfolding record_ok_def by auto
      qed
    qed
  qed
qed

lemma fw_record_free_ok:
  assumes "record_is r ds N" "heap_is (mem w) (N + M)"
  shows "\<exists>w'. jfs_fw_record_free w r = Ret (w', \<lparr>rec_dir_count = 0, rec_dir_array = NULL\<rparr>) \<and> heap_is (mem w') M \<and> open_dirs w' = open_dirs w"
proof -
  let ?blk = "map (\<lambda>d. Some (dir_of d)) ds"
  have h: "heap_is (mem w) (add_mset (rec_dir_array r, Dirs ?blk) (sum_list (map dir_cells ds) + M))"
    using assms by (simp add: record_is_def)
  have "unat (rec_dir_count r) = length ds" "\<forall>d \<in> set ds. dir_fits d" using assms(1) unat_of_nat_64[of "length ds"] by (simp_all add: record_is_def)
  moreover obtain w1 blk1 where "free_dirs (length ds) w (rec_dir_array r) 0 = Ret w1" "heap_is (mem w1) (add_mset (rec_dir_array r, Dirs blk1) M)"
    "open_dirs w1 = open_dirs w" using dvec.loop_ok[OF h, of 0] calculation(2) by auto
  moreover from this(2) have "rec_dir_array r \<noteq> NULL" using heap_is_cell by blast
  ultimately show ?thesis using free_obj_cell[of w1 "rec_dir_array r" "Dirs blk1" M] by (simp add: jfs_fw_record_free_def)
qed

end
