(* ===== verification/File_Walk.thy ===== *)
theory File_Walk
  imports Fw_Walker
begin

text \<open>
  Whole walks: runs of \<open>jfs_fw_state_step\<close> by a client that resets \<open>*err\<close> before every call.  They never
  fault and lose no memory; they end; and on a file system that does not change, a run without errors records
  every directory that can be reached from the start, once, with its entries.
\<close>

section \<open>Runs\<close>

fun fw_steps :: "nat \<Rightarrow> fw_os \<Rightarrow> fw_world \<Rightarrow> addr \<Rightarrow> (fw_world \<times> jcl_err list) run" where
  "fw_steps 0 os w p = Ret (w, [])"
| "fw_steps (Suc n) os w p = run_bind (jfs_fw_state_step os w p JCL_OK) (\<lambda>(w, r, err).
     run_bind (fw_steps n os w p) (\<lambda>(w, errs). Ret (w, err # errs)))"

inductive walk_run :: "fw_os \<Rightarrow> walk \<Rightarrow> jcl_err list \<Rightarrow> walk \<Rightarrow> bool" for os where
  stop: "walk_run os x [] x"
| step: "walk_step os x err y \<Longrightarrow> walk_run os y errs z \<Longrightarrow> walk_run os x (err # errs) z"

lemma fw_steps_ok:
  assumes "os_ok os" "walker w p ps ds M"
  shows "\<exists>w' errs ps' ds'. fw_steps n os w p = Ret (w', errs) \<and> open_dirs w' = open_dirs w \<and> walker w' p ps' ds' M
    \<and> walk_run os (walk_of ps ds) errs (walk_of ps' ds') \<and> length errs = n"
  using assms(2)
proof (induction n arbitrary: w ps ds)
  case 0
  thus ?case using walk_run.stop by fastforce
next
  case (Suc n)
  obtain w1 e ps1 ds1 where s: "jfs_fw_state_step os w p JCL_OK = Ret (w1, step_result ps e ps1, e)" "open_dirs w1 = open_dirs w"
    "walker w1 p ps1 ds1 M" "walk_step os (walk_of ps ds) e (walk_of ps1 ds1)"
    using fw_step_ok[OF assms(1) Suc.prems] by blast
  obtain w2 errs ps2 ds2 where r: "fw_steps n os w1 p = Ret (w2, errs)" "open_dirs w2 = open_dirs w1" "walker w2 p ps2 ds2 M"
    "walk_run os (walk_of ps1 ds1) errs (walk_of ps2 ds2)" "length errs = n" using Suc.IH[OF s(3)] by blast
  have "fw_steps (Suc n) os w p = Ret (w2, e # errs)" using s(1) r(1) by simp
  thus ?case using walk_run.step[OF s(4) r(4)] r(2,3,5) s(2) by (metis length_Cons)
qed

lemma heap_is_unique: "heap_is h M \<Longrightarrow> heap_is h' M \<Longrightarrow> h = h'"
  unfolding heap_is_def by (intro ext) (metis option.exhaust)

lemma world_heap: "mem w NULL = None \<Longrightarrow> \<exists>M. heap_is (mem w) M"
  using heap_is_exists by blast

section \<open>Termination\<close>

text \<open>The pending paths get longer, and no path is longer than \<open>PATH_MAX\<close>: they decrease in the multiset order.\<close>

definition names_ok :: "fw_os \<Rightarrow> bool" where
  "names_ok os \<longleftrightarrow> (\<forall>w s d e ents e'. os_opendir os w s = (d, e, ents, e') \<and> d \<noteq> NULL \<longrightarrow>
     (\<forall>x \<in> set ents. d_name x \<noteq> [] \<and> CHR ''/'' \<notin> set (d_name x)))"

lemma names_okD: "names_ok os \<Longrightarrow> os_opendir os w s = (d, e, ents, e') \<Longrightarrow> d \<noteq> NULL \<Longrightarrow>
    \<forall>x \<in> set ents. d_name x \<noteq> [] \<and> CHR ''/'' \<notin> set (d_name x)"
  unfolding names_ok_def by blast

lemma scan_spec_names: "scan_spec ents e = Inr es \<Longrightarrow> set (map fst es) \<subseteq> d_name ` set ents"
proof (induction ents e arbitrary: es rule: scan_spec.induct)
  case (2 x xs e)
  show ?case
  proof (cases "scan_spec xs e")
    case (Inr fs)
    have "set (map fst fs) \<subseteq> d_name ` set xs" using Inr 2 by (cases "d_name x = ''.'' \<or> d_name x = ''..''") (auto split: if_splits)
    thus ?thesis using 2(4) Inr by (force split: if_splits)
  qed (use 2(4) in \<open>auto split: if_splits\<close>)
qed (auto split: if_splits)

lemma child_plain: "n \<noteq> [] \<Longrightarrow> CHR ''/'' \<notin> set n \<Longrightarrow> child s n = s @ CHR ''/'' # n"
proof -
  assume n: "n \<noteq> []" "CHR ''/'' \<notin> set n"
  hence "last n \<noteq> CHR ''/''" using last_in_set by metis
  thus ?thesis using n(1) by (simp add: child_def trim_slash_def)
qed

lemma children_child: "c \<in> set (children s es) \<Longrightarrow> \<exists>n \<in> set (map fst es). c = child s n \<and> length (s @ ''/'' @ n) \<le> 4096"
  by (induction s es rule: children.induct) (auto split: if_splits)

definition pending_weight :: "string list \<Rightarrow> nat multiset" where
  "pending_weight ps = image_mset (\<lambda>p. 4096 - length p) (mset ps)"

lemma weight_decreases:
  assumes "\<forall>x \<in> set xs. length s < length x \<and> length x \<le> 4096"
  shows "(pending_weight (ps @ xs), pending_weight (ps @ [s])) \<in> mult less_than"
proof -
  have "\<forall>k \<in> set xs. 4096 - length k < 4096 - length s" using assms by (metis diff_less_mono2 order_less_le_trans)
  thus ?thesis using one_step_implies_mult[of "{#4096 - length s#}" "image_mset (\<lambda>p. 4096 - length p) (mset xs)" less_than "pending_weight ps"]
    by (simp add: pending_weight_def)
qed

lemma children_longer:
  assumes "names_ok os" "os_opendir os w s = (d, e, ents, e')" "d \<noteq> NULL" "scan_spec ents e' = Inr es"
  shows "\<forall>x \<in> set (children s es). length s < length x \<and> length x \<le> 4096"
proof
  fix c assume "c \<in> set (children s es)"
  then obtain n where n: "n \<in> set (map fst es)" "c = child s n" "length (s @ ''/'' @ n) \<le> 4096" using children_child by blast
  have "n \<in> d_name ` set ents" using n(1) scan_spec_names[OF assms(4)] by blast
  hence "n \<noteq> [] \<and> CHR ''/'' \<notin> set n" using names_okD[OF assms(1-3)] by auto
  thus "length s < length c \<and> length c \<le> 4096" using n(2,3) child_plain by simp
qed

lemma step_decreases:
  assumes "names_ok os" "walk_step os (ps, ds) err (ps', ds')" "err \<noteq> JCL_ERR_SYS" "ps \<noteq> []"
  shows "(pending_weight ps', pending_weight ps) \<in> mult less_than"
  using assms(2)
proof (cases rule: walk_step.cases)
  case (not_opened w s e ents e')
  thus ?thesis using weight_decreases[of "[]"] by simp
next
  case (not_scanned w s d e ents e')
  thus ?thesis using weight_decreases[of "[]"] by simp
next
  case (recorded w s d e ents e' es ps0)
  thus ?thesis using weight_decreases[OF children_longer[OF assms(1)]] by auto
qed (use assms(3,4) in auto)

lemma walker_done: "walker w p [] ds M \<Longrightarrow> \<exists>st. mem w p = Some (State st) \<and> pv_count (path_vec st) = 0"
  unfolding walker_def state_is_def using heap_is_cell vec_counts(1) by (metis list.size(3) unat_eq_zero)

lemma walk_ends:
  assumes "os_ok os" "names_ok os" "walker w p ps ds M" "\<forall>n w' errs. fw_steps n os w p = Ret (w', errs) \<longrightarrow> JCL_ERR_SYS \<notin> set errs"
  shows "\<exists>n w' errs ds'. fw_steps n os w p = Ret (w', errs) \<and> walker w' p [] ds' M"
  using assms(3,4)
proof (induction "pending_weight (map snd ps)" arbitrary: w ps ds rule: wf_induct_rule[OF wf_mult[OF wf_less_than]])
  case 1
  show ?case
  proof (cases "ps = []")
    case True
    have "fw_steps 0 os w p = Ret (w, [])" by simp
    thus ?thesis using 1(2) True by blast
  next
    case False
    obtain w1 e ps1 ds1 where s: "jfs_fw_state_step os w p JCL_OK = Ret (w1, step_result ps e ps1, e)"
      "walker w1 p ps1 ds1 M" "walk_step os (walk_of ps ds) e (walk_of ps1 ds1)"
      using fw_step_ok[OF assms(1) 1(2)] by blast
    have steps: "fw_steps (Suc n) os w p = run_bind (fw_steps n os w1 p) (\<lambda>(w, errs). Ret (w, e # errs))" for n using s(1) by simp
    have "fw_steps (Suc 0) os w p = Ret (w1, [e])" unfolding steps by simp
    hence e: "e \<noteq> JCL_ERR_SYS" using 1(3) by fastforce
    have less: "(pending_weight (map snd ps1), pending_weight (map snd ps)) \<in> mult less_than"
      using step_decreases[OF assms(2) s(3)[unfolded walk_of_def] e] False by simp
    have "\<forall>n w' errs. fw_steps n os w1 p = Ret (w', errs) \<longrightarrow> JCL_ERR_SYS \<notin> set errs"
    proof (intro allI impI)
      fix n w' errs assume "fw_steps n os w1 p = Ret (w', errs)"
      hence "fw_steps (Suc n) os w p = Ret (w', e # errs)" unfolding steps by simp
      thus "JCL_ERR_SYS \<notin> set errs" using 1(3) by fastforce
    qed
    from 1(1)[OF less s(2) this] obtain n w' errs ds' where "fw_steps n os w1 p = Ret (w', errs)" "walker w' p [] ds' M" by blast
    moreover from this(1) have "fw_steps (Suc n) os w p = Ret (w', e # errs)" unfolding steps by simp
    ultimately show ?thesis by blast
  qed
qed

section \<open>Complete walks\<close>

text \<open>A file system that does not change: whenever a directory can be opened and read, \<open>ls\<close> gives its entries.\<close>

definition fs_is :: "fw_os \<Rightarrow> (string \<Rightarrow> entry list) \<Rightarrow> bool" where
  "fs_is os ls \<longleftrightarrow> (\<forall>w s d e ents e' es. os_opendir os w s = (d, e, ents, e') \<and> d \<noteq> NULL \<and> scan_spec ents e' = Inr es \<longrightarrow> es = ls s)
     \<and> (\<forall>s. distinct (map fst (ls s)) \<and> (\<forall>n \<in> set (map fst (ls s)). n \<noteq> [] \<and> CHR ''/'' \<notin> set n))"

definition subdir :: "(string \<Rightarrow> entry list) \<Rightarrow> (string \<times> string) set" where
  "subdir ls = {(s, c). c \<in> set (children s (ls s))}"

definition walk_inv :: "(string \<Rightarrow> entry list) \<Rightarrow> string \<Rightarrow> walk \<Rightarrow> bool" where
  "walk_inv ls s0 x \<longleftrightarrow> (let ps = fst x; ds = snd x; seen = set ps \<union> fst ` set ds in
     s0 \<in> seen \<and> distinct (ps @ map fst ds) \<and> (\<forall>q \<in> seen. (s0, q) \<in> (subdir ls)\<^sup>*)
     \<and> (\<forall>(s, es) \<in> set ds. es = ls s \<and> set (children s es) \<subseteq> seen)
     \<and> (\<forall>q \<in> seen. q = s0 \<or> length s0 < length q \<and> (\<exists>s \<in> fst ` set ds. (s, q) \<in> subdir ls)))"

lemma last_slash: "CHR ''/'' \<notin> set n \<Longrightarrow> CHR ''/'' \<notin> set n' \<Longrightarrow> s @ CHR ''/'' # n = s' @ CHR ''/'' # n' \<Longrightarrow> s = s' \<and> n = n'"
  by (auto simp: append_eq_append_conv2 append_eq_Cons_conv Cons_eq_append_conv)

lemma subdir_plain:
  assumes "fs_is os ls" "(s, c) \<in> subdir ls"
  shows "\<exists>n \<in> set (map fst (ls s)). c = s @ CHR ''/'' # n \<and> CHR ''/'' \<notin> set n \<and> length s < length c"
proof -
  obtain n where n: "n \<in> set (map fst (ls s))" "c = child s n" using assms(2) children_child[of c s "ls s"] by (auto simp: subdir_def)
  moreover have "n \<noteq> []" "CHR ''/'' \<notin> set n" using assms(1) n(1) unfolding fs_is_def by auto
  ultimately show ?thesis using child_plain by auto
qed

lemma subdir_parent: "fs_is os ls \<Longrightarrow> (s, c) \<in> subdir ls \<Longrightarrow> (s', c) \<in> subdir ls \<Longrightarrow> s = s'"
  using subdir_plain last_slash by metis

lemma children_distinct:
  assumes "distinct (map fst es)" "\<forall>n \<in> set (map fst es). n \<noteq> [] \<and> CHR ''/'' \<notin> set n"
  shows "distinct (children s es)"
  using assms
proof (induction s es rule: children.induct)
  case (2 s n t i es)
  have "child s n \<notin> set (children s es)"
  proof
    assume "child s n \<in> set (children s es)"
    then obtain m where "m \<in> set (map fst es)" "child s n = child s m" using children_child by blast
    thus False using 2(3,4) child_plain[of n s] child_plain[of m s] by auto
  qed
  thus ?case using 2 by auto
qed simp

lemma walk_inv_step:
  assumes "fs_is os ls" "walk_inv ls s0 (ps, ds)" "walk_step os (ps, ds) JCL_OK (ps', ds')"
  shows "walk_inv ls s0 (ps', ds')"
  using assms(3)
proof (cases rule: walk_step.cases)
  case idle
  thus ?thesis using assms(2) by simp
next
  case (not_opened w s e ents e')
  have "snd (jcl_opendir NULL e JCL_OK) \<noteq> JCL_OK" by (rule wr_opendir.failure_code) simp
  thus ?thesis using not_opened remap_failed by metis
next
  case (not_scanned w s d e ents e')
  thus ?thesis using scan_spec_error by auto
next
  case (recorded w s d e ents e' es ps0)
  have es: "es = ls s" using assms(1) recorded unfolding fs_is_def by blast
  have eqs: "ps = ps0 @ [s]" "ps' = ps0 @ children s es" "ds' = ds @ [(s, es)]" using recorded by auto
  let ?old = "set (ps0 @ [s]) \<union> fst ` set ds" and ?cs = "children s es"
  note i = assms(2)[unfolded walk_inv_def Let_def eqs(1) fst_conv snd_conv]
  note inv = i[THEN conjunct1] i[THEN conjunct2, THEN conjunct1] i[THEN conjunct2, THEN conjunct2, THEN conjunct1]
    i[THEN conjunct2, THEN conjunct2, THEN conjunct2, THEN conjunct1] i[THEN conjunct2, THEN conjunct2, THEN conjunct2, THEN conjunct2]
  have s: "(s0, s) \<in> (subdir ls)\<^sup>*" "length s0 \<le> length s" "s \<notin> fst ` set ds" using inv(2,3,5) by auto
  have sub: "c \<in> set ?cs \<longleftrightarrow> (s, c) \<in> subdir ls" for c by (simp add: subdir_def es)
  have longer: "length s < length c" if "c \<in> set ?cs" for c using subdir_plain[OF assms(1)] that sub by blast
  have fresh: "c \<notin> ?old" if "c \<in> set ?cs" for c
  proof -
    have "\<not> (\<exists>s' \<in> fst ` set ds. (s', c) \<in> subdir ls)" using subdir_parent[OF assms(1)] that sub s(3) by blast
    moreover have "c \<noteq> s0" using longer[OF that] s(2) by auto
    ultimately show ?thesis using inv(5) by blast
  qed
  have "distinct ?cs" unfolding es using assms(1) unfolding fs_is_def by (intro children_distinct) auto
  hence dist: "distinct (ps' @ map fst ds')" using inv(2) fresh eqs(2,3) by auto
  have new: "(s0, q) \<in> (subdir ls)\<^sup>*" "length s0 < length q" if "q \<in> set ?cs" for q
    using rtrancl.rtrancl_into_rtrancl[OF s(1), of q] s(2) sub that longer[OF that] by simp_all
  have seen: "set ps' \<union> fst ` set ds' = ?old \<union> set ?cs" using eqs(2,3) by auto
  have closed: "\<forall>(t, es') \<in> set ds'. es' = ls t \<and> set (children t es') \<subseteq> ?old \<union> set ?cs"
  proof (intro ballI)
    fix d assume "d \<in> set ds'"
    then consider (old) "d \<in> set ds" | (new) "d = (s, es)" using eqs(3) by auto
    thus "case d of (t, es') \<Rightarrow> es' = ls t \<and> set (children t es') \<subseteq> ?old \<union> set ?cs"
    proof cases
      case old
      obtain t e where d: "d = (t, e)" by (cases d)
      note x = bspec[OF inv(4) old, unfolded d prod.case]
      show ?thesis unfolding d prod.case by (rule conjI[OF x[THEN conjunct1] le_supI1[OF x[THEN conjunct2]]])
    next
      case new
      show ?thesis unfolding new prod.case by (rule conjI[OF es sup_ge2])
    qed
  qed
  have parents: "\<forall>q \<in> ?old \<union> set ?cs. q = s0 \<or> length s0 < length q \<and> (\<exists>t \<in> fst ` set ds'. (t, q) \<in> subdir ls)"
  proof
    fix q assume "q \<in> ?old \<union> set ?cs"
    then consider (old) "q \<in> ?old" | (added) "q \<in> set ?cs" by (rule UnE)
    thus "q = s0 \<or> length s0 < length q \<and> (\<exists>t \<in> fst ` set ds'. (t, q) \<in> subdir ls)"
    proof cases
      case old
      thus ?thesis using bspec[OF inv(5) old] eqs(3) by auto
    next
      case added
      thus ?thesis using new(2)[OF added] sub eqs(3) by auto
    qed
  qed
  have "\<forall>q \<in> ?old \<union> set ?cs. (s0, q) \<in> (subdir ls)\<^sup>*" by (intro ballI) (erule UnE, rule bspec[OF inv(3)], assumption, rule new(1))
  thus ?thesis using dist closed parents UnI1[OF inv(1)] unfolding walk_inv_def Let_def fst_conv snd_conv seen by (intro conjI)
qed

lemma walk_inv_run: "walk_run os x errs y \<Longrightarrow> fs_is os ls \<Longrightarrow> set errs \<subseteq> {JCL_OK} \<Longrightarrow> walk_inv ls s0 x \<Longrightarrow> walk_inv ls s0 y"
proof (induction rule: walk_run.induct)
  case (step x err y errs z)
  thus ?case using walk_inv_step by (metis insert_subset list.simps(15) prod.collapse singletonD)
qed

lemma walk_inv_done:
  assumes "walk_inv ls s0 ([], ds)"
  shows "distinct (map fst ds)" "fst ` set ds = {q. (s0, q) \<in> (subdir ls)\<^sup>*}" "\<forall>(s, es) \<in> set ds. es = ls s"
proof -
  note inv = assms[unfolded walk_inv_def Let_def fst_conv snd_conv]
  show "distinct (map fst ds)" "\<forall>(s, es) \<in> set ds. es = ls s" using inv by auto
  have "q \<in> fst ` set ds" if "(s0, q) \<in> (subdir ls)\<^sup>*" for q
    using that
  proof (induction rule: rtrancl_induct)
    case base
    show ?case using inv by simp
  next
    case (step s c)
    then obtain es where "(s, es) \<in> set ds" by auto
    hence "es = ls s" "set (children s es) \<subseteq> fst ` set ds" using inv by auto
    thus ?case using step(2) by (auto simp: subdir_def)
  qed
  thus "fst ` set ds = {q. (s0, q) \<in> (subdir ls)\<^sup>*}" using inv by auto
qed

lemma graph_eq: "fst ` A = Q \<Longrightarrow> \<forall>(s, es) \<in> A. es = ls s \<Longrightarrow> A = {(q, ls q) | q. q \<in> Q}"
  by force

section \<open>An example\<close>

text \<open>An allocator that never uses an address twice, and a file system with two directories.\<close>

definition bump :: "fw_world \<Rightarrow> addr" where
  "bump w = of_nat (16 * (clock w + 1))"

definition demo_entries :: "string \<Rightarrow> dirent list" where
  "demo_entries s =
     (if s = ''/a'' then [\<lparr>d_name = ''.'', d_type = 4, d_ino = 1\<rparr>, \<lparr>d_name = ''f'', d_type = 8, d_ino = 2\<rparr>,
                          \<lparr>d_name = ''l'', d_type = 10, d_ino = 7\<rparr>, \<lparr>d_name = ''d'', d_type = 4, d_ino = 3\<rparr>]
      else if s = ''/a/d'' then [\<lparr>d_name = ''g'', d_type = 8, d_ino = 5\<rparr>] else [])"

definition demo_ls :: "string \<Rightarrow> entry list" where
  "demo_ls s = (if s = ''/a'' then [(''f'', JFS_FW_REG, 2), (''d'', JFS_FW_DIR, 3)]
     else if s = ''/a/d'' then [(''g'', JFS_FW_REG, 5)] else [])"

definition demo_os :: fw_os where
  "demo_os = \<lparr>os_malloc = (\<lambda>w n. if mem w (bump w) = None \<and> n < 2 ^ 63 then bump w else NULL),
     os_realloc = (\<lambda>w p n. if mem w (bump w) = None \<and> n < 2 ^ 63 then bump w else NULL),
     os_opendir = (\<lambda>w s. if bump w \<in> open_dirs w \<or> demo_entries s = [] then (NULL, ENOENT, [], EOTHER 0)
        else (bump w, EOTHER 0, demo_entries s, EOTHER 0))\<rparr>"

definition demo_world :: fw_world where
  "demo_world = \<lparr>mem = [8 \<mapsto> Str ''/a/''], open_dirs = {}, clock = 0\<rparr>"

definition demo_junk :: jfs_fw_state where
  "demo_junk = \<lparr>path_vec = \<lparr>pv_count = 7, pv_capacity = 1, path_array = 99\<rparr>, dir_vec = \<lparr>dv_count = 3, dv_capacity = 5, dir_array = 77\<rparr>\<rparr>"

definition demo_start :: jfs_fio_path where
  "demo_start = \<lparr>path_len = 3, path_str = 8\<rparr>"

lemma demo_os_ok: "os_ok demo_os"
proof -
  have "demo_entries [] = []" by (simp add: demo_entries_def)
  moreover have "\<forall>x \<in> set (demo_entries s). length (d_name x) < 2 ^ 63" for s by (simp add: demo_entries_def)
  ultimately show ?thesis unfolding os_ok_def by (auto simp: demo_os_def word_less_nat_alt split: if_splits)
qed

lemma demo_names_ok: "names_ok demo_os"
proof -
  have "\<forall>x \<in> set (demo_entries s). d_name x \<noteq> [] \<and> CHR ''/'' \<notin> set (d_name x)" for s
    by (simp add: demo_entries_def)
  thus ?thesis unfolding names_ok_def by (auto simp: demo_os_def split: if_splits)
qed

lemma demo_fs_is: "fs_is demo_os demo_ls"
proof -
  have "demo_entries s \<noteq> [] \<Longrightarrow> scan_spec (demo_entries s) (EOTHER 0) = Inr (demo_ls s)" for s
    by (simp add: demo_entries_def demo_ls_def DT_UNKNOWN_def DT_REG_def DT_DIR_def)
  moreover have "distinct (map fst (demo_ls s))" "\<forall>n \<in> set (map fst (demo_ls s)). n \<noteq> [] \<and> CHR ''/'' \<notin> set n" for s
    by (simp_all add: demo_ls_def)
  ultimately show ?thesis unfolding fs_is_def by (auto simp: demo_os_def split: if_splits)
qed

lemma demo_run:
  "case jfs_fw_state_create demo_os demo_junk demo_world demo_start JCL_OK of
     Ret (w1, p, e) \<Rightarrow> e = JCL_OK \<and> (case fw_steps 2 demo_os w1 p of
        Ret (w2, errs) \<Rightarrow> errs = [JCL_OK, JCL_OK] \<and> (case mem w2 p of Some (State st) \<Rightarrow> pv_count (path_vec st) = 0 | _ \<Rightarrow> False)
          \<and> (case jfs_fw_record_init demo_os w2 \<lparr>rec_dir_count = 0, rec_dir_array = NULL\<rparr> p JCL_OK of
               Ret (w3, r, e3) \<Rightarrow> e3 = JCL_OK \<and> rec_dir_count r = 2 | _ \<Rightarrow> False)
      | _ \<Rightarrow> False)
   | _ \<Rightarrow> False"
  by code_simp

lemma demo_runE:
  obtains w1 p w2 w3 r where "jfs_fw_state_create demo_os demo_junk demo_world demo_start JCL_OK = Ret (w1, p, JCL_OK)"
    "fw_steps 2 demo_os w1 p = Ret (w2, [JCL_OK, JCL_OK])" "\<exists>st. mem w2 p = Some (State st) \<and> pv_count (path_vec st) = 0"
    "jfs_fw_record_init demo_os w2 \<lparr>rec_dir_count = 0, rec_dir_array = NULL\<rparr> p JCL_OK = Ret (w3, r, JCL_OK)" "rec_dir_count r = 2"
  using demo_run by (auto split: run.splits prod.splits option.splits fw_obj.splits)

lemma demo_start_ok: "mem demo_world NULL = None" "mem demo_world (path_str demo_start) = Some (Str ''/a/'')"
  by (simp_all add: demo_world_def demo_start_def)

lemma demo_allocated: "vectors_allocated demo_os demo_junk demo_world"
  using demo_runE created_allocated by metis

section \<open>Properties\<close>

lemma created:
  assumes "os_ok os" "vectors_allocated os junk w" "mem w NULL = None" "mem w (path_str sp) = Some (Str s)" "length s < 2 ^ 63"
  obtains M where "heap_is (mem w) M" "create_ok w s M (jfs_fw_state_create os junk w sp JCL_OK)"
proof -
  obtain M where M: "heap_is (mem w) M" using world_heap[OF assms(3)] by blast
  have "(path_str sp, Str s) \<in># M" using M assms(4) by (simp add: heap_is_def)
  from that[OF M fw_create_ok[OF assms(1,2) M this assms(5)]] show ?thesis .
qed

lemma demo_walker:
  obtains w1 p a M where "walker w1 p [(a, ''/a'')] [] M"
proof -
  obtain M where M: "create_ok demo_world ''/a/'' M (jfs_fw_state_create demo_os demo_junk demo_world demo_start JCL_OK)"
    using created[OF demo_os_ok demo_allocated demo_start_ok] by auto
  obtain w1 p where "jfs_fw_state_create demo_os demo_junk demo_world demo_start JCL_OK = Ret (w1, p, JCL_OK)" using demo_runE by metis
  moreover have "trim_slash ''/a/'' = ''/a''" by (simp add: trim_slash_def)
  ultimately show ?thesis using M that by (auto simp: create_ok_def)
qed

text \<open>Once nothing is pending, every further step returns at once.\<close>

lemma steps_idle:
  "mem w p = Some (State st) \<Longrightarrow> pv_count (path_vec st) = 0 \<Longrightarrow> \<exists>w'. fw_steps n os w p = Ret (w', replicate n JCL_OK)"
proof (induction n arbitrary: w)
  case (Suc n)
  have "jfs_fw_state_step os w p JCL_OK = Ret (put w p (State st), 1, JCL_OK)"
    using Suc.prems by (simp add: jfs_fw_state_step_def load_state_def state_step_unfold)
  thus ?case using Suc.IH[of "put w p (State st)"] Suc.prems by auto
qed simp

lemma fw_steps_add:
  "fw_steps (m + n) os w p = run_bind (fw_steps m os w p) (\<lambda>(w, errs). run_bind (fw_steps n os w p) (\<lambda>(w, errs'). Ret (w, errs @ errs')))"
  by (induction m arbitrary: w) (auto simp: run_simps split_beta intro!: run_bind_cong)

lemma fw_steps_less:
  assumes "fw_steps m os w p = Ret (w', errs)" "n \<le> m" "fw_steps n os w p = Ret (w'', errs')"
  shows "set errs' \<subseteq> set errs"
proof -
  have "run_bind (fw_steps (m - n) os w'' p) (\<lambda>(w, e). Ret (w, errs' @ e)) = Ret (w', errs)"
    using assms fw_steps_add[of n "m - n" os w p] by simp
  thus ?thesis by (auto simp: run_bind_Ret_iff)
qed

lemma steps_after_done:
  assumes "fw_steps m os w p = Ret (w', replicate m JCL_OK)" "\<exists>st. mem w' p = Some (State st) \<and> pv_count (path_vec st) = 0"
    and "fw_steps n os w p = Ret (w'', errs)"
  shows "set errs \<subseteq> {JCL_OK}"
proof (cases "n \<le> m")
  case True
  thus ?thesis using fw_steps_less[OF assms(1) True assms(3)] by auto
next
  case False
  obtain st where "mem w' p = Some (State st)" "pv_count (path_vec st) = 0" using assms(2) by blast
  from steps_idle[OF this, of "n - m" os] obtain w3 where "fw_steps (n - m) os w' p = Ret (w3, replicate (n - m) JCL_OK)" by blast
  thus ?thesis using fw_steps_add[of m "n - m" os w p] assms(1,3) False by (auto split: if_splits)
qed

text \<open>
  C7. One call of \<open>jfs_fw_state_step\<close> follows the specification \<open>walk_step\<close>: with nothing pending it does
  nothing; otherwise it takes the last pending path, and either records that directory with its entries and adds
  its subdirectories to the pending paths, or reports why not.  It never faults, closes the directory
  stream, keeps every block \<open>M\<close> it does not own, and every block it owns belongs to the new state.
  The returned number is 1 for an idle walker, 1 after a success with paths still pending, and after an
  error the other way round.
\<close>

theorem fw_step_refines:
  assumes "os_ok os" "walker w p ps ds M"
  shows "\<exists>w' err' ps' ds'. jfs_fw_state_step os w p JCL_OK = Ret (w', step_result ps err' ps', err') \<and> open_dirs w' = open_dirs w
    \<and> walker w' p ps' ds' M \<and> walk_step os (walk_of ps ds) err' (walk_of ps' ds')"
  by (rule fw_step_ok[OF assms])

theorem fw_step_refines_witness:
  "\<exists>w1 p a M. walker w1 p [(a, ''/a'')] [] M
    \<and> (\<exists>w' err' ps' ds'. jfs_fw_state_step demo_os w1 p JCL_OK = Ret (w', step_result [(a, ''/a'')] err' ps', err')
        \<and> walk_step demo_os ([''/a''], []) err' (walk_of ps' ds'))"
proof -
  obtain w1 p a M where a: "walker w1 p [(a, ''/a'')] [] M" using demo_walker .
  from fw_step_refines[OF demo_os_ok this] a show ?thesis by (fastforce simp: walk_of_def)
qed

text \<open>
  C8. Life of a walker: \<open>jfs_fw_state_create\<close>, any number of calls of \<open>jfs_fw_state_step\<close>, then
  \<open>jfs_fw_state_destroy\<close>.  Unless one of the two vectors of a fresh walker cannot be allocated (then the
  clean-up reads uninitialised memory, see \<open>fw_create_faults_on_garbage\<close>), nothing faults, whatever the fresh
  memory holds and whatever \<open>malloc\<close>, \<open>realloc\<close> and the file system answer afterwards, and in the end memory is
  exactly as before and no directory stream is left open; if the creation fails, this holds at once.
\<close>

theorem fw_lifecycle_no_leak:
  assumes "os_ok os" "vectors_allocated os junk w" "mem w NULL = None" "mem w (path_str sp) = Some (Str s)" "length s < 2 ^ 63"
  shows "\<exists>w1 p e. jfs_fw_state_create os junk w sp JCL_OK = Ret (w1, p, e)
    \<and> (if e = JCL_OK
       then \<exists>w2 errs w3. fw_steps n os w1 p = Ret (w2, errs) \<and> jfs_fw_state_destroy w2 p = Ret w3 \<and> mem w3 = mem w \<and> open_dirs w3 = open_dirs w
       else p = NULL \<and> mem w1 = mem w \<and> open_dirs w1 = open_dirs w)"
proof -
  obtain M where M: "heap_is (mem w) M" "create_ok w s M (jfs_fw_state_create os junk w sp JCL_OK)" using created[OF assms] .
  obtain w1 p e where c: "jfs_fw_state_create os junk w sp JCL_OK = Ret (w1, p, e)" "open_dirs w1 = open_dirs w"
    "if e = JCL_OK then length (trim_slash s) \<le> 4096 \<and> (\<exists>a. walker w1 p [(a, trim_slash s)] [] M)
     else p = NULL \<and> heap_is (mem w1) M \<and> (e = JCL_ERR_SYS \<or> e = JCL_ERR_FIO_PATH_LEN \<and> length (trim_slash s) > 4096)"
    using M(2) unfolding create_ok_def by blast
  show ?thesis
  proof (cases "e = JCL_OK")
    case True
    then obtain a where "walker w1 p [(a, trim_slash s)] [] M" using c(3) by auto
    from fw_steps_ok[OF assms(1) this, of n] obtain w2 errs ps ds where r: "fw_steps n os w1 p = Ret (w2, errs)" "open_dirs w2 = open_dirs w1"
      "walker w2 p ps ds M" by blast
    obtain w3 where "jfs_fw_state_destroy w2 p = Ret w3" "heap_is (mem w3) M" "open_dirs w3 = open_dirs w2"
      using fw_destroy_ok[OF r(3)] by blast
    thus ?thesis using c(1,2) r True heap_is_unique[OF M(1)] by (auto intro: sym)
  qed (use c heap_is_unique[OF _ M(1)] in auto)
qed

theorem fw_lifecycle_no_leak_witness:
  "\<exists>w1 p w2 errs w3. jfs_fw_state_create demo_os demo_junk demo_world demo_start JCL_OK = Ret (w1, p, JCL_OK)
    \<and> fw_steps 2 demo_os w1 p = Ret (w2, errs) \<and> jfs_fw_state_destroy w2 p = Ret w3 \<and> mem w3 = [8 \<mapsto> Str ''/a/'']"
proof -
  obtain w1 p where c: "jfs_fw_state_create demo_os demo_junk demo_world demo_start JCL_OK = Ret (w1, p, JCL_OK)" using demo_runE by metis
  have "mem demo_world = [8 \<mapsto> Str ''/a/'']" by (simp add: demo_world_def)
  thus ?thesis using fw_lifecycle_no_leak[OF demo_os_ok demo_allocated demo_start_ok, of 2] c by auto
qed

text \<open>
  C19. Every walk ends: after a successful creation, as long as no step reports \<open>JCL_ERR_SYS\<close>, after finitely
  many steps nothing is pending, on any file system whose names are not empty and contain no slash, even if it
  changes under way.
\<close>

theorem fw_walk_terminates:
  assumes "os_ok os" "names_ok os" "mem w NULL = None" "mem w (path_str sp) = Some (Str s)" "length s < 2 ^ 63"
    and made: "jfs_fw_state_create os junk w sp JCL_OK = Ret (w1, p, JCL_OK)"
    and "\<forall>n w' errs. fw_steps n os w1 p = Ret (w', errs) \<longrightarrow> JCL_ERR_SYS \<notin> set errs"
  shows "\<exists>n w2 errs st. fw_steps n os w1 p = Ret (w2, errs) \<and> mem w2 p = Some (State st) \<and> pv_count (path_vec st) = 0"
proof -
  obtain M where M: "create_ok w s M (jfs_fw_state_create os junk w sp JCL_OK)" using created[OF assms(1) created_allocated[OF made] assms(3-5)] by blast
  then obtain a where "walker w1 p [(a, trim_slash s)] [] M" using made by (auto simp: create_ok_def)
  from walk_ends[OF assms(1,2) this assms(7)] walker_done show ?thesis by metis
qed

theorem fw_walk_terminates_witness:
  "\<exists>w1 p n w2 errs st. jfs_fw_state_create demo_os demo_junk demo_world demo_start JCL_OK = Ret (w1, p, JCL_OK)
    \<and> fw_steps n demo_os w1 p = Ret (w2, errs) \<and> mem w2 p = Some (State st) \<and> pv_count (path_vec st) = 0"
proof -
  obtain w1 p w2 where c: "jfs_fw_state_create demo_os demo_junk demo_world demo_start JCL_OK = Ret (w1, p, JCL_OK)"
    "fw_steps 2 demo_os w1 p = Ret (w2, [JCL_OK, JCL_OK])" "\<exists>st. mem w2 p = Some (State st) \<and> pv_count (path_vec st) = 0"
    using demo_runE by metis
  have c2: "fw_steps 2 demo_os w1 p = Ret (w2, replicate 2 JCL_OK)" using c(2) by (simp add: numeral_2_eq_2)
  have "\<forall>n w' errs. fw_steps n demo_os w1 p = Ret (w', errs) \<longrightarrow> JCL_ERR_SYS \<notin> set errs"
    using steps_after_done[OF c2 c(3)] by (auto simp: subset_iff)
  from fw_walk_terminates[OF demo_os_ok demo_names_ok demo_start_ok _ c(1) this] c(1) show ?thesis by fastforce
qed

text \<open>
  C6. A complete walk on a file system that does not change (directory \<open>s\<close>, when it can be read, has the
  entries \<open>ls s\<close>): if no step reports an error and \<open>jfs_fw_record_init\<close> accepts the walker, the record holds
  exactly the directories that can be reached from the start through subdirectories whose path is not longer
  than \<open>PATH_MAX\<close>, each of them once, with all its files and directories.
\<close>

theorem fw_walk_complete:
  assumes "os_ok os" "fs_is os ls" "mem w NULL = None" "mem w (path_str sp) = Some (Str s)" "length s < 2 ^ 63"
    and made: "jfs_fw_state_create os junk w sp JCL_OK = Ret (w1, p, JCL_OK)" and "fw_steps n os w1 p = Ret (w2, errs)" "set errs \<subseteq> {JCL_OK}"
    and "jfs_fw_record_init os w2 r0 p JCL_OK = Ret (w3, r, JCL_OK)"
  shows "\<exists>ds N M. heap_is (mem w) M \<and> record_is r ds N \<and> heap_is (mem w3) (N + M)
    \<and> distinct (map (fst \<circ> dir_val) ds)
    \<and> set (map dir_val ds) = {(q, ls q) | q. (trim_slash s, q) \<in> (subdir ls)\<^sup>*}"
proof -
  obtain M where M: "heap_is (mem w) M" "create_ok w s M (jfs_fw_state_create os junk w sp JCL_OK)" using created[OF assms(1) created_allocated[OF made] assms(3-5)] .
  then obtain a where "walker w1 p [(a, trim_slash s)] [] M" using made by (auto simp: create_ok_def)
  from fw_steps_ok[OF assms(1) this, of n] obtain ps ds where st: "walker w2 p ps ds M" "walk_run os (walk_of [(a, trim_slash s)] []) errs (walk_of ps ds)"
    using assms(7) by auto
  obtain N where N: "ps = []" "record_is r ds N" "heap_is (mem w3) (N + M)"
    using fw_record_init_ok[OF assms(1) st(1), of r0] assms(9) by (auto simp: record_ok_def)
  have "walk_inv ls (trim_slash s) (walk_of [(a, trim_slash s)] [])" by (simp add: walk_inv_def walk_of_def)
  hence inv: "walk_inv ls (trim_slash s) ([], map dir_val ds)" using walk_inv_run[OF st(2) assms(2,8)] by (simp add: walk_of_def N(1))
  note d = walk_inv_done[OF inv]
  have "set (map dir_val ds) = {(q, ls q) | q. (trim_slash s, q) \<in> (subdir ls)\<^sup>*}" using graph_eq[OF d(2,3)] by simp
  moreover have "distinct (map (fst \<circ> dir_val) ds)" using d(1) by simp
  ultimately show ?thesis using M(1) N(2,3) by blast
qed

theorem fw_walk_complete_witness:
  "\<exists>w1 p w2 (w3 :: fw_world) r ds N M. jfs_fw_state_create demo_os demo_junk demo_world demo_start JCL_OK = Ret (w1, p, JCL_OK)
    \<and> fw_steps 2 demo_os w1 p = Ret (w2, [JCL_OK, JCL_OK]) \<and> heap_is (mem demo_world) M \<and> record_is r ds N \<and> heap_is (mem w3) (N + M)
    \<and> rec_dir_count r = 2 \<and> set (map dir_val ds) = {(q, demo_ls q) | q. (''/a'', q) \<in> (subdir demo_ls)\<^sup>*}"
proof -
  obtain w1 p w2 w3 r where c: "jfs_fw_state_create demo_os demo_junk demo_world demo_start JCL_OK = Ret (w1, p, JCL_OK)"
    "fw_steps 2 demo_os w1 p = Ret (w2, [JCL_OK, JCL_OK])"
    "jfs_fw_record_init demo_os w2 \<lparr>rec_dir_count = 0, rec_dir_array = NULL\<rparr> p JCL_OK = Ret (w3, r, JCL_OK)" "rec_dir_count r = 2"
    using demo_runE by metis
  have t: "trim_slash ''/a/'' = ''/a''" by (simp add: trim_slash_def)
  have "\<exists>ds N M. heap_is (mem demo_world) M \<and> record_is r ds N \<and> heap_is (mem w3) (N + M)
    \<and> distinct (map (fst \<circ> dir_val) ds) \<and> set (map dir_val ds) = {(q, demo_ls q) | q. (trim_slash ''/a/'', q) \<in> (subdir demo_ls)\<^sup>*}"
    by (rule fw_walk_complete[OF demo_os_ok demo_fs_is demo_start_ok _ c(1,2) _ c(3)]) simp_all
  then obtain ds N M where d: "heap_is (mem demo_world) M" "record_is r ds N" "heap_is (mem w3) (N + M)"
    "set (map dir_val ds) = {(q, demo_ls q) | q. (''/a'', q) \<in> (subdir demo_ls)\<^sup>*}" unfolding t by blast
  show ?thesis
    by (rule exI[of _ w1], rule exI[of _ p], rule exI[of _ w2], rule exI[of _ w3], rule exI[of _ r], rule exI[of _ ds], rule exI[of _ N],
        rule exI[of _ M], intro conjI c(1,2,4) d)
qed

text \<open>
  C21. \<open>jfs_fw_record_init\<close> refuses a walker with paths still pending (\<open>JFS_ERR_FW_STATE\<close>) and one without
  directories (\<open>JFS_ERR_EMPTY\<close>), and then, as when \<open>realloc\<close> fails, leaves the record and the walker as they
  were; otherwise it turns the walker into a record, and \<open>jfs_fw_record_free\<close> gives back every block of it.
\<close>

theorem fw_record_lifecycle:
  assumes "os_ok os" "walker w p ps ds M"
  shows "\<exists>w' r err. jfs_fw_record_init os w r0 p JCL_OK = Ret (w', r, err) \<and> open_dirs w' = open_dirs w
    \<and> (if err = JCL_OK then ps = [] \<and> ds \<noteq> []
          \<and> (\<exists>w''. jfs_fw_record_free w' r = Ret (w'', \<lparr>rec_dir_count = 0, rec_dir_array = NULL\<rparr>) \<and> heap_is (mem w'') M)
       else r = r0 \<and> walker w' p ps ds M
          \<and> err = (if ps \<noteq> [] then JCL_ERR_FW_STATE else if ds = [] then JCL_ERR_EMPTY else JCL_ERR_SYS))"
proof -
  obtain w' r err where c: "jfs_fw_record_init os w r0 p JCL_OK = Ret (w', r, err)" "open_dirs w' = open_dirs w"
    "if err = JCL_OK then ps = [] \<and> ds \<noteq> [] \<and> (\<exists>N. record_is r ds N \<and> heap_is (mem w') (N + M))
     else r = r0 \<and> walker w' p ps ds M
       \<and> err = (if ps \<noteq> [] then JCL_ERR_FW_STATE else if ds = [] then JCL_ERR_EMPTY else JCL_ERR_SYS)"
    using fw_record_init_ok[OF assms, of r0] unfolding record_ok_def by blast
  thus ?thesis using fw_record_free_ok by (cases "err = JCL_OK") fastforce+
qed

theorem fw_record_lifecycle_witness:
  "\<exists>w1 p a M w'. walker w1 p [(a, ''/a'')] [] M
    \<and> jfs_fw_record_init demo_os w1 \<lparr>rec_dir_count = 0, rec_dir_array = NULL\<rparr> p JCL_OK
        = Ret (w', \<lparr>rec_dir_count = 0, rec_dir_array = NULL\<rparr>, JCL_ERR_FW_STATE)"
proof -
  obtain w1 p a M where a: "walker w1 p [(a, ''/a'')] [] M" using demo_walker .
  from fw_record_lifecycle[OF demo_os_ok a, of "\<lparr>rec_dir_count = 0, rec_dir_array = NULL\<rparr>"]
  obtain w' r err where "jfs_fw_record_init demo_os w1 \<lparr>rec_dir_count = 0, rec_dir_array = NULL\<rparr> p JCL_OK = Ret (w', r, err)"
    "r = \<lparr>rec_dir_count = 0, rec_dir_array = NULL\<rparr>" "err = JCL_ERR_FW_STATE" by (auto split: if_splits)
  thus ?thesis using a by blast
qed

text \<open>
  C38. When the allocation of the path vector fails, \<open>jfs_fw_state_create\<close> frees the directory vector, which
  has not been initialised: if the fresh block holds a pointer there that is not null, the call faults
  instead of reporting the error.
\<close>

theorem fw_create_faults_on_garbage:
  assumes "os_malloc os w 48 = p" "p \<noteq> NULL" "os_malloc os (put (tick w) p (State junk)) 256 = NULL"
    and "dir_array (dir_vec junk) \<noteq> NULL" "dir_array (dir_vec junk) \<noteq> p" "mem w (dir_array (dir_vec junk)) = None"
  shows "jfs_fw_state_create os junk w sp JCL_OK = Fault"
proof -
  let ?w = "tick (put (tick w) p (State junk))"
  have "malloc_obj os w sizeof_state (State junk) JCL_OK = (put (tick w) p (State junk), p, JCL_OK)"
    using assms(1,2) by (simp add: malloc_obj_def sizeof_state_def jcl_malloc_def Let_def)
  moreover have "fw_path_vector_init os (put (tick w) p (State junk)) (path_vec junk) JCL_OK = (?w, path_vec junk, JCL_ERR_SYS)"
    using assms(3) by (simp add: fw_path_vector_init_def malloc_obj_def sizeof_path_def FW_PATH_VECTOR_DEFAULT_CAPACITY_def jcl_malloc_def Let_def)
  moreover have "fw_dir_vector_free ?w (dir_vec junk) = Fault"
    using assms(4-6) by (cases "unat (dv_count (dir_vec junk))") (simp_all add: domIff fw_dir_vector_free_def load_elem_def free_obj_def)
  ultimately show ?thesis using assms(2) by (simp add: create_unfold Let_def fw_state_create_cleanup_def)
qed

definition second_fails :: fw_os where
  "second_fails = \<lparr>os_malloc = (\<lambda>w n. if clock w = 0 then 16 else NULL), os_realloc = (\<lambda>w p n. NULL),
     os_opendir = (\<lambda>w s. (NULL, ENOENT, [], EOTHER 0))\<rparr>"

theorem fw_create_faults_on_garbage_witness:
  "jfs_fw_state_create second_fails \<lparr>path_vec = zero_path_vec, dir_vec = \<lparr>dv_count = 3, dv_capacity = 5, dir_array = 77\<rparr>\<rparr>
     demo_world demo_start JCL_OK = Fault"
  by (rule fw_create_faults_on_garbage[where p = 16]) (simp_all add: second_fails_def demo_world_def put_def tick_def)

text \<open>
  C20. The struct behind the pointer is well formed at all times: after a successful creation and any number of
  steps both vectors have a live block of exactly their capacity, not more elements than capacity, and every element
  below the count has been written; a pending path is a live string of the recorded length, at most \<open>PATH_MAX\<close>.
\<close>

theorem fw_state_well_formed:
  assumes "os_ok os" "mem w NULL = None" "mem w (path_str sp) = Some (Str s)" "length s < 2 ^ 63"
    and made: "jfs_fw_state_create os junk w sp JCL_OK = Ret (w1, p, JCL_OK)"
  shows "\<exists>w2 errs st pblk dblk. fw_steps n os w1 p = Ret (w2, errs) \<and> mem w2 p = Some (State st)
    \<and> mem w2 (path_array (path_vec st)) = Some (Paths pblk) \<and> length pblk = unat (pv_capacity (path_vec st))
    \<and> mem w2 (dir_array (dir_vec st)) = Some (Dirs dblk) \<and> length dblk = unat (dv_capacity (dir_vec st))
    \<and> pv_count (path_vec st) \<le> pv_capacity (path_vec st) \<and> dv_count (dir_vec st) \<le> dv_capacity (dir_vec st)
    \<and> (\<forall>i < unat (pv_count (path_vec st)). \<exists>x q. pblk ! i = Some x \<and> mem w2 (path_str x) = Some (Str q)
          \<and> path_len x = strlen q \<and> length q \<le> 4096)
    \<and> (\<forall>i < unat (dv_count (dir_vec st)). dblk ! i \<noteq> None)"
proof -
  obtain M where M: "create_ok w s M (jfs_fw_state_create os junk w sp JCL_OK)" using created[OF assms(1) created_allocated[OF made] assms(2-4)] by blast
  then obtain a where "walker w1 p [(a, trim_slash s)] [] M" using made by (auto simp: create_ok_def)
  from fw_steps_ok[OF assms(1) this, of n] obtain w2 errs ps ds where r: "fw_steps n os w1 p = Ret (w2, errs)" "walker w2 p ps ds M" by blast
  obtain st N1 N2 where st: "path_vec_is (path_vec st) ps N1" "dir_vec_is (dir_vec st) ds N2" "heap_is (mem w2) (add_mset (p, State st) (N1 + N2 + M))"
    using r(2) unfolding walker_def state_is_def by blast
  have look: "(x, ob) \<in># N1 + N2 \<Longrightarrow> mem w2 x = Some ob" for x ob using heap_is_lookup[OF st(3), of x ob] by auto
  obtain k x pblk where pv: "path_vec st = \<lparr>pv_count = of_nat (length ps), pv_capacity = k, path_array = x\<rparr>" "blk_ok sizeof_path k (map path_of ps) pblk"
    "N1 = add_mset (x, Paths pblk) (sum_list (map path_cells ps))" "\<forall>g \<in> set ps. path_fits g" using st(1) unfolding path_vec_is_def by blast
  obtain l y dblk where dv: "dir_vec st = \<lparr>dv_count = of_nat (length ds), dv_capacity = l, dir_array = y\<rparr>" "blk_ok sizeof_dir l (map dir_of ds) dblk"
    "N2 = add_mset (y, Dirs dblk) (sum_list (map dir_cells ds))" using st(2) unfolding dir_vec_is_def by blast
  have blocks: "mem w2 x = Some (Paths pblk)" "mem w2 y = Some (Dirs dblk)" "mem w2 p = Some (State st)"
    using look pv(3) dv(3) heap_is_cell[OF st(3)] by auto
  note cnt = vec_counts(1)[OF st(1)] vec_counts(3)[OF st(2)]
  have le: "pv_count (path_vec st) \<le> pv_capacity (path_vec st)" "dv_count (dir_vec st) \<le> dv_capacity (dir_vec st)"
    using cnt pv(1,2) dv(1,2) by (auto simp: word_le_nat_alt blk_ok_def)
  have "\<exists>x q. pblk ! i = Some x \<and> mem w2 (path_str x) = Some (Str q) \<and> path_len x = strlen q \<and> length q \<le> 4096" if i: "i < length ps" for i
  proof -
    obtain b q where g: "ps ! i = (b, q)" by (cases "ps ! i")
    have "path_cell (ps ! i) \<in># sum_list (map path_cells ps)" using i nth_mem[OF i] sum_list_sub[of "ps ! i" ps path_cells] by auto
    hence "mem w2 b = Some (Str q)" using look pv(3) g by auto
    moreover have "pblk ! i = Some (path_of (b, q))" using blk_ok_nth[OF pv(2), of i] i g by simp
    moreover have "length q \<le> 4096" using pv(4) nth_mem[OF i] g by fastforce
    ultimately show ?thesis by auto
  qed
  moreover have "dblk ! i \<noteq> None" if "i < length ds" for i using blk_ok_nth[OF dv(2), of i] that by simp
  moreover have "length pblk = unat k" "length dblk = unat l" using pv(2) dv(2) by (simp_all add: blk_ok_def)
  ultimately show ?thesis using r(1) blocks le cnt
    by (intro exI[of _ w2] exI[of _ errs] exI[of _ st] exI[of _ pblk] exI[of _ dblk]) (simp add: pv(1) dv(1))
qed

theorem fw_state_well_formed_witness:
  "\<exists>w1 p w2 errs st. jfs_fw_state_create demo_os demo_junk demo_world demo_start JCL_OK = Ret (w1, p, JCL_OK)
    \<and> fw_steps 1 demo_os w1 p = Ret (w2, errs) \<and> mem w2 p = Some (State st) \<and> pv_count (path_vec st) \<le> pv_capacity (path_vec st)"
proof -
  obtain w1 p where c: "jfs_fw_state_create demo_os demo_junk demo_world demo_start JCL_OK = Ret (w1, p, JCL_OK)" using demo_runE by metis
  from fw_state_well_formed[OF demo_os_ok demo_start_ok _ c, of 1] c show ?thesis by auto
qed

end
