(* ===== verification/Net_Socket.thy ===== *)
theory Net_Socket
  imports Io_Transfer
begin

text \<open>
  \<open>src/net_socket.c\<close>: TCP sockets.  A \<open>jcl_ns_socket_t *\<close> is an \<open>option\<close> whose \<open>None\<close> is \<open>NULL\<close>.
  \<open>fds\<close> is the set of descriptors the process has open.  The results of the system calls are
  parameters; for the calls inside loops they come from a function on the state of the outside world,
  as in \<open>Io_Transfer\<close>, and the loops take fuel.  \<open>RES_ERR\<close>, which the source uses, is read as the macro
  \<open>RESS_ERR\<close> of \<open>error.h\<close>: \<open>*err = JCL_OK\<close>.
\<close>

section \<open>Data\<close>

record sockaddr_in =
  sin_family :: int
  sin_port :: "16 word"
  sin_addr :: "32 word"

record jcl_ns_socket =
  sock_fd :: int
  sock_addr :: sockaddr_in

record addrinfo =
  ai_family :: int
  ai_addrlen :: "32 word"
  ai_addr :: sockaddr_in

definition AF_INET :: int where "AF_INET = 2"
definition SIZEOF_SOCKADDR_IN :: "32 word" where "SIZEOF_SOCKADDR_IN = 16"

definition zero_addr :: sockaddr_in where
  "zero_addr = \<lparr>sin_family = 0, sin_port = 0, sin_addr = 0\<rparr>"

definition htons :: "16 word \<Rightarrow> 16 word" where
  "htons x = or (push_bit 8 x) (drop_bit 8 x)"

section \<open>Creating, opening and closing\<close>

definition jcl_ns_socket_create :: "addr \<Rightarrow> jcl_err \<Rightarrow> jcl_ns_socket option \<times> jcl_err" where
  "jcl_ns_socket_create mem err =
     (case jcl_malloc mem err of (_, err) \<Rightarrow>
      if err \<noteq> JCL_OK then (None, err) else (Some \<lparr>sock_fd = -1, sock_addr = zero_addr\<rparr>, err))"

text \<open>\<open>opened fds fd\<close>: the open descriptors after a call that returned \<open>fd\<close>.\<close>

definition opened :: "int set \<Rightarrow> int \<Rightarrow> int set" where
  "opened fds fd = (if fd = -1 then fds else insert fd fds)"

definition jcl_ns_socket_open ::
  "int \<Rightarrow> errno \<Rightarrow> int set \<Rightarrow> jcl_ns_socket \<Rightarrow> jcl_err \<Rightarrow> int set \<times> jcl_ns_socket \<times> jcl_err" where
  "jcl_ns_socket_open ret errno fds sock err =
     (case jcl_socket ret errno err of (new_fd, err) \<Rightarrow>
      if err \<noteq> JCL_OK then (opened fds ret, sock, err) else (opened fds ret, sock\<lparr>sock_fd := new_fd\<rparr>, err))"

text \<open>\<open>close\<close> releases the descriptor whether it reports an error or not.\<close>

definition jcl_ns_socket_close ::
  "int \<Rightarrow> errno \<Rightarrow> int set \<Rightarrow> jcl_ns_socket option \<Rightarrow> jcl_err \<Rightarrow> int set \<times> jcl_ns_socket option \<times> jcl_err" where
  "jcl_ns_socket_close ret errno fds sock err =
     (case sock of
        None \<Rightarrow> (fds, None, err)
      | Some s \<Rightarrow>
          if sock_fd s = -1 then (fds, Some s, err)
          else let err = jcl_close ret errno err
               in (fds - {sock_fd s}, Some (s\<lparr>sock_fd := -1\<rparr>), err))"

definition jcl_ns_socket_destroy :: "int set \<Rightarrow> jcl_ns_socket option \<Rightarrow> int set \<times> jcl_ns_socket option" where
  "jcl_ns_socket_destroy fds sock_give =
     (case sock_give of
        None \<Rightarrow> (fds, None)
      | Some s \<Rightarrow> (if sock_fd s \<noteq> -1 then fds - {sock_fd s} else fds, None))"

definition jcl_ns_socket_shutdown :: "int \<Rightarrow> errno \<Rightarrow> jcl_err \<Rightarrow> jcl_err" where
  "jcl_ns_socket_shutdown ret errno err = jcl_shutdown ret errno err"

section \<open>Addresses\<close>

text \<open>\<open>pton\<close> is what \<open>inet_pton\<close> makes of a string: a status and an address.\<close>

definition jcl_ns_socket_set_ip ::
  "(string \<Rightarrow> int \<times> 32 word) \<Rightarrow> jcl_ns_socket \<Rightarrow> 16 word \<Rightarrow> string \<Rightarrow> jcl_err \<Rightarrow> jcl_ns_socket \<times> jcl_err" where
  "jcl_ns_socket_set_ip pton sock server_port server_ip err =
     (if server_port \<le> 1024 then (sock, JCL_ERR_ARG)
      else case pton server_ip of (status, ip) \<Rightarrow>
        let addr_in = zero_addr\<lparr>sin_family := AF_INET, sin_port := htons server_port, sin_addr := ip\<rparr>
        in if status \<noteq> 1 then (sock, JCL_ERR_ARG) else (sock\<lparr>sock_addr := addr_in\<rparr>, err))"

definition jcl_ns_socket_set_hostname ::
  "(string \<Rightarrow> 16 word \<Rightarrow> gai_status \<times> addrinfo) \<Rightarrow> jcl_ns_socket \<Rightarrow> 16 word \<Rightarrow> string \<Rightarrow> jcl_err \<Rightarrow> jcl_ns_socket \<times> jcl_err" where
  "jcl_ns_socket_set_hostname gai sock server_port hostname err =
     (if server_port \<le> 1024 then (sock, JCL_ERR_ARG)
      else case gai hostname server_port of (status, res) \<Rightarrow>
        case jcl_getaddrinfo status res err of (result, err) \<Rightarrow>
        if err \<noteq> JCL_OK then (sock, err)
        else case result of
          None \<Rightarrow> (sock, err)
        | Some r \<Rightarrow>
            if ai_family r \<noteq> AF_INET \<or> ai_addrlen r \<noteq> SIZEOF_SOCKADDR_IN then (sock, JCL_ERR_NS_BAD_ADDR)
            else (sock\<lparr>sock_addr := ai_addr r\<rparr>, err))"

section \<open>Connections\<close>

definition res_err_if_inter :: "jcl_err \<Rightarrow> jcl_err" where
  "res_err_if_inter err = (if err = JCL_ERR_INTER then JCL_OK else err)"

type_synonym 'w os_call = "'w \<Rightarrow> int \<times> errno \<times> 'w"

fun jcl_ns_socket_bind :: "nat \<Rightarrow> 'w os_call \<Rightarrow> 'w \<Rightarrow> jcl_err \<Rightarrow> ('w \<times> jcl_err) run" where
  "jcl_ns_socket_bind 0 os w err = Loop"
| "jcl_ns_socket_bind (Suc fuel) os w err =
     (let err = res_err_if_inter err in
      case os w of (ret, errno, w) \<Rightarrow>
      let err = jcl_bind ret errno err
      in if err = JCL_ERR_INTER then jcl_ns_socket_bind fuel os w err else Ret (w, err))"

definition jcl_ns_socket_listen :: "int \<Rightarrow> errno \<Rightarrow> jcl_err \<Rightarrow> jcl_err" where
  "jcl_ns_socket_listen ret errno err = jcl_listen ret errno err"

fun jcl_ns_socket_connect :: "nat \<Rightarrow> 'w os_call \<Rightarrow> 'w \<Rightarrow> jcl_err \<Rightarrow> ('w \<times> jcl_err) run" where
  "jcl_ns_socket_connect 0 os w err = Loop"
| "jcl_ns_socket_connect (Suc fuel) os w err =
     (let err = res_err_if_inter err in
      case os w of (ret, errno, w) \<Rightarrow>
      let err = jcl_connect ret errno err
      in if err = JCL_ERR_INTER then jcl_ns_socket_connect fuel os w err else Ret (w, err))"

text \<open>A call of \<open>accept\<close> also gives the address of the peer and its length.\<close>

type_synonym 'w os_accept = "'w \<Rightarrow> int \<times> errno \<times> sockaddr_in \<times> 32 word \<times> 'w"

fun ns_accept_loop ::
  "nat \<Rightarrow> 'w os_accept \<Rightarrow> 'w \<Rightarrow> int set \<Rightarrow> jcl_ns_socket \<Rightarrow> 32 word \<Rightarrow> jcl_err \<Rightarrow>
   ('w \<times> int set \<times> jcl_ns_socket \<times> 32 word \<times> jcl_err) run" where
  "ns_accept_loop 0 os w fds accept_sock addrlen err = Loop"
| "ns_accept_loop (Suc fuel) os w fds accept_sock addrlen err =
     (let err = res_err_if_inter err in
      case os w of (ret, errno, peer, len, w) \<Rightarrow>
      case jcl_accept ret errno err of (fd, err) \<Rightarrow>
      let accept_sock = accept_sock\<lparr>sock_fd := fd, sock_addr := (if ret = -1 then sock_addr accept_sock else peer)\<rparr>;
          addrlen = (if ret = -1 then addrlen else len)
      in if err = JCL_ERR_INTER then ns_accept_loop fuel os w (opened fds ret) accept_sock addrlen err
         else Ret (w, opened fds ret, accept_sock, addrlen, err))"

definition jcl_ns_socket_accept ::
  "nat \<Rightarrow> addr \<Rightarrow> 'w os_accept \<Rightarrow> 'w \<Rightarrow> int set \<Rightarrow> jcl_err \<Rightarrow> ('w \<times> int set \<times> jcl_ns_socket option \<times> jcl_err) run" where
  "jcl_ns_socket_accept fuel mem os w fds err =
     (case jcl_ns_socket_create mem err of
        (None, err) \<Rightarrow> Ret (w, fds, None, err)
      | (Some accept_sock, err) \<Rightarrow>
          run_bind (ns_accept_loop fuel os w fds accept_sock SIZEOF_SOCKADDR_IN err) (\<lambda>(w, fds, accept_sock, addrlen, err).
          if err \<noteq> JCL_OK then
            (case jcl_ns_socket_destroy fds (Some accept_sock) of (fds, s) \<Rightarrow> Ret (w, fds, None, err))
          else if sin_family (sock_addr accept_sock) \<noteq> AF_INET \<or> addrlen \<noteq> SIZEOF_SOCKADDR_IN then
            (case jcl_ns_socket_destroy fds (Some accept_sock) of (fds, s) \<Rightarrow> Ret (w, fds, None, JCL_ERR_NS_BAD_ACCEPT))
          else Ret (w, fds, Some accept_sock, err)))"

section \<open>Receiving and sending\<close>

fun ns_recv_loop ::
  "nat \<Rightarrow> 'w os_read \<Rightarrow> byte list \<Rightarrow> size_t \<Rightarrow> 'w \<Rightarrow> size_t \<Rightarrow> jcl_err \<Rightarrow>
   (size_t \<times> byte list \<times> 'w \<times> jcl_err) run" where
  "ns_recv_loop 0 os recv_buf sz w total_received err = Loop"
| "ns_recv_loop (Suc fuel) os recv_buf sz w total_received err =
     (if total_received < sz then
        case os w (sz - total_received) of (status, errno, bs, w) \<Rightarrow>
        let recv_buf = store_at recv_buf (unat total_received) bs in
        case jcl_recv status errno err of (size_received, err) \<Rightarrow>
        if err = JCL_ERR_INTER then ns_recv_loop fuel os recv_buf sz w total_received JCL_OK
        else if err \<noteq> JCL_OK then Ret (total_received, recv_buf, w, err)
        else if size_received = 0 then Ret (total_received, recv_buf, w, JCL_ERR_NS_CONNECTION_CLOSE)
        else ns_recv_loop fuel os recv_buf sz w (total_received + size_received) err
      else Ret (total_received, recv_buf, w, err))"

definition jcl_ns_socket_recv ::
  "nat \<Rightarrow> 'w os_read \<Rightarrow> byte list \<Rightarrow> size_t \<Rightarrow> 'w \<Rightarrow> jcl_err \<Rightarrow> (size_t \<times> byte list \<times> 'w \<times> jcl_err) run" where
  "jcl_ns_socket_recv fuel os buf sz w err = ns_recv_loop fuel os buf sz w 0 err"

fun ns_send_loop ::
  "nat \<Rightarrow> 'w os_write \<Rightarrow> byte list \<Rightarrow> size_t \<Rightarrow> 'w \<Rightarrow> size_t \<Rightarrow> jcl_err \<Rightarrow> (size_t \<times> 'w \<times> jcl_err) run" where
  "ns_send_loop 0 os send_buf sz w total_sent err = Loop"
| "ns_send_loop (Suc fuel) os send_buf sz w total_sent err =
     (if total_sent < sz then
        case os w (drop (unat total_sent) send_buf) of (status, errno, w) \<Rightarrow>
        case jcl_send status errno err of (size_sent, err) \<Rightarrow>
        if err = JCL_ERR_INTER then ns_send_loop fuel os send_buf sz w total_sent JCL_OK
        else if err \<noteq> JCL_OK then Ret (total_sent, w, err)
        else ns_send_loop fuel os send_buf sz w (total_sent + size_sent) err
      else Ret (total_sent, w, err))"

definition jcl_ns_socket_send ::
  "nat \<Rightarrow> 'w os_write \<Rightarrow> byte list \<Rightarrow> size_t \<Rightarrow> 'w \<Rightarrow> jcl_err \<Rightarrow> (size_t \<times> 'w \<times> jcl_err) run" where
  "jcl_ns_socket_send fuel os buf sz w err = ns_send_loop fuel os buf sz w 0 err"

section \<open>The loops as transfer loops\<close>

interpretation ns_s: write_loop jcl_send ns_send_loop JCL_OK
  by unfold_locales (auto split: prod.splits)

interpretation ns_r: read_loop jcl_recv ns_recv_loop JCL_OK JCL_ERR_NS_CONNECTION_CLOSE
  by unfold_locales (auto simp: Let_def jcl_recv_def split: prod.splits errno.splits)

section \<open>Accepting\<close>

lemma accept_loop_ok:
  assumes fin: "finite_interrupts (\<lambda>w (_ :: unit). os w) (\<lambda>(peer, len, w). w) pending" and fuel: "pending w < fuel"
    and err: "err \<in> {JCL_OK, JCL_ERR_INTER}"
  shows "\<exists>w' s len err'. ns_accept_loop fuel os w fds sock al err = Ret (w', opened fds (sock_fd s), s, len, err')
    \<and> (err' = JCL_OK \<longleftrightarrow> sock_fd s \<noteq> -1) \<and> (sock_fd s \<noteq> -1 \<longrightarrow> (\<exists>v e. os v = (sock_fd s, e, sock_addr s, len, w')))"
  using fuel err
proof (induction fuel arbitrary: w sock al err)
  case (Suc fuel)
  have e0: "res_err_if_inter err = JCL_OK" using Suc.prems(2) by (auto simp: res_err_if_inter_def)
  obtain ret e peer len w1 where c: "os w = (ret, e, peer, len, w1)" by (metis prod_cases5)
  note pend = finite_interruptsD[OF fin, where x = "(peer, len, w1)", simplified, OF c]
  show ?case
  proof (cases "ret = -1 \<and> e = EINTR")
    case True
    let ?s = "sock\<lparr>sock_fd := -1, sock_addr := sock_addr sock\<rparr>"
    have less: "pending w1 < fuel" using pend(2) True Suc.prems(1) by simp
    have inter: "JCL_ERR_INTER \<in> {JCL_OK, JCL_ERR_INTER}" by simp
    obtain w' s len' err' where "ns_accept_loop fuel os w1 fds ?s al JCL_ERR_INTER = Ret (w', opened fds (sock_fd s), s, len', err')"
      "err' = JCL_OK \<longleftrightarrow> sock_fd s \<noteq> -1" "sock_fd s \<noteq> -1 \<longrightarrow> (\<exists>v e. os v = (sock_fd s, e, sock_addr s, len', w'))"
      using Suc.IH[of w1 JCL_ERR_INTER ?s al, OF less inter] by blast
    thus ?thesis using True c e0 by (auto simp: Let_def jcl_accept_def opened_def)
  next
    case False
    have "fst (jcl_accept ret e JCL_OK) = ret" by (simp add: jcl_accept_def)
    then obtain err1 where j: "jcl_accept ret e JCL_OK = (ret, err1)" by (metis prod.collapse)
    have "err1 \<noteq> JCL_ERR_INTER" "err1 = JCL_OK \<longleftrightarrow> ret \<noteq> -1"
      using wr_accept.inter_iff[of ret e JCL_OK] wr_accept.ok_iff[of ret e JCL_OK] j False by auto
    moreover have "\<exists>v e. os v = (ret, e, peer, len, w1)" using c by blast
    ultimately show ?thesis using c e0 j by simp
  qed
qed simp

lemma htons_htons: "htons (htons x) = x"
  unfolding htons_def by (rule bit_word_eqI) (auto simp: bit_simps)

section \<open>Properties\<close>

text \<open>
  C22. \<open>jcl_ns_socket_send\<close>, on a connection that is interrupted only finitely often and otherwise makes
  progress: it returns, what was sent is exactly the prefix of the buffer whose length it returns, and it
  reports no error if and only if that is the whole buffer.
\<close>

theorem ns_send_all:
  assumes "writer_contract os out" "progressing os" "finite_interrupts os (\<lambda>w. w) pending"
    and "length buf = unat sz" "unat sz + pending w < fuel"
  shows "\<exists>n w' err'. jcl_ns_socket_send fuel os buf sz w JCL_OK = Ret (n, w', err')
    \<and> out w' = out w @ take (unat n) buf \<and> n \<le> sz \<and> (err' = JCL_OK \<longleftrightarrow> n = sz)"
  using ns_s.whole_buffer[OF assms(1-3) _ assms(4), of 0 w fuel] assms(5)
  by (auto simp: jcl_ns_socket_send_def word_le_nat_alt)

definition stutter_writer :: "(nat \<times> byte list) os_write" where
  "stutter_writer w req =
     (if fst w = 0 then (int (length req), EOTHER 0, (0, snd w @ req)) else (-1, EINTR, (fst w - 1, snd w)))"

lemma stutter_writer_ok:
  "writer_contract stutter_writer snd" "progressing stutter_writer" "finite_interrupts stutter_writer (\<lambda>w. w) fst"
  by (auto simp: writer_contract_def progressing_def finite_interrupts_def stutter_writer_def)

theorem ns_send_all_witness:
  "\<exists>n w' err'. jcl_ns_socket_send 9 stutter_writer [1, 2, 3] 3 (2, []) JCL_OK = Ret (n, w', err') \<and> snd w' = take (unat n) [1, 2, 3]"
  using ns_send_all[OF stutter_writer_ok, of "[1, 2, 3]" 3 "(2, [])" 9] by auto

text \<open>
  C23. \<open>jcl_ns_socket_recv\<close>, on a connection that is interrupted only finitely often: it returns, the
  received bytes are the next bytes of the stream in order, none lost or repeated, it reports no error if
  and only if the buffer was filled, and reports a closed connection only at the end of the stream.
\<close>

theorem ns_recv_all:
  assumes "reader_contract os inp" "finite_interrupts os snd pending" "length buf = unat sz" "unat sz + pending w < fuel"
  shows "\<exists>n buf' w' err'. jcl_ns_socket_recv fuel os buf sz w JCL_OK = Ret (n, buf', w', err')
    \<and> inp w = take (unat n) buf' @ inp w' \<and> length buf' = length buf \<and> n \<le> sz \<and> (err' = JCL_OK \<longleftrightarrow> n = sz)
    \<and> (err' = JCL_ERR_NS_CONNECTION_CLOSE \<longrightarrow> inp w' = [])"
proof -
  obtain n buf' w' err' where "jcl_ns_socket_recv fuel os buf sz w JCL_OK = Ret (n, buf', w', err')"
    "read_post JCL_ERR_NS_CONNECTION_CLOSE inp buf sz 0 (inp w) n buf' w' err'"
    using ns_r.whole_buffer[OF assms(1,2) _ assms(3), of 0 w fuel] assms(4) by (auto simp: jcl_ns_socket_recv_def)
  thus ?thesis by (auto simp: read_post_def word_le_nat_alt)
qed

definition stutter_reader :: "(nat \<times> byte list) os_read" where
  "stutter_reader w n =
     (if fst w = 0 then let bs = take (unat n) (snd w) in (int (length bs), EOTHER 0, bs, (0, drop (unat n) (snd w)))
      else (-1, EINTR, [], (fst w - 1, snd w)))"

lemma stutter_reader_ok: "reader_contract stutter_reader snd" "finite_interrupts stutter_reader snd fst"
  by (auto simp: reader_contract_def finite_interrupts_def stutter_reader_def Let_def unat_gt_0)

theorem ns_recv_all_witness:
  "\<exists>n buf' w' err'. jcl_ns_socket_recv 9 stutter_reader [0, 0] 2 (3, [7, 8, 9]) JCL_OK = Ret (n, buf', w', err')
     \<and> [7, 8, 9] = take (unat n) buf' @ snd w'"
  using ns_recv_all[OF stutter_reader_ok, of "[0, 0]" 2 "(3, [7, 8, 9])" 9] by auto

text \<open>
  C27. \<open>jcl_ns_socket_accept\<close> neither leaks nor loses a descriptor: it returns after finitely many
  interruptions, either with a socket that owns the one new descriptor and an IPv4 peer and no error, or
  with \<open>NULL\<close> and an error, and then exactly the descriptors of before are open.
\<close>

theorem ns_accept_no_leak:
  assumes "finite_interrupts (\<lambda>w (_ :: unit). os w) (\<lambda>(peer, len, w). w) pending" "pending w < fuel"
    and fresh: "\<forall>v ret e peer len v'. os v = (ret, e, peer, len, v') \<longrightarrow> ret \<notin> fds"
  shows "\<exists>w' fds' s err'. jcl_ns_socket_accept fuel mem os w fds JCL_OK = Ret (w', fds', s, err')
    \<and> (case s of None \<Rightarrow> err' \<noteq> JCL_OK \<and> fds' = fds
       | Some sock \<Rightarrow> err' = JCL_OK \<and> fds' = insert (sock_fd sock) fds \<and> sock_fd sock \<notin> fds \<and> sin_family (sock_addr sock) = AF_INET)"
proof (cases "mem = NULL")
  case True
  thus ?thesis by (simp add: jcl_ns_socket_accept_def jcl_ns_socket_create_def jcl_malloc_def)
next
  case False
  let ?s0 = "\<lparr>sock_fd = -1, sock_addr = zero_addr\<rparr>"
  obtain w' s len err' where r: "ns_accept_loop fuel os w fds ?s0 SIZEOF_SOCKADDR_IN JCL_OK = Ret (w', opened fds (sock_fd s), s, len, err')"
    "err' = JCL_OK \<longleftrightarrow> sock_fd s \<noteq> -1" "sock_fd s \<noteq> -1 \<longrightarrow> (\<exists>v e. os v = (sock_fd s, e, sock_addr s, len, w'))"
    using accept_loop_ok[OF assms(1,2), of JCL_OK fds ?s0 SIZEOF_SOCKADDR_IN, OF insertI1] by blast
  have "sock_fd s \<noteq> -1 \<Longrightarrow> sock_fd s \<notin> fds" using r(3) fresh by blast
  thus ?thesis using False r(1,2)
    by (auto simp: jcl_ns_socket_accept_def jcl_ns_socket_create_def jcl_malloc_def jcl_ns_socket_destroy_def opened_def)
qed

definition demo_accept :: "nat os_accept" where
  "demo_accept w = (if w = 0 then (5, EOTHER 0, \<lparr>sin_family = AF_INET, sin_port = 80, sin_addr = 1\<rparr>, 16, 0)
     else (-1, EINTR, zero_addr, 16, w - 1))"

theorem ns_accept_no_leak_witness:
  "\<exists>w' fds' s err'. jcl_ns_socket_accept 9 64 demo_accept 3 {3, 4} JCL_OK = Ret (w', fds', s, err')
     \<and> (case s of None \<Rightarrow> err' \<noteq> JCL_OK \<and> fds' = {3, 4}
        | Some sock \<Rightarrow> err' = JCL_OK \<and> fds' = insert (sock_fd sock) {3, 4} \<and> sock_fd sock \<notin> {3, 4} \<and> sin_family (sock_addr sock) = AF_INET)"
proof (rule ns_accept_no_leak)
  show "finite_interrupts (\<lambda>w (_ :: unit). demo_accept w) (\<lambda>(peer, len, w). w) (\<lambda>w. w)"
    by (auto simp: finite_interrupts_def demo_accept_def)
qed (auto simp: demo_accept_def split: if_splits)

text \<open>
  The retry loop of \<open>jcl_ns_socket_bind\<close> never retries: \<open>jcl_bind\<close> maps every failure to
  \<open>JCL_ERR_SYS\<close>, so the first call decides, also when it was interrupted.
\<close>

theorem ns_bind_single_call:
  "jcl_ns_socket_bind (Suc fuel) os w err =
   Ret (snd (snd (os w)), if fst (os w) \<noteq> 0 then JCL_ERR_SYS else res_err_if_inter err)"
  by (auto simp: jcl_bind_def res_err_if_inter_def Let_def split: prod.splits)

text \<open>
  \<open>jcl_ns_socket_set_ip\<close> stores an address only for a port above 1024 and a string that \<open>inet_pton\<close>
  accepts; the stored port is in network byte order and converts back to the given port; otherwise the
  socket is unchanged and the error is \<open>JCL_ERR_ARG\<close>.
\<close>

theorem ns_set_ip_port:
  "jcl_ns_socket_set_ip pton sock port ip JCL_OK = (sock', err') \<Longrightarrow>
   if port > 1024 \<and> fst (pton ip) = 1
   then err' = JCL_OK \<and> sock_fd sock' = sock_fd sock \<and> htons (sin_port (sock_addr sock')) = port
     \<and> sin_family (sock_addr sock') = AF_INET \<and> sin_addr (sock_addr sock') = snd (pton ip)
   else err' = JCL_ERR_ARG \<and> sock' = sock"
  by (auto simp: jcl_ns_socket_set_ip_def htons_htons Let_def not_le split: if_splits prod.splits)

theorem ns_set_ip_port_witness:
  "\<exists>sock'. jcl_ns_socket_set_ip (\<lambda>_. (1, 2130706433)) \<lparr>sock_fd = 3, sock_addr = zero_addr\<rparr> 8080 ''127.0.0.1'' JCL_OK = (sock', JCL_OK)
     \<and> htons (sin_port (sock_addr sock')) = 8080"
proof -
  obtain sock' err' where eq:
    "jcl_ns_socket_set_ip (\<lambda>_. (1, 2130706433)) \<lparr>sock_fd = 3, sock_addr = zero_addr\<rparr> 8080 ''127.0.0.1'' JCL_OK = (sock', err')"
    by fastforce
  from ns_set_ip_port[OF eq] have "err' = JCL_OK" "htons (sin_port (sock_addr sock')) = 8080" by simp_all
  thus ?thesis using eq by blast
qed

end
