(* ===== verification/Byte_Stream.thy ===== *)
theory Byte_Stream
  imports File_IO Net_Socket
begin

text \<open>
  A connection as seen from both of its ends: \<open>jcl_ns_socket_send\<close> at one end and \<open>jcl_ns_socket_recv\<close> at
  the other (in the same way \<open>jfs_fio_write\<close> and \<open>jfs_fio_read\<close> on a pipe), called in any order, with
  buffers of any sizes.  The abstract specification is a queue of bytes: \<open>queue_run\<close> says what each call
  may do to it.  The system calls of both ends are parameters that satisfy the contracts of
  \<open>Io_Transfer\<close> for one and the same sequence of bytes in transit, \<open>pipe w\<close>.
\<close>

section \<open>Calls at the two ends\<close>

datatype traffic = Put (buffer: "byte list") | Get (buffer: "byte list")

text \<open>One call after the other, each with \<open>*err\<close> reset; the result has for each call the bytes it
  reported as transferred and the error.\<close>

type_synonym outcome = "byte list \<times> jcl_err"

fun exchange ::
  "(byte list \<Rightarrow> size_t \<Rightarrow> 'w \<Rightarrow> jcl_err \<Rightarrow> (size_t \<times> 'w \<times> jcl_err) run) \<Rightarrow>
   (byte list \<Rightarrow> size_t \<Rightarrow> 'w \<Rightarrow> jcl_err \<Rightarrow> (size_t \<times> byte list \<times> 'w \<times> jcl_err) run) \<Rightarrow>
   traffic list \<Rightarrow> 'w \<Rightarrow> (outcome list \<times> 'w) run" where
  "exchange send recv [] w = Ret ([], w)"
| "exchange send recv (Put buf # ops) w =
     run_bind (send buf (of_nat (length buf)) w JCL_OK) (\<lambda>(n, w, err).
     run_bind (exchange send recv ops w) (\<lambda>(res, w). Ret ((take (unat n) buf, err) # res, w)))"
| "exchange send recv (Get buf # ops) w =
     run_bind (recv buf (of_nat (length buf)) w JCL_OK) (\<lambda>(n, buf, w, err).
     run_bind (exchange send recv ops w) (\<lambda>(res, w). Ret ((take (unat n) buf, err) # res, w)))"

section \<open>A queue of bytes\<close>

text \<open>
  \<open>queue_run eof q ops res q'\<close>: the calls \<open>ops\<close> with the outcomes \<open>res\<close> take the queue from \<open>q\<close> to \<open>q'\<close>.
  A \<open>Put\<close> appends a prefix of its buffer, a \<open>Get\<close> removes the first bytes of the queue; without an error
  it is the whole buffer; and the error \<open>eof\<close> is reported only when the queue is empty.
\<close>

fun queue_run :: "jcl_err \<Rightarrow> byte list \<Rightarrow> traffic list \<Rightarrow> outcome list \<Rightarrow> byte list \<Rightarrow> bool" where
  "queue_run eof q [] [] q' = (q' = q)"
| "queue_run eof q (Put buf # ops) ((bs, err) # res) q' \<longleftrightarrow>
     bs = take (length bs) buf \<and> (err = JCL_OK \<longleftrightarrow> bs = buf) \<and> queue_run eof (q @ bs) ops res q'"
| "queue_run eof q (Get buf # ops) ((bs, err) # res) q' \<longleftrightarrow>
     bs = take (length bs) q \<and> length bs \<le> length buf \<and> (err = JCL_OK \<longleftrightarrow> length bs = length buf)
     \<and> (err = eof \<longrightarrow> length bs = length q) \<and> queue_run eof (drop (length bs) q) ops res q'"
| "queue_run eof q _ _ q' = False"

text \<open>The blocks of bytes that went in, and those that came out.\<close>

fun blocks_in :: "traffic list \<Rightarrow> outcome list \<Rightarrow> byte list list" where
  "blocks_in (Put buf # ops) ((bs, err) # res) = bs # blocks_in ops res"
| "blocks_in (Get buf # ops) ((bs, err) # res) = blocks_in ops res"
| "blocks_in _ _ = []"

fun blocks_out :: "traffic list \<Rightarrow> outcome list \<Rightarrow> byte list list" where
  "blocks_out (Put buf # ops) ((bs, err) # res) = blocks_out ops res"
| "blocks_out (Get buf # ops) ((bs, err) # res) = bs # blocks_out ops res"
| "blocks_out _ _ = []"

lemma queue_run_conserves:
  "queue_run eof q ops res q' \<Longrightarrow> q @ concat (blocks_in ops res) = concat (blocks_out ops res) @ q'"
proof (induction eof q ops res q' rule: queue_run.induct)
  case (3 eof q buf ops bs err res q')
  have "q = bs @ drop (length bs) q" using 3(2) by (metis append_take_drop_id queue_run.simps(3))
  thus ?case using 3 by (metis append_assoc blocks_in.simps(2) blocks_out.simps(2) concat.simps(2) queue_run.simps(3))
qed auto

text \<open>Without errors the blocks that went in are the buffers given to \<open>Put\<close>, and the blocks that came
  out have the lengths of the buffers given to \<open>Get\<close>.\<close>

definition puts_of :: "traffic list \<Rightarrow> byte list list" where
  "puts_of ops = map buffer (filter is_Put ops)"

definition gets_of :: "traffic list \<Rightarrow> byte list list" where
  "gets_of ops = map buffer (filter (Not \<circ> is_Put) ops)"

lemma queue_run_no_error:
  "queue_run eof q ops res q' \<Longrightarrow> \<forall>r\<in>set res. snd r = JCL_OK \<Longrightarrow>
   blocks_in ops res = puts_of ops \<and> map length (blocks_out ops res) = map length (gets_of ops)"
  by (induction eof q ops res q' rule: queue_run.induct) (auto simp: puts_of_def gets_of_def)

lemma concat_same_lengths:
  "map length xs = map length ys \<Longrightarrow> concat xs = concat ys \<Longrightarrow> xs = ys"
proof (induction xs arbitrary: ys)
  case (Cons x xs)
  thus ?case by (cases ys) auto
qed simp

lemma concat_prefix_blocks:
  assumes "concat xs = concat ys @ zs" "map length ys = take (length ys) (map length xs)"
  shows "ys = take (length ys) xs"
proof (rule concat_same_lengths)
  show len: "map length ys = map length (take (length ys) xs)" using assms(2) by (simp add: take_map)
  have "length (concat ys) = length (concat (take (length ys) xs))" using len by (simp add: length_concat)
  moreover have "concat ys @ zs = concat (take (length ys) xs) @ concat (drop (length ys) xs)"
    using assms(1) by (metis append_take_drop_id concat_append)
  ultimately show "concat ys = concat (take (length ys) xs)" by simp
qed

text \<open>Messages of agreed lengths are not split or joined: the blocks that come out are those that went in.\<close>

lemma queue_run_messages:
  assumes "queue_run eof [] ops res q'" "\<forall>r\<in>set res. snd r = JCL_OK"
    and "map length (gets_of ops) = take (length (gets_of ops)) (map length (puts_of ops))"
  shows "blocks_out ops res = take (length (gets_of ops)) (puts_of ops)"
proof -
  note ok = queue_run_no_error[OF assms(1,2)]
  have len: "length (blocks_out ops res) = length (gets_of ops)" using ok by (metis length_map)
  show ?thesis using concat_prefix_blocks[of "puts_of ops" "blocks_out ops res" q'] queue_run_conserves[OF assms(1)] ok len assms(3)
    by simp
qed

section \<open>Two ends that implement the queue\<close>

text \<open>
  \<open>ends wr rd pipe pending\<close>: what the system calls of the two ends have to satisfy.  The laws are what
  the functions that send and receive promise about whole buffers.
\<close>

locale stream_ends =
  fixes ends :: "'w os_write \<Rightarrow> 'w os_read \<Rightarrow> ('w \<Rightarrow> byte list) \<Rightarrow> ('w \<Rightarrow> nat) \<Rightarrow> bool"
    and send :: "nat \<Rightarrow> 'w os_write \<Rightarrow> byte list \<Rightarrow> size_t \<Rightarrow> 'w \<Rightarrow> jcl_err \<Rightarrow> (size_t \<times> 'w \<times> jcl_err) run"
    and recv :: "nat \<Rightarrow> 'w os_read \<Rightarrow> byte list \<Rightarrow> size_t \<Rightarrow> 'w \<Rightarrow> jcl_err \<Rightarrow> (size_t \<times> byte list \<times> 'w \<times> jcl_err) run"
    and eof :: jcl_err
  assumes send_law: "ends wr rd pipe pending \<Longrightarrow> length buf = unat sz \<Longrightarrow> unat sz + pending w < fuel \<Longrightarrow>
      \<exists>n w' err. send fuel wr buf sz w JCL_OK = Ret (n, w', err) \<and> unat n \<le> unat sz
        \<and> pipe w' = pipe w @ take (unat n) buf \<and> (err = JCL_OK \<longleftrightarrow> n = sz) \<and> pending w' \<le> pending w"
    and recv_law: "ends wr rd pipe pending \<Longrightarrow> length buf = unat sz \<Longrightarrow> unat sz + pending w < fuel \<Longrightarrow>
      \<exists>n buf' w' err. recv fuel rd buf sz w JCL_OK = Ret (n, buf', w', err)
        \<and> read_post eof pipe buf sz 0 (pipe w) n buf' w' err \<and> pending w' \<le> pending w"
begin

lemma exchange_queue:
  assumes ends: "ends wr rd pipe pending"
    and fit: "\<forall>op\<in>set ops. length (buffer op) < 2 ^ 64 \<and> length (buffer op) + pending w < fuel"
  shows "\<exists>res w'. exchange (send fuel wr) (recv fuel rd) ops w = Ret (res, w') \<and> queue_run eof (pipe w) ops res (pipe w')"
  using fit
proof (induction ops arbitrary: w)
  case (Cons op ops)
  let ?sz = "of_nat (length (buffer op)) :: size_t"
  have sz: "length (buffer op) = unat ?sz" using Cons.prems by (simp add: unat_of_nat_64)
  have fuel: "unat ?sz + pending w < fuel" using Cons.prems unfolding sz[symmetric] by simp
  have later: "\<forall>op\<in>set ops. length (buffer op) < 2 ^ 64 \<and> length (buffer op) + pending w1 < fuel"
    if "pending w1 \<le> pending w" for w1 using Cons.prems that by fastforce
  show ?case
  proof (cases op)
    case (Put buf)
    obtain n w1 err where s: "send fuel wr buf ?sz w JCL_OK = Ret (n, w1, err)" "unat n \<le> unat ?sz"
      "pipe w1 = pipe w @ take (unat n) buf" "err = JCL_OK \<longleftrightarrow> n = ?sz" "pending w1 \<le> pending w"
      using send_law[OF ends sz fuel] Put by auto
    obtain res w' where r: "exchange (send fuel wr) (recv fuel rd) ops w1 = Ret (res, w')"
      "queue_run eof (pipe w1) ops res (pipe w')" using Cons.IH[OF later[OF s(5)]] by blast
    have "n = ?sz \<longleftrightarrow> take (unat n) buf = buf" using s(2) sz Put by (auto simp: word_unat_eq_iff)
    thus ?thesis using Put s(1-4) r sz by (auto simp: min_def)
  next
    case (Get buf)
    obtain n buf' w1 err where g: "recv fuel rd buf ?sz w JCL_OK = Ret (n, buf', w1, err)"
      "read_post eof pipe buf ?sz 0 (pipe w) n buf' w1 err" "pending w1 \<le> pending w"
      using recv_law[OF ends sz fuel] Get by auto
    obtain res w' where r: "exchange (send fuel wr) (recv fuel rd) ops w1 = Ret (res, w')"
      "queue_run eof (pipe w1) ops res (pipe w')" using Cons.IH[OF later[OF g(3)]] by blast
    have p: "take (unat n) buf' = take (unat n) (pipe w)" "pipe w1 = drop (unat n) (pipe w)" "unat n \<le> length (pipe w)"
      "unat n \<le> unat ?sz" "err = JCL_OK \<longleftrightarrow> n = ?sz" "err = eof \<longrightarrow> length (pipe w) = unat n"
      using g(2) by (auto simp: read_post_def)
    thus ?thesis using Get g(1) r sz by (auto simp: min_def word_unat_eq_iff)
  qed
qed simp

end

text \<open>Sockets that are interrupted only finitely often, and files or pipes that are never interrupted.\<close>

definition socket_ends :: "'w os_write \<Rightarrow> 'w os_read \<Rightarrow> ('w \<Rightarrow> byte list) \<Rightarrow> ('w \<Rightarrow> nat) \<Rightarrow> bool" where
  "socket_ends wr rd pipe pending \<longleftrightarrow> writer_contract wr pipe \<and> progressing wr \<and> reader_contract rd pipe
     \<and> finite_interrupts wr (\<lambda>w. w) pending \<and> finite_interrupts rd snd pending"

definition file_ends :: "'w os_write \<Rightarrow> 'w os_read \<Rightarrow> ('w \<Rightarrow> byte list) \<Rightarrow> ('w \<Rightarrow> nat) \<Rightarrow> bool" where
  "file_ends wr rd pipe pending \<longleftrightarrow> writer_contract wr pipe \<and> progressing wr \<and> reader_contract rd pipe
     \<and> uninterrupted wr \<and> uninterrupted rd \<and> (\<forall>w. pending w = 0)"

interpretation ns: stream_ends socket_ends jcl_ns_socket_send jcl_ns_socket_recv JCL_ERR_NS_CONNECTION_CLOSE
proof (unfold_locales, goal_cases)
  case (1 wr rd pipe pending buf sz w fuel)
  hence c: "writer_contract wr pipe" "progressing wr" "finite_interrupts wr (\<lambda>w. w) pending" by (auto simp: socket_ends_def)
  show ?case using ns_s.whole_buffer[OF c _ 1(2), of 0 w fuel] 1(3) by (simp add: jcl_ns_socket_send_def)
next
  case (2 wr rd pipe pending buf sz w fuel)
  hence c: "reader_contract rd pipe" "finite_interrupts rd snd pending" by (auto simp: socket_ends_def)
  show ?case using ns_r.whole_buffer[OF c _ 2(2), of 0 w fuel] 2(3) by (simp add: jcl_ns_socket_recv_def)
qed

interpretation fio: stream_ends file_ends jfs_fio_write jfs_fio_read JCL_ERR_FIO_FILE_END
proof (unfold_locales, goal_cases)
  case (1 wr rd pipe pending buf sz w fuel)
  hence c: "writer_contract wr pipe" "progressing wr" "uninterrupted wr" "\<forall>w. pending w = 0" by (auto simp: file_ends_def)
  show ?case using fio_w.whole_buffer[OF c(1,2) uninterrupted_finite[OF c(3)] disjI2[OF c(3)] 1(2), of 0 fuel w] 1(3) c(4)
    by (simp add: jfs_fio_write_def)
next
  case (2 wr rd pipe pending buf sz w fuel)
  hence c: "reader_contract rd pipe" "uninterrupted rd" "\<forall>w. pending w = 0" by (auto simp: file_ends_def)
  show ?case using fio_r.whole_buffer[OF c(1) uninterrupted_finite[OF c(2)] disjI2[OF c(2)] 2(2), of 0 fuel w] 2(3) c(3)
    by (simp add: jfs_fio_read_def)
qed

section \<open>Properties\<close>

text \<open>
  C12. A connection is a queue of bytes.  Whatever calls of \<open>jcl_ns_socket_send\<close> and
  \<open>jcl_ns_socket_recv\<close> its ends make, with any buffers and in any order, all of them return although
  they may be interrupted, and they do to the bytes in transit exactly what the queue allows: each call
  that reports no error has transferred its whole buffer, a receiver is told that the connection is
  closed only when nothing is left in it, and no byte is lost, repeated or reordered, also by calls that
  report an error.
\<close>

theorem ns_stream_is_queue:
  assumes "socket_ends wr rd pipe pending"
    and "\<forall>op\<in>set ops. length (buffer op) < 2 ^ 64 \<and> length (buffer op) + pending w < fuel"
  shows "\<exists>res w'. exchange (jcl_ns_socket_send fuel wr) (jcl_ns_socket_recv fuel rd) ops w = Ret (res, w')
    \<and> queue_run JCL_ERR_NS_CONNECTION_CLOSE (pipe w) ops res (pipe w')
    \<and> pipe w @ concat (blocks_in ops res) = concat (blocks_out ops res) @ pipe w'"
  using ns.exchange_queue[OF assms] queue_run_conserves by blast

lemma stutter_ends: "socket_ends stutter_writer stutter_reader snd fst"
  by (simp add: socket_ends_def stutter_writer_ok stutter_reader_ok)

theorem ns_stream_is_queue_witness:
  "\<exists>res w'. exchange (jcl_ns_socket_send 9 stutter_writer) (jcl_ns_socket_recv 9 stutter_reader)
       [Put [1, 2, 3], Get [0, 0], Put [4], Get [0, 0, 0]] (3, []) = Ret (res, w')
     \<and> queue_run JCL_ERR_NS_CONNECTION_CLOSE [] [Put [1, 2, 3], Get [0, 0], Put [4], Get [0, 0, 0]] res (snd w')"
  using ns_stream_is_queue[OF stutter_ends, of "[Put [1, 2, 3], Get [0, 0], Put [4], Get [0, 0, 0]]" "(3, [])" 9] by auto

text \<open>
  C13. Messages arrive as they were sent: on a connection with nothing in transit, where the receiver
  asks for blocks of the lengths the sender uses, and no call reports an error, the blocks that
  \<open>jcl_ns_socket_recv\<close> delivers are the messages given to \<open>jcl_ns_socket_send\<close>, one for one and in order,
  however the calls of the two ends interleave and however the system splits the transfers.
\<close>

theorem ns_messages_intact:
  assumes "socket_ends wr rd pipe pending" "pipe w = []"
    and "\<forall>op\<in>set ops. length (buffer op) < 2 ^ 64 \<and> length (buffer op) + pending w < fuel"
    and "map length (gets_of ops) = take (length (gets_of ops)) (map length (puts_of ops))"
  shows "\<exists>res w'. exchange (jcl_ns_socket_send fuel wr) (jcl_ns_socket_recv fuel rd) ops w = Ret (res, w')
    \<and> ((\<forall>r\<in>set res. snd r = JCL_OK) \<longrightarrow> blocks_out ops res = take (length (gets_of ops)) (puts_of ops))"
  using ns.exchange_queue[OF assms(1,3)] queue_run_messages[OF _ _ assms(4)] unfolding assms(2) by blast

text \<open>An exchange whose first call is interrupted three times and in which messages queue up.\<close>

lemma example_exchange:
  "exchange (jcl_ns_socket_send 9 stutter_writer) (jcl_ns_socket_recv 9 stutter_reader)
     [Put [1, 2], Put [3], Get [0, 0], Put [4], Get [0]] (3, []) =
   Ret ([([1, 2], JCL_OK), ([3], JCL_OK), ([1, 2], JCL_OK), ([4], JCL_OK), ([3], JCL_OK)], (0, [4]))"
  by code_simp

theorem ns_messages_intact_witness:
  "\<exists>res w'. exchange (jcl_ns_socket_send 9 stutter_writer) (jcl_ns_socket_recv 9 stutter_reader)
       [Put [1, 2], Put [3], Get [0, 0], Put [4], Get [0]] (3, []) = Ret (res, w')
     \<and> (\<forall>r\<in>set res. snd r = JCL_OK) \<and> blocks_out [Put [1, 2], Put [3], Get [0, 0], Put [4], Get [0]] res = [[1, 2], [3]]"
  using ns_messages_intact[OF stutter_ends, of "(3, [])" "[Put [1, 2], Put [3], Get [0, 0], Put [4], Get [0]]" 9] example_exchange
  by (simp add: puts_of_def gets_of_def)

text \<open>
  C29. The same queue for a pipe between \<open>jfs_fio_write\<close> and \<open>jfs_fio_read\<close>, as long as no call is interrupted.
\<close>

theorem fio_stream_is_queue:
  assumes "file_ends wr rd pipe pending"
    and "\<forall>op\<in>set ops. length (buffer op) < 2 ^ 64 \<and> length (buffer op) + pending w < fuel"
  shows "\<exists>res w'. exchange (jfs_fio_write fuel wr) (jfs_fio_read fuel rd) ops w = Ret (res, w')
    \<and> queue_run JCL_ERR_FIO_FILE_END (pipe w) ops res (pipe w')
    \<and> pipe w @ concat (blocks_in ops res) = concat (blocks_out ops res) @ pipe w'"
  using fio.exchange_queue[OF assms] queue_run_conserves by blast

lemma split_ends: "file_ends half_writer two_byte_reader (\<lambda>w. w) (\<lambda>_. 0)"
  by (simp add: file_ends_def half_writer_ok two_byte_reader_ok)

theorem fio_stream_is_queue_witness:
  "\<exists>res w'. exchange (jfs_fio_write 9 half_writer) (jfs_fio_read 9 two_byte_reader)
       [Put [1, 2, 3], Get [0, 0], Get [0, 0]] [] = Ret (res, w')
     \<and> queue_run JCL_ERR_FIO_FILE_END [] [Put [1, 2, 3], Get [0, 0], Get [0, 0]] res w'"
  using fio_stream_is_queue[OF split_ends, of "[Put [1, 2, 3], Get [0, 0], Get [0, 0]]" 9 "[]"] by auto

end
