(* ===== verification/Spec2Isabelle.thy ===== *)
theory Spec2Isabelle
  imports Lru_Life Shared_Block Bst_Bag Slab_Alloc File_Walk Byte_Stream
begin

text \<open>
  A verification of jacobs-c-library, a collection of C components under \<open>src/\<close>: error codes and wrappers of
  system calls, a generator of memory layouts, a block of equal objects, a free list, an LRU cache, a red-black
  tree, a slab allocator, file input and output, a directory walker and TCP sockets.

  \<^bold>\<open>How the parts fit together.\<close>  Every function takes a \<open>jfs_err_t *err\<close>; the wrappers of
  \<open>src/error.c\<close> turn the result of a call and \<open>errno\<close> into an error code, and all other files call the system
  through them.  \<open>src/memory_layout_generator.c\<close> cuts one aligned allocation into components, arrays of objects;
  the block (\<open>src/memory_block.c\<close>), the free list (\<open>src/free_list.c\<close>), the cache (\<open>src/lru_cache.c\<close>, on a
  block) and the tree (\<open>src/binary_search_tree.c\<close>, on a free list) are each initialised on a component.  The
  directory walker (\<open>src/file_walk.c\<close>) uses the paths and names of \<open>src/file_io.c\<close>.

  \<^bold>\<open>Conventions.\<close>  \<open>size_t\<close>, \<open>uintptr_t\<close> and pointers are 64-bit words, whose arithmetic wraps.  A
  call yields \<open>Ret\<close> of its result, \<open>Abort\<close> for a failed \<open>assert\<close>, \<open>Fault\<close> for undefined behaviour, or
  \<open>Loop\<close> for a loop without fuel (\<open>Jcl_Prelude\<close>).  \<open>*err\<close> and every object a function writes are passed in
  and returned.  The early returns of the macros of \<open>error.h\<close> are branches.  What comes from outside (\<open>malloc\<close>,
  \<open>realloc\<close>, \<open>posix_memalign\<close>, \<open>mmap\<close>, \<open>opendir\<close>, \<open>read\<close>, \<open>send\<close> and so on, and the callbacks of a
  user) is a parameter, and a contract such as \<open>os_ok\<close>, \<open>writer_contract\<close> or \<open>three_way\<close> states what is
  documented of it.

  \<^bold>\<open>Theories.\<close>
  \<^item> \<open>Jcl_Prelude\<close>: machine types, outcomes of calls, alignment, byte memories and the words in them.
  \<^item> \<open>Jcl_Error\<close> (\<open>error.h\<close>, \<open>error.c\<close>): error codes and the 24 wrappers; the locale \<open>syscall_wrapper\<close> is
    the contract of a wrapper, interpreted for each, \<open>retryable_wrapper\<close> adds the interrupted call.
  \<^item> \<open>Mem_Layout\<close> (\<open>memory_layout_generator.c\<close>): descriptions, alignment, \<open>jfs_mlg_append\<close> and
    \<open>jfs_mlg_memory_init\<close>, against a layout over the natural numbers: everything is aligned, inside the block
    and disjoint, and the call fails only when an allocation fails or a description is invalid.
  \<^item> \<open>Mem_Block\<close> (\<open>memory_block.c\<close>): objects in a byte memory; interface \<open>slot_store\<close>.
  \<^item> \<open>Lru_Cache\<close> (\<open>lru_cache.c\<close>): the cache refines a move-to-front list, whose keys are the most
    recently used ones.  \<open>Lru_Life\<close>: from empty to freed, nothing is evicted twice or forgotten.
  \<^item> \<open>Free_List\<close> (\<open>free_list.c\<close>): a list threaded through the free objects, over loads and stores of the
    8-byte word \<open>next\<close>.  The locale \<open>link_memory\<close> is interpreted on byte memory, for objects of 8 bytes or
    more, and on one cell per address, for the nodes of a tree; interface \<open>object_pool\<close>; the states a client
    can reach, which also writes to what it holds, as an inductive relation.
  \<^item> \<open>Bst_Code\<close> (\<open>binary_search_tree.c\<close>): all operations of the tree.  \<open>Bst_Tree\<close> and \<open>Bst_Del_Tree\<close> are
    the mathematics: trees of node addresses, contexts, and the two rebalancing loops \<open>fix_ins\<close> and \<open>fix_del\<close> as
    functions with the red-black invariants.  \<open>Bst_Rep\<close> says what it means that the pointers hold a tree
    (\<open>zrep\<close>); \<open>Bst_Insert\<close>, \<open>Bst_Delete\<close> and \<open>Bst_Unlink\<close> show that insertion, rebalancing and deletion of
    the code do on the memory what the functions do on trees.  \<open>Bst_Put\<close>, \<open>Bst_Map\<close> and \<open>Bst_Take\<close> hold the
    invariant of a tree (\<open>bst_inv\<close>), the public operations and their properties.  \<open>Bst_Multi\<close> adds the lists of
    equal keys (\<open>multi\<close>) and shows that the tree sorts; interface \<open>end_taker\<close>, for both ends.
    \<open>Bst_Bag\<close> has the single takes and the searches on such trees, on the multiset of their values.
    The memory of the nodes is one map per field; \<open>bst_memory\<close> says when a component has room for such
    nodes and for the values.  A value is what the object of a caller holds; \<open>obj_bytes\<close> is the size of these
    objects, and a copy of more than that many bytes is a \<open>Fault\<close>.
  \<^item> \<open>Shared_Block\<close>: several components of one block over the same memory: free lists, caches (with any
    interleaving of their operations) and a tree made by the library's own functions.
  \<^item> \<open>Slab_Alloc\<close> (\<open>slab_allocator.c\<close>): the configuration, aligned blocks from \<open>mmap\<close>, slabs.
  \<^item> \<open>Io_Transfer\<close>: the loops that read or write a whole buffer, as the locales \<open>write_loop\<close> and
    \<open>read_loop\<close>; interpreted by \<open>File_IO\<close> (\<open>file_io.c\<close>, with paths and names in a heap of strings) and
    \<open>Net_Socket\<close> (\<open>net_socket.c\<close>, with the set of open descriptors).
  \<^item> \<open>Byte_Stream\<close>: both ends of a connection or a pipe, with any interleaving of sending and receiving,
    against a queue of bytes (\<open>queue_run\<close>); interface \<open>stream_ends\<close>, interpreted for sockets and for files.
  \<^item> \<open>Fw_Code\<close> (\<open>file_walk.c\<close>): the walker, its vectors and its record on a heap of live blocks, where fresh memory
    holds anything.
    \<open>Fw_Heap\<close> describes a heap by the multiset of its cells, so that a specification with an arbitrary rest shows
    that nothing is lost or changed; \<open>Fw_Vector\<close> has the growing arrays as locales (\<open>fw_array\<close>, \<open>fw_elems\<close>,
    \<open>fw_vector\<close>), interpreted for paths, files and directories in \<open>Fw_Rep\<close>; \<open>Fw_Step\<close> has the abstract
    steps of a walk (\<open>walk_step\<close>), \<open>Fw_Walker\<close> shows that the operations implement them, and \<open>File_Walk\<close> has
    whole walks: no leak, termination, completeness.

  \<^bold>\<open>Fuel.\<close>  The loops of the tree take as fuel a bound on their rounds; more than the height of the tree
  (at most \<open>2 * log2 (n + 1)\<close> for \<open>n\<close> nodes) suffices, which the properties prove.  The transfer loops need one
  round for each call that makes progress and for each interruption; the properties that they return assume
  finitely many interruptions.  Loops over an index recurse on what is left of it.

  \<^bold>\<open>Not modelled.\<close>  \<open>src/meson.build\<close> is the build.  Of \<open>slab_allocator.c\<close> the batches, buffers and the
  allocator's public functions are only declared in the repository, without a body, and the body of
  \<open>sa_print_config\<close> is empty.  \<open>tree->attach\<close> and \<open>tree->detach\<close> are called
  but declared nowhere; they are parameters, instantiated with \<open>bst_attach_node\<close> and \<open>bst_detach_node\<close>.
\<close>

end
